(* ===== verification/Prelude.thy ===== *)
theory Prelude
  imports Main "HOL-Library.Word"
begin

text \<open>
  What every theory of the development shares: the machine types of the Rust
  source, the result type, the slice operations that stand for
  \<^verbatim>\<open>&bytes[a..b]\<close> and \<^verbatim>\<open>bytes[a..b].copy_from_slice(xs)\<close>, and the
  little-endian byte encoding \<^verbatim>\<open>to_le_bytes\<close> / \<^verbatim>\<open>from_le_bytes\<close> of the
  standard library.  A \<^verbatim>\<open>usize\<close> that is a length, an index or a count is a
  \<^typ>\<open>nat\<close>; every integer that is stored on disk or handed out keeps its
  width.
\<close>

section \<open>Machine types and results\<close>

unbundle bit_operations_syntax

type_synonym u8 = "8 word"
type_synonym u16 = "16 word"
type_synonym u32 = "32 word"
type_synonym u64 = "64 word"
type_synonym bytes = "u8 list"

named_theorems slice_simps
named_theorems page_simps
named_theorems header_simps

text \<open>The two arms of a Rust \<open>Result\<close>: \<open>Err e\<close> is \<open>Inl e\<close>, \<open>Ok x\<close> is \<open>Inr x\<close>.\<close>

abbreviation is_ok :: "'e + 'a \<Rightarrow> bool" where
  "is_ok r \<equiv> \<not> isl r"

lemma is_ok_unit: "is_ok (r :: 'e + unit) \<longleftrightarrow> r = Inr ()"
  by (cases r) auto

section \<open>Slices\<close>

definition slice :: "nat \<Rightarrow> nat \<Rightarrow> 'a list \<Rightarrow> 'a list" where
  "slice off n xs = take n (drop off xs)"

definition splice :: "nat \<Rightarrow> 'a list \<Rightarrow> 'a list \<Rightarrow> 'a list" where
  "splice off ys xs = take off xs @ ys @ drop (off + length ys) xs"

lemma length_slice [slice_simps]: "off + n \<le> length xs \<Longrightarrow> length (slice off n xs) = n"
  by (simp add: slice_def)

lemma length_splice [slice_simps]:
  "off + length ys \<le> length xs \<Longrightarrow> length (splice off ys xs) = length xs"
  by (simp add: splice_def)

lemma nth_splice:
  assumes "off + length ys \<le> length xs" and "i < length xs"
  shows "splice off ys xs ! i =
    (if off \<le> i \<and> i < off + length ys then ys ! (i - off) else xs ! i)"
  using assms by (auto simp: splice_def nth_append)

lemma slice_splice_same [slice_simps]:
  "off + length ys \<le> length xs \<Longrightarrow> n = length ys \<Longrightarrow> slice off n (splice off ys xs) = ys"
  by (simp add: slice_def splice_def)

lemma slice_eq_iff:
  assumes "off + n \<le> length xs" and "off + n \<le> length zs"
  shows "slice off n xs = slice off n zs \<longleftrightarrow> (\<forall>i. off \<le> i \<and> i < off + n \<longrightarrow> xs ! i = zs ! i)"
proof
  assume eq: "slice off n xs = slice off n zs"
  show "\<forall>i. off \<le> i \<and> i < off + n \<longrightarrow> xs ! i = zs ! i"
  proof (intro allI impI)
    fix i assume i: "off \<le> i \<and> i < off + n"
    then have "i - off < n" and "off + (i - off) = i" by linarith+
    then have "slice off n xs ! (i - off) = xs ! i" "slice off n zs ! (i - off) = zs ! i"
      using assms by (simp_all add: slice_def)
    with eq show "xs ! i = zs ! i" by simp
  qed
next
  assume "\<forall>i. off \<le> i \<and> i < off + n \<longrightarrow> xs ! i = zs ! i"
  then show "slice off n xs = slice off n zs"
    using assms by (intro nth_equalityI) (simp_all add: slice_def)
qed

lemma slice_splice_disjoint [slice_simps]:
  assumes "off + length ys \<le> length xs" and "a + n \<le> length xs"
    and "a + n \<le> off \<or> off + length ys \<le> a"
  shows "slice a n (splice off ys xs) = slice a n xs"
  using assms by (subst slice_eq_iff) (auto simp: nth_splice length_splice)

lemma splice_splice_same [slice_simps]:
  assumes "off + length ys \<le> length xs" and "length zs = length ys"
  shows "splice off zs (splice off ys xs) = splice off zs xs"
  using assms by (intro nth_equalityI) (auto simp: nth_splice length_splice)

lemma splice_splice_commute:
  assumes "off + length ys \<le> length xs" and "a + length zs \<le> length xs"
    and "a + length zs \<le> off \<or> off + length ys \<le> a"
  shows "splice a zs (splice off ys xs) = splice off ys (splice a zs xs)"
  using assms by (intro nth_equalityI) (auto simp: nth_splice length_splice)

lemma splice_id [slice_simps]:
  assumes "off + n \<le> length xs"
  shows "splice off (slice off n xs) xs = xs"
  using assms by (intro nth_equalityI) (auto simp: nth_splice length_splice length_slice, simp add: slice_def)

lemma splice_all: "length ys = length xs \<Longrightarrow> splice 0 ys xs = ys"
  by (simp add: splice_def)

lemma splice_update:
  assumes "off + length ys \<le> length xs" and "i < length xs"
  shows "(splice off ys xs)[i := b] =
    (if off \<le> i \<and> i < off + length ys then splice off (ys[i - off := b]) xs
     else splice off ys (xs[i := b]))"
  using assms by (auto intro!: nth_equalityI simp: nth_splice length_splice nth_list_update)

lemma slice_update_disjoint:
  assumes "a + n \<le> length xs" and "i < a \<or> a + n \<le> i"
  shows "slice a n (xs[i := b]) = slice a n xs"
  using assms by (subst slice_eq_iff) (auto simp: nth_list_update)

lemma drop_splice [slice_simps]:
  "off + length ys \<le> n \<Longrightarrow> n \<le> length xs \<Longrightarrow> drop n (splice off ys xs) = drop n xs"
  by (rule nth_equalityI) (auto simp: nth_splice length_splice)

lemma take_splice [slice_simps]:
  "n \<le> off \<Longrightarrow> off + length ys \<le> length xs \<Longrightarrow> take n (splice off ys xs) = take n xs"
  by (rule nth_equalityI) (auto simp: nth_splice length_splice)

lemma slice_map_nth: "off + n \<le> length xs \<Longrightarrow> slice off n xs = map (\<lambda>i. xs ! (off + i)) [0..<n]"
  by (rule nth_equalityI) (simp_all add: slice_def)

lemma slice_0_all: "n = length xs \<Longrightarrow> slice 0 n xs = xs"
  by (simp add: slice_def)

section \<open>Powers of two\<close>

text \<open>\<^verbatim>\<open>usize::is_power_of_two\<close>.\<close>

fun is_power_of_two :: "nat \<Rightarrow> bool" where
  "is_power_of_two n =
    (if n = 0 then False else if n = 1 then True else even n \<and> is_power_of_two (n div 2))"

declare is_power_of_two.simps [simp del]

lemma is_power_of_two_iff: "is_power_of_two n \<longleftrightarrow> (\<exists>k. n = 2 ^ k)"
proof (induction n rule: is_power_of_two.induct)
  case (1 n)
  show ?case
  proof (cases "n \<le> 1")
    case True
    then have "n = 0 \<or> n = 1" by arith
    then show ?thesis by (auto simp: is_power_of_two.simps [of n] intro: exI [of _ 0])
  next
    case False
    then have "is_power_of_two n \<longleftrightarrow> even n \<and> (\<exists>k. n div 2 = 2 ^ k)"
      using "1" by (subst is_power_of_two.simps) auto
    also have "\<dots> \<longleftrightarrow> (\<exists>k. n = 2 ^ Suc k)" by auto
    also have "\<dots> \<longleftrightarrow> (\<exists>k. n = 2 ^ k)"
      using False by (metis not_less_eq_eq One_nat_def le_refl nat.exhaust power_0)
    finally show ?thesis .
  qed
qed

section \<open>Words\<close>

lemma xor_cancel_right [simp]: "a XOR c = b XOR c \<longleftrightarrow> a = (b :: 'a::len word)"
proof
  assume "a XOR c = b XOR c"
  then have "(a XOR c) XOR c = (b XOR c) XOR c" by simp
  then show "a = b" by (simp add: xor.assoc)
qed simp

lemma xor_cancel_left [simp]: "c XOR a = c XOR b \<longleftrightarrow> a = (b :: 'a::len word)"
  by (metis xor_cancel_right xor.commute)

section \<open>Little-endian encoding\<close>

definition to_le_bytes :: "'a::len word \<Rightarrow> bytes" where
  "to_le_bytes w = map (\<lambda>i. ucast (drop_bit (8 * i) w)) [0..<LENGTH('a) div 8]"

primrec from_le_bytes :: "bytes \<Rightarrow> 'a::len word" where
  "from_le_bytes [] = 0"
| "from_le_bytes (b # bs) = ucast b OR push_bit 8 (from_le_bytes bs)"

lemma length_to_le_bytes [simp]: "length (to_le_bytes (w :: 'a::len word)) = LENGTH('a) div 8"
  by (simp add: to_le_bytes_def)

lemma bit_from_le_bytes:
  "bit (from_le_bytes bs :: 'a::len word) n \<longleftrightarrow>
     n < LENGTH('a) \<and> n div 8 < length bs \<and> bit (bs ! (n div 8)) (n mod 8)"
proof (induction bs arbitrary: n)
  case Nil
  then show ?case by simp
next
  case (Cons b bs)
  show ?case
  proof (cases "n < 8")
    case True
    then show ?thesis by (auto simp: bit_simps)
  next
    case False
    then have "n div 8 = Suc ((n - 8) div 8)" and "(n - 8) mod 8 = n mod 8"
      by (simp_all add: le_div_geq le_mod_geq)
    with False show ?thesis
      by (auto simp: bit_simps Cons.IH dest: bit_imp_le_length)
  qed
qed

lemma from_to_le_bytes:
  assumes "8 dvd LENGTH('a::len)"
  shows "from_le_bytes (to_le_bytes w) = (w :: 'a word)"
proof (rule bit_word_eqI)
  fix n assume n: "n < LENGTH('a)"
  have "n div 8 < LENGTH('a) div 8"
    using n assms by (metis dvd_mult_div_cancel less_mult_imp_div_less mult.commute)
  then show "bit (from_le_bytes (to_le_bytes w) :: 'a word) n \<longleftrightarrow> bit w n"
    using n by (simp add: bit_from_le_bytes to_le_bytes_def bit_simps)
qed

lemma to_from_le_bytes:
  assumes "LENGTH('a::len) = 8 * length bs"
  shows "to_le_bytes (from_le_bytes bs :: 'a word) = bs"
proof (rule nth_equalityI)
  show "length (to_le_bytes (from_le_bytes bs :: 'a word)) = length bs"
    using assms by simp
  fix i assume "i < length (to_le_bytes (from_le_bytes bs :: 'a word))"
  then have i: "i < length bs" using assms by simp
  show "to_le_bytes (from_le_bytes bs :: 'a word) ! i = bs ! i"
  proof (rule bit_word_eqI)
    fix n assume n: "n < LENGTH(8)"
    then have "8 * i + n < 8 * length bs" using i by simp
    moreover have "(8 * i + n) div 8 = i" "(8 * i + n) mod 8 = n" using n by simp_all
    ultimately show "bit (to_le_bytes (from_le_bytes bs :: 'a word) ! i) n \<longleftrightarrow> bit (bs ! i) n"
      using i n assms by (simp add: to_le_bytes_def bit_simps bit_from_le_bytes)
  qed
qed

lemma from_le_bytes_inject:
  assumes "8 * length xs \<le> LENGTH('a::len)" and "length ys = length xs"
  shows "(from_le_bytes xs :: 'a word) = from_le_bytes ys \<longleftrightarrow> xs = ys"
proof
  assume eq: "(from_le_bytes xs :: 'a word) = from_le_bytes ys"
  show "xs = ys"
  proof (rule nth_equalityI)
    fix i assume i: "i < length xs"
    show "xs ! i = ys ! i"
    proof (rule bit_word_eqI)
      fix n assume n: "n < LENGTH(8)"
      then have "8 * i + n < LENGTH('a)" using i assms by simp
      moreover have "(8 * i + n) div 8 = i" "(8 * i + n) mod 8 = n" using n by simp_all
      moreover have "bit (from_le_bytes xs :: 'a word) (8 * i + n) =
          bit (from_le_bytes ys :: 'a word) (8 * i + n)"
        using eq by simp
      ultimately show "bit (xs ! i) n \<longleftrightarrow> bit (ys ! i) n"
        using i assms(2) by (simp add: bit_from_le_bytes)
    qed
  qed (simp add: assms(2))
qed simp

end
