(* ===== verification/Buffer.thy ===== *)
theory Buffer
  imports Prelude
begin

text \<open>
  The aligned heap buffer a page owns (\<^verbatim>\<open>src/buffer.rs\<close>).  The pointer becomes
  the bytes it points to; the layout (size and alignment) is kept, because the
  alignment is what Direct I/O relies on.  Where the code calls
  \<^verbatim>\<open>handle_alloc_error\<close>, which aborts the process, the model returns
  \<^term>\<open>None\<close>.  Freeing the buffer has no counterpart.
\<close>

record layout =
  lay_size :: nat
  lay_align :: nat

record aligned_buffer =
  buf_data :: bytes
  buf_layout :: layout

definition isize_max :: nat where
  "isize_max = 2 ^ 63 - 1"

text \<open>
  \<^verbatim>\<open>Layout::from_size_align\<close>: the alignment is a power of two and the size,
  rounded up to the alignment, does not exceed \<^verbatim>\<open>isize::MAX\<close>.
\<close>

definition layout_from_size_align :: "nat \<Rightarrow> nat \<Rightarrow> layout option" where
  "layout_from_size_align sz align =
    (if is_power_of_two align \<and> sz + (align - 1) \<le> isize_max
     then Some \<lparr>lay_size = sz, lay_align = align\<rparr> else None)"

definition new_zeroed :: "nat \<Rightarrow> nat \<Rightarrow> aligned_buffer option" where
  "new_zeroed sz align =
    (case layout_from_size_align sz align of
       Some layout \<Rightarrow> Some \<lparr>buf_data = replicate (lay_size layout) 0, buf_layout = layout\<rparr>
     | None \<Rightarrow> None)"

definition as_slice :: "aligned_buffer \<Rightarrow> bytes" where
  "as_slice b = buf_data b"

text \<open>\<^verbatim>\<open>as_mut_slice\<close>: what the holder of the exclusive borrow does is the argument.\<close>

definition as_mut_slice :: "(bytes \<Rightarrow> bytes) \<Rightarrow> aligned_buffer \<Rightarrow> aligned_buffer" where
  "as_mut_slice f b = b\<lparr>buf_data := f (buf_data b)\<rparr>"

definition buffer_clone :: "aligned_buffer \<Rightarrow> aligned_buffer option" where
  "buffer_clone b =
    (case new_zeroed (lay_size (buf_layout b)) (lay_align (buf_layout b)) of
       Some copy \<Rightarrow> Some (as_mut_slice (splice 0 (as_slice b)) copy)
     | None \<Rightarrow> None)"

text \<open>The invariant of the type: the pointer owns exactly the bytes of a legal layout.\<close>

definition buffer_wf :: "aligned_buffer \<Rightarrow> bool" where
  "buffer_wf b \<longleftrightarrow> length (buf_data b) = lay_size (buf_layout b)
     \<and> layout_from_size_align (lay_size (buf_layout b)) (lay_align (buf_layout b))
       = Some (buf_layout b)"

lemma as_slice_as_mut_slice [simp]: "as_slice (as_mut_slice f b) = f (as_slice b)"
  by (simp add: as_slice_def as_mut_slice_def)

lemma buf_layout_as_mut_slice [simp]: "buf_layout (as_mut_slice f b) = buf_layout b"
  by (simp add: as_mut_slice_def)

lemma as_mut_slice_as_mut_slice [simp]:
  "as_mut_slice g (as_mut_slice f b) = as_mut_slice (g \<circ> f) b"
  by (simp add: as_mut_slice_def)

lemma as_mut_slice_id: "f (as_slice b) = as_slice b \<Longrightarrow> as_mut_slice f b = b"
  by (simp add: as_slice_def as_mut_slice_def)

lemma aligned_buffer_eqI:
  "as_slice a = as_slice b \<Longrightarrow> buf_layout a = buf_layout b \<Longrightarrow> a = (b :: aligned_buffer)"
  by (simp add: as_slice_def)

lemma new_zeroed_wf: "new_zeroed sz align = Some b \<Longrightarrow> buffer_wf b \<and> as_slice b = replicate sz 0"
  by (auto simp: new_zeroed_def layout_from_size_align_def buffer_wf_def as_slice_def
      split: if_splits)

lemma as_mut_slice_wf:
  "buffer_wf b \<Longrightarrow> length (f (as_slice b)) = length (as_slice b) \<Longrightarrow> buffer_wf (as_mut_slice f b)"
  by (simp add: buffer_wf_def as_mut_slice_def as_slice_def)

lemma buffer_clone_wf: "buffer_wf b \<Longrightarrow> buffer_clone b = Some b"
  by (simp add: buffer_wf_def buffer_clone_def new_zeroed_def as_mut_slice_def as_slice_def
      splice_all)

end
