(* ===== verification/Checksum.thy ===== *)
theory Checksum
  imports Prelude
begin

text \<open>
  CRC32C page checksums (\<^verbatim>\<open>src/checksum.rs\<close>): the generated slice-by-eight
  tables, the \<^verbatim>\<open>process\<close> loop over eight-byte chunks and the remainder, the
  streaming accumulator and the one-shot form.  The reference is the bitwise
  shift register of the polynomial; the table code is proved equal to it, and
  from the register come the linearity and injectivity facts that say which
  corruptions a checksum can never miss.
\<close>

section \<open>Tables\<close>

definition POLY :: u32 where
  "POLY = 0x82F63B78"

text \<open>One turn of the inner \<^verbatim>\<open>while bit < 8\<close> loop.\<close>

definition crc_bit :: "u32 \<Rightarrow> u32" where
  "crc_bit crc = (if crc AND 1 \<noteq> 0 then drop_bit 1 crc XOR POLY else drop_bit 1 crc)"

primrec bit_loop :: "nat \<Rightarrow> u32 \<Rightarrow> u32" where
  "bit_loop 0 crc = crc"
| "bit_loop (Suc n) crc = bit_loop n (crc_bit crc)"

definition table0 :: "u32 list" where
  "table0 = map (\<lambda>n. bit_loop 8 (of_nat n)) [0..<256]"

definition next_table :: "u32 list \<Rightarrow> u32 list" where
  "next_table prev_row = map (\<lambda>i. let prev = prev_row ! i
     in drop_bit 8 prev XOR table0 ! unat (prev AND 0xff)) [0..<256]"

primrec table_row :: "nat \<Rightarrow> u32 list" where
  "table_row 0 = table0"
| "table_row (Suc k) = next_table (table_row k)"

definition generate_tables :: "u32 list list" where
  "generate_tables = map table_row [0..<8]"

definition TABLES :: "u32 list list" where
  "TABLES = generate_tables"

section \<open>Processing\<close>

definition chunk_step :: "u32 \<Rightarrow> bytes \<Rightarrow> u32" where
  "chunk_step crc0 chunk =
    (let lo = from_le_bytes [chunk ! 0, chunk ! 1, chunk ! 2, chunk ! 3] :: u32;
         hi = from_le_bytes [chunk ! 4, chunk ! 5, chunk ! 6, chunk ! 7] :: u32;
         crc = crc0 XOR lo
     in TABLES ! 7 ! unat (crc AND 0xff)
        XOR TABLES ! 6 ! unat (drop_bit 8 crc AND 0xff)
        XOR TABLES ! 5 ! unat (drop_bit 16 crc AND 0xff)
        XOR TABLES ! 4 ! unat (drop_bit 24 crc AND 0xff)
        XOR TABLES ! 3 ! unat (hi AND 0xff)
        XOR TABLES ! 2 ! unat (drop_bit 8 hi AND 0xff)
        XOR TABLES ! 1 ! unat (drop_bit 16 hi AND 0xff)
        XOR TABLES ! 0 ! unat (drop_bit 24 hi AND 0xff))"

definition byte_step :: "u32 \<Rightarrow> u8 \<Rightarrow> u32" where
  "byte_step crc byte =
     drop_bit 8 crc XOR TABLES ! 0 ! unat ((crc XOR ucast byte) AND 0xff)"

text \<open>
  \<^verbatim>\<open>process\<close>: whole chunks of eight first (\<^verbatim>\<open>chunks_exact(8)\<close>), then the
  remainder byte by byte.
\<close>

fun process :: "u32 \<Rightarrow> bytes \<Rightarrow> u32" where
  "process crc data =
    (if 8 \<le> length data then process (chunk_step crc (take 8 data)) (drop 8 data)
     else foldl byte_step crc data)"

declare process.simps [simp del]

record crc32c_state =
  crc_state :: u32

definition Crc32c_new :: crc32c_state where
  "Crc32c_new = \<lparr>crc_state = 0xFFFFFFFF\<rparr>"

definition Crc32c_update :: "crc32c_state \<Rightarrow> bytes \<Rightarrow> crc32c_state" where
  "Crc32c_update h data = h\<lparr>crc_state := process (crc_state h) data\<rparr>"

definition Crc32c_finalize :: "crc32c_state \<Rightarrow> u32" where
  "Crc32c_finalize h = crc_state h XOR 0xFFFFFFFF"

definition crc32c :: "bytes \<Rightarrow> u32" where
  "crc32c data = Crc32c_finalize (Crc32c_update Crc32c_new data)"

section \<open>The bitwise reference\<close>

definition crc_byte_ref :: "u32 \<Rightarrow> u8 \<Rightarrow> u32" where
  "crc_byte_ref crc b = bit_loop 8 (crc XOR ucast b)"

definition crc_ref :: "u32 \<Rightarrow> bytes \<Rightarrow> u32" where
  "crc_ref = foldl crc_byte_ref"

lemma crc_ref_simps [simp]:
  "crc_ref c [] = c"
  "crc_ref c (b # bs) = crc_ref (crc_byte_ref c b) bs"
  "crc_ref c (xs @ ys) = crc_ref (crc_ref c xs) ys"
  by (simp_all add: crc_ref_def)

subsection \<open>The shift register is linear and injective\<close>

lemma bit_crc_bit: "bit (crc_bit x) n \<longleftrightarrow> bit x (Suc n) \<noteq> (bit x 0 \<and> bit POLY n)"
  by (auto simp: crc_bit_def bit_simps and_one_eq mod2_eq_if bit_0)

lemma crc_bit_xor: "crc_bit (x XOR y) = crc_bit x XOR crc_bit y"
  by (rule bit_word_eqI) (auto simp: bit_crc_bit bit_simps)

lemma bit_loop_xor: "bit_loop n (x XOR y) = bit_loop n x XOR bit_loop n y"
  by (induction n arbitrary: x y) (simp_all add: crc_bit_xor)

lemma bit_POLY_31: "bit POLY 31"
  by (simp add: POLY_def)

lemma crc_bit_inject: "crc_bit x = crc_bit y \<longleftrightarrow> x = y"
proof
  assume eq: "crc_bit x = crc_bit y"
  have top: "bit z 32 = False" for z :: u32
    by (auto dest: bit_imp_le_length)
  have "bit (crc_bit x) 31 = bit (crc_bit y) 31" using eq by simp
  then have low: "bit x 0 = bit y 0"
    by (simp add: bit_crc_bit bit_POLY_31 top)
  show "x = y"
  proof (rule bit_word_eqI)
    fix n assume "n < LENGTH(32)"
    show "bit x n = bit y n"
    proof (cases n)
      case 0 with low show ?thesis by simp
    next
      case (Suc m)
      have "bit (crc_bit x) m = bit (crc_bit y) m" using eq by simp
      with low Suc show ?thesis by (auto simp: bit_crc_bit)
    qed
  qed
qed simp

lemma bit_loop_inject: "bit_loop n x = bit_loop n y \<longleftrightarrow> x = y"
  by (induction n arbitrary: x y) (simp_all add: crc_bit_inject)

lemma bit_loop_add: "bit_loop (m + n) x = bit_loop n (bit_loop m x)"
  by (induction m arbitrary: x) simp_all

lemma crc_bit_even: "\<not> bit x 0 \<Longrightarrow> crc_bit x = drop_bit 1 x"
  by (rule bit_word_eqI) (simp add: bit_crc_bit bit_simps)

lemma bit_loop_shift: "(\<And>i. i < n \<Longrightarrow> \<not> bit x i) \<Longrightarrow> bit_loop n x = drop_bit n x"
proof (induction n arbitrary: x)
  case 0
  then show ?case by simp
next
  case (Suc n)
  have "\<not> bit (drop_bit 1 x) i" if "i < n" for i
    using Suc.prems[of "Suc i"] that by (simp add: bit_simps)
  then have "bit_loop n (drop_bit 1 x) = drop_bit n (drop_bit 1 x)"
    by (rule Suc.IH)
  then show ?case
    using Suc.prems[of 0] by (simp add: crc_bit_even)
qed


subsection \<open>The tables hold the register after 8, 16, .., 64 zero bits\<close>

lemma and_ff: "x AND 0xff = take_bit 8 (x :: u32)"
  by (simp add: take_bit_eq_mask mask_eq_exp_minus_1)

lemma low_byte_lt: "unat (take_bit 8 x :: u32) < 256"
  using take_bit_nat_less_exp[of 8 "unat x"] by (simp add: unsigned_take_bit_eq)

lemma bit_loop_byte: "bit_loop 8 x = drop_bit 8 x XOR bit_loop 8 (take_bit 8 x)"
proof -
  have "x = push_bit 8 (drop_bit 8 x) XOR take_bit 8 x"
    by (rule bit_word_eqI) (auto simp: bit_simps)
  then have "bit_loop 8 x = bit_loop 8 (push_bit 8 (drop_bit 8 x)) XOR bit_loop 8 (take_bit 8 x)"
    by (metis bit_loop_xor)
  moreover have "bit_loop 8 (push_bit 8 (drop_bit 8 x)) = drop_bit 8 (push_bit 8 (drop_bit 8 x))"
    by (rule bit_loop_shift) (simp add: bit_simps)
  moreover have "drop_bit 8 (push_bit 8 (drop_bit 8 x)) = drop_bit 8 x"
    by (rule bit_word_eqI) (auto simp: bit_simps dest: bit_imp_le_length)
  ultimately show ?thesis by simp
qed

lemma length_table_row [simp]: "length (table_row k) = 256"
  by (cases k) (simp_all add: table0_def next_table_def)

lemma table0_nth: "unat v < 256 \<Longrightarrow> table0 ! unat v = bit_loop 8 v"
  by (simp add: table0_def)

lemma table_row_nth: "i < 256 \<Longrightarrow> table_row k ! i = bit_loop (8 * Suc k) (of_nat i)"
proof (induction k)
  case 0
  then show ?case by (simp add: table0_def)
next
  case (Suc k)
  let ?prev = "table_row k ! i"
  have "table_row (Suc k) ! i = drop_bit 8 ?prev XOR table0 ! unat (take_bit 8 ?prev)"
    using Suc.prems by (simp add: next_table_def Let_def and_ff)
  also have "\<dots> = bit_loop 8 ?prev"
    by (simp add: table0_nth low_byte_lt bit_loop_byte [of ?prev])
  also have "\<dots> = bit_loop (8 * Suc (Suc k)) (of_nat i)"
    using Suc bit_loop_add[of "8 * Suc k" 8] by (simp add: add.commute)
  finally show ?case .
qed

lemma TABLES_nth:
  "k < 8 \<Longrightarrow> unat v < 256 \<Longrightarrow> TABLES ! k ! unat v = bit_loop (8 * Suc k) v"
  by (simp add: TABLES_def generate_tables_def table_row_nth del: mult_Suc_right)

subsection \<open>Table processing equals the reference\<close>

lemma byte_step_ref: "byte_step c b = crc_byte_ref c b"
proof -
  let ?x = "c XOR ucast b"
  have "drop_bit 8 ?x = drop_bit 8 c"
    by (rule bit_word_eqI) (auto simp: bit_simps dest: bit_imp_le_length)
  then show ?thesis
    using TABLES_nth[of 0 "take_bit 8 ?x"] bit_loop_byte [of ?x] low_byte_lt [of ?x]
    unfolding byte_step_def crc_byte_ref_def and_ff by simp
qed

lemma crc_ref_word:
  "length bs \<le> 4 \<Longrightarrow> crc_ref c bs = bit_loop (8 * length bs) (c XOR from_le_bytes bs)"
proof (induction bs arbitrary: c)
  case Nil
  then show ?case by simp
next
  case (Cons b bs)
  let ?F = "from_le_bytes bs :: u32"
  have "bit_loop 8 (push_bit 8 ?F) = drop_bit 8 (push_bit 8 ?F)"
    by (rule bit_loop_shift) (simp add: bit_simps)
  moreover have "drop_bit 8 (push_bit 8 ?F) = ?F"
    using Cons.prems by (intro bit_word_eqI) (auto simp: bit_simps bit_from_le_bytes)
  moreover have "c XOR (ucast b OR push_bit 8 ?F) = (c XOR ucast b) XOR push_bit 8 ?F"
    by (rule bit_word_eqI) (auto simp: bit_simps dest: bit_imp_le_length)
  ultimately have "bit_loop 8 (c XOR (ucast b OR push_bit 8 ?F)) = crc_byte_ref c b XOR ?F"
    by (simp add: bit_loop_xor crc_byte_ref_def)
  then show ?case
    using Cons bit_loop_add[of 8 "8 * length bs"] by simp
qed

lemma bit_loop_byte_at:
  assumes "i < 4"
  shows "bit_loop (m + 8 * i) (push_bit (8 * i) (take_bit 8 (drop_bit (8 * i) x))) =
    bit_loop m (take_bit 8 (drop_bit (8 * i) x))"
proof -
  let ?v = "take_bit 8 (drop_bit (8 * i) x) :: u32"
  have "bit_loop (8 * i) (push_bit (8 * i) ?v) = drop_bit (8 * i) (push_bit (8 * i) ?v)"
    by (rule bit_loop_shift) (simp add: bit_simps)
  moreover have "drop_bit (8 * i) (push_bit (8 * i) ?v) = ?v"
    using assms by (intro bit_word_eqI) (auto simp: bit_simps dest: bit_imp_le_length)
  ultimately show ?thesis
    using bit_loop_add[of "8 * i" m] by (simp add: add.commute)
qed

lemma word_bytes:
  "(x :: u32) = take_bit 8 x XOR push_bit 8 (take_bit 8 (drop_bit 8 x))
     XOR push_bit 16 (take_bit 8 (drop_bit 16 x)) XOR push_bit 24 (take_bit 8 (drop_bit 24 x))"
  by (rule bit_word_eqI) (auto simp: bit_simps)

lemma bit_loop_bytes:
  "bit_loop (m + 32) x = bit_loop (m + 32) (take_bit 8 x)
     XOR bit_loop (m + 24) (take_bit 8 (drop_bit 8 x))
     XOR bit_loop (m + 16) (take_bit 8 (drop_bit 16 x))
     XOR bit_loop (m + 8) (take_bit 8 (drop_bit 24 x))"
proof -
  have "bit_loop (m + 32) x = bit_loop (m + 32) (take_bit 8 x)
     XOR bit_loop (m + 32) (push_bit 8 (take_bit 8 (drop_bit 8 x)))
     XOR bit_loop (m + 32) (push_bit 16 (take_bit 8 (drop_bit 16 x)))
     XOR bit_loop (m + 32) (push_bit 24 (take_bit 8 (drop_bit 24 x)))"
    by (subst word_bytes [of x]) (simp only: bit_loop_xor)
  then show ?thesis
    using bit_loop_byte_at[of 1 "m + 24" x] bit_loop_byte_at[of 2 "m + 16" x]
      bit_loop_byte_at[of 3 "m + 8" x] by (simp add: add.commute)
qed

lemma list_of_8:
  assumes "length xs = 8"
  shows "xs = [xs ! 0, xs ! 1, xs ! 2, xs ! 3, xs ! 4, xs ! 5, xs ! 6, xs ! 7]"
  using assms by (intro nth_equalityI) (auto simp: less_Suc_eq numeral_eq_Suc)

lemma chunk_step_ref:
  assumes "length chunk = 8"
  shows "chunk_step c chunk = crc_ref c chunk"
proof -
  let ?l = "[chunk ! 0, chunk ! 1, chunk ! 2, chunk ! 3]"
  let ?h = "[chunk ! 4, chunk ! 5, chunk ! 6, chunk ! 7]"
  let ?lo = "from_le_bytes ?l :: u32" and ?hi = "from_le_bytes ?h :: u32"
  have "chunk = ?l @ ?h" using list_of_8[OF assms] by simp
  then have "crc_ref c chunk = crc_ref (crc_ref c ?l) ?h"
    by (metis crc_ref_simps(3))
  also have "\<dots> = bit_loop 32 (bit_loop 32 (c XOR ?lo) XOR ?hi)"
    by (simp add: crc_ref_word del: from_le_bytes.simps crc_ref_simps)
  also have "\<dots> = bit_loop (32 + 32) (c XOR ?lo) XOR bit_loop (0 + 32) ?hi"
    by (simp only: bit_loop_xor bit_loop_add add_0)
  finally show ?thesis
    using bit_loop_bytes[of 32 "c XOR ?lo"] bit_loop_bytes[of 0 ?hi]
    unfolding chunk_step_def Let_def and_ff
    by (simp add: TABLES_nth low_byte_lt xor.assoc del: from_le_bytes.simps take_bit_xor)
qed

lemma process_ref: "process c data = crc_ref c data"
proof (induction c data rule: process.induct)
  case (1 c data)
  show ?case
  proof (cases "8 \<le> length data")
    case True
    have "process c data = crc_ref (crc_ref c (take 8 data)) (drop 8 data)"
      using True "1.IH" by (simp add: process.simps [of c data] chunk_step_ref)
    also have "\<dots> = crc_ref c (take 8 data @ drop 8 data)"
      by (simp only: crc_ref_simps(3))
    finally show ?thesis by simp
  next
    case False
    then show ?thesis
      by (simp add: process.simps [of c data] crc_ref_def byte_step_ref cong: foldl_cong)
  qed
qed


section \<open>What a checksum cannot miss\<close>

lemma crc_ref_inject: "crc_ref c bs = crc_ref d bs \<longleftrightarrow> c = d"
proof (induction bs arbitrary: c d)
  case Nil
  then show ?case by simp
next
  case (Cons b bs)
  have "crc_byte_ref c b = crc_byte_ref d b \<longleftrightarrow> c = d"
    by (simp add: crc_byte_ref_def bit_loop_inject)
  with Cons show ?case by simp
qed

lemma crc_ref_burst:
  assumes "length xs \<le> 4" and "length ys = length xs"
  shows "crc_ref c (pre @ xs @ post) = crc_ref c (pre @ ys @ post) \<longleftrightarrow> xs = ys"
proof -
  have "(from_le_bytes xs :: u32) = from_le_bytes ys \<longleftrightarrow> xs = ys"
    using assms by (intro from_le_bytes_inject) simp_all
  then show ?thesis
    using assms by (simp add: crc_ref_inject crc_ref_word bit_loop_inject)
qed

lemma crc32c_ref: "crc32c data = crc_ref 0xFFFFFFFF data XOR 0xFFFFFFFF"
  by (simp add: crc32c_def Crc32c_new_def Crc32c_update_def Crc32c_finalize_def process_ref)

lemma crc32c_eq_iff: "crc32c xs = crc32c ys \<longleftrightarrow> crc_ref 0xFFFFFFFF xs = crc_ref 0xFFFFFFFF ys"
  by (simp add: crc32c_ref)

lemma Crc32c_update_append:
  "Crc32c_update (Crc32c_update h xs) ys = Crc32c_update h (xs @ ys)"
  by (simp add: Crc32c_update_def process_ref)

section \<open>The serial shift register\<close>

text \<open>
  The textbook definition, independent of tables and of byte order tricks: the
  message as a sequence of bits, least significant first, shifted one by one
  through a register with feedback \<open>POLY\<close>.
\<close>

definition serial_step :: "u32 \<Rightarrow> bool \<Rightarrow> u32" where
  "serial_step c b = drop_bit 1 c XOR (if bit c 0 \<noteq> b then POLY else 0)"

definition byte_bits :: "u8 \<Rightarrow> bool list" where
  "byte_bits b = map (bit b) [0..<8]"

definition crc_serial :: "bytes \<Rightarrow> u32" where
  "crc_serial data = foldl serial_step 0xFFFFFFFF (concat (map byte_bits data)) XOR 0xFFFFFFFF"

lemma crc_bit_serial: "crc_bit (c XOR x) = serial_step c (bit x 0) XOR drop_bit 1 x"
  by (rule bit_word_eqI) (auto simp: bit_crc_bit serial_step_def bit_simps)

lemma bit_loop_serial:
  "drop_bit n x = 0 \<Longrightarrow> bit_loop n (c XOR x) = foldl serial_step c (map (bit x) [0..<n])"
proof (induction n arbitrary: c x)
  case 0
  then show ?case by simp
next
  case (Suc n)
  have "drop_bit n (drop_bit 1 x) = 0" using Suc.prems by simp
  note ih = Suc.IH[OF this, of "serial_step c (bit x 0)"]
  have "map (bit x) [0..<Suc n] = bit x 0 # map (bit (drop_bit 1 x)) [0..<n]"
    by (simp add: map_upt_Suc bit_simps del: upt_Suc)
  then show ?case using ih by (simp add: crc_bit_serial)
qed

lemma crc_byte_ref_serial: "crc_byte_ref c b = foldl serial_step c (byte_bits b)"
proof -
  have "drop_bit 8 (ucast b :: u32) = 0"
    by (rule bit_word_eqI) (auto simp: bit_simps dest: bit_imp_le_length)
  moreover have "map (bit (ucast b :: u32)) [0..<8] = byte_bits b"
    by (auto simp: byte_bits_def bit_simps)
  ultimately show ?thesis
    using bit_loop_serial[of 8 "ucast b :: u32" c] by (simp add: crc_byte_ref_def)
qed

lemma crc_ref_serial: "crc_ref c data = foldl serial_step c (concat (map byte_bits data))"
  by (induction data arbitrary: c) (simp_all add: crc_byte_ref_serial)

section \<open>Properties\<close>

text \<open>C6: crc32c, computed by slicing-by-eight over generated tables, is the bit-serial
  CRC-32C of the message, for every input.\<close>

theorem crc32c_is_serial: "crc32c data = crc_serial data"
  by (simp add: crc32c_ref crc_serial_def crc_ref_serial)

text \<open>Feeding the accumulator any sequence of chunks gives the checksum of their
  concatenation, so skipping the checksum field costs no copy.\<close>

lemma streaming_is_concat:
  "Crc32c_finalize (foldl Crc32c_update Crc32c_new chunks) = crc32c (concat chunks)"
proof -
  have "foldl Crc32c_update h chunks = Crc32c_update h (concat chunks)" for h
    by (induction chunks arbitrary: h)
      (simp_all add: Crc32c_update_append, simp add: Crc32c_update_def process_ref)
  then show ?thesis by (simp add: crc32c_def)
qed

text \<open>A burst, the replacement of up to four adjacent bytes by different ones, always
  changes the checksum.\<close>

lemma crc32c_detects_bursts:
  assumes "length xs \<le> 4" and "length ys = length xs" and "xs \<noteq> ys"
  shows "crc32c (pre @ xs @ post) \<noteq> crc32c (pre @ ys @ post)"
  using assms crc_ref_burst[of xs ys] by (simp add: crc32c_eq_iff)

lemma crc32c_check_value: "crc32c [0x31, 0x32, 0x33, 0x34, 0x35, 0x36, 0x37, 0x38, 0x39] = 0xE3069283"
proof -
  have "crc_ref 0xFFFFFFFF [0x31, 0x32, 0x33, 0x34, 0x35, 0x36, 0x37, 0x38, 0x39]
    = 0xE3069283 XOR 0xFFFFFFFF"
    by code_simp
  then show ?thesis by (simp add: crc32c_ref)
qed

end
