(* ===== verification/Errors.thy ===== *)
theory Errors
  imports Prelude
begin

text \<open>
  The crate's error type (\<^verbatim>\<open>src/error.rs\<close>): one constructor per variant of
  \<^verbatim>\<open>PageError\<close>, its fields in the order of the source.  The wrapped
  \<^verbatim>\<open>std::io::Error\<close> is reduced to what the crate looks at, its kind.  The
  \<^verbatim>\<open>Display\<close> texts are generated by the \<^verbatim>\<open>thiserror\<close> macro and are not
  modelled.
\<close>

text \<open>
  \<^verbatim>\<open>io::ErrorKind\<close>: the two kinds the source names, the kind an open of a
  missing file has, and every other one under the number the operating system
  gives it.
\<close>

datatype io_error =
    Interrupted
  | WriteZero
  | NotFound
  | OsError nat

datatype page_error =
    Io io_error
  | InvalidPageSize nat
  | BadMagic (bm_found: u32) (bm_expected: u32)
  | UnsupportedVersion (uv_found: u16) (uv_supported: u16)
  | ChecksumMismatch (cm_page_id: u64) (cm_stored: u32) (cm_computed: u32)
  | MisdirectedPage (mp_requested: u64) (mp_found: u64)
  | ShortRead (sr_page_id: u64) (sr_got: nat) (sr_page_size: nat)
  | BufferPoolExhausted nat
  | InvalidPageId u64
  | InvalidSuperblock

type_synonym 'a page_result = "page_error + 'a"

text \<open>\<^verbatim>\<open>From<io::Error> for PageError\<close>, what the \<^verbatim>\<open>?\<close> operator applies.\<close>

definition from_io :: "io_error + 'a \<Rightarrow> 'a page_result" where
  "from_io r = (case r of Inl e \<Rightarrow> Inl (Io e) | Inr x \<Rightarrow> Inr x)"

lemma from_io_simps [simp]:
  "from_io (Inl e) = Inl (Io e)"
  "from_io (Inr x) = Inr x"
  by (simp_all add: from_io_def)

lemma from_io_eq_Inr [simp]: "from_io r = Inr x \<longleftrightarrow> r = Inr x"
  by (cases r) simp_all

end
