(* ===== verification/Page.thy ===== *)
theory Page
  imports Buffer Checksum Errors
begin

text \<open>
  The page format (\<^verbatim>\<open>src/page.rs\<close>): identifiers, the validated page size, the
  32-byte little-endian header and the page with its operations: build, stamp,
  verify, serialise and load.  The byte-level functions \<open>stamp_bytes\<close> and
  \<open>verify_bytes\<close> state what \<^verbatim>\<open>stamp\<close> and \<^verbatim>\<open>verify\<close> do to the bytes of the
  buffer.  The lemmas show that verification accepts exactly the stamped blocks
  and that no change of up to four adjacent bytes gets past it.
\<close>

section \<open>Constants\<close>

definition MIN_PAGE_SIZE :: nat where "MIN_PAGE_SIZE = 4096"
definition MAX_PAGE_SIZE :: nat where "MAX_PAGE_SIZE = 2 ^ 20"
definition PAGE_HEADER_SIZE :: nat where "PAGE_HEADER_SIZE = 32"

definition MAGIC :: u32 where
  "MAGIC = from_le_bytes (map (\<lambda>c. of_nat (of_char c)) ''PGDB'')"

definition FORMAT_VERSION :: u16 where "FORMAT_VERSION = 1"

definition OFF_MAGIC :: nat where "OFF_MAGIC = 0"
definition OFF_VERSION :: nat where "OFF_VERSION = 4"
definition OFF_PAGE_ID :: nat where "OFF_PAGE_ID = 8"
definition OFF_LSN :: nat where "OFF_LSN = 16"
definition OFF_CRC :: nat where "OFF_CRC = 24"

lemmas offset_defs =
  OFF_MAGIC_def OFF_VERSION_def OFF_PAGE_ID_def OFF_LSN_def OFF_CRC_def PAGE_HEADER_SIZE_def

section \<open>Identifiers, sequence numbers and page sizes\<close>

datatype page_id = PageId (pid_get: u64)

datatype lsn = Lsn (lsn_get: u64)

datatype page_size = PageSize (ps_get: nat)

text \<open>The derived \<^verbatim>\<open>Ord\<close> instances compare the wrapped value.\<close>

instantiation page_id :: linorder
begin
definition less_eq_page_id :: "page_id \<Rightarrow> page_id \<Rightarrow> bool" where
  "less_eq_page_id a b \<longleftrightarrow> pid_get a \<le> pid_get b"
definition less_page_id :: "page_id \<Rightarrow> page_id \<Rightarrow> bool" where
  "less_page_id a b \<longleftrightarrow> pid_get a < pid_get b"
instance
  by standard (auto simp: less_eq_page_id_def less_page_id_def page_id.expand)
end

instantiation lsn :: linorder
begin
definition less_eq_lsn :: "lsn \<Rightarrow> lsn \<Rightarrow> bool" where
  "less_eq_lsn a b \<longleftrightarrow> lsn_get a \<le> lsn_get b"
definition less_lsn :: "lsn \<Rightarrow> lsn \<Rightarrow> bool" where
  "less_lsn a b \<longleftrightarrow> lsn_get a < lsn_get b"
instance
  by standard (auto simp: less_eq_lsn_def less_lsn_def lsn.expand)
end

instantiation page_size :: linorder
begin
definition less_eq_page_size :: "page_size \<Rightarrow> page_size \<Rightarrow> bool" where
  "less_eq_page_size a b \<longleftrightarrow> ps_get a \<le> ps_get b"
definition less_page_size :: "page_size \<Rightarrow> page_size \<Rightarrow> bool" where
  "less_page_size a b \<longleftrightarrow> ps_get a < ps_get b"
instance
  by standard (auto simp: less_eq_page_size_def less_page_size_def page_size.expand)
end

text \<open>
  \<^verbatim>\<open>PageId::byte_offset\<close>: an unchecked \<^verbatim>\<open>u64\<close> product.  The release profile does
  not enable overflow checks, so it wraps; a debug build panics instead.
\<close>

definition byte_offset :: "page_id \<Rightarrow> nat \<Rightarrow> u64" where
  "byte_offset pid psize = pid_get pid * of_nat psize"

definition Lsn_ZERO :: lsn where "Lsn_ZERO = Lsn 0"

definition PageSize_new :: "nat \<Rightarrow> page_size page_result" where
  "PageSize_new sz =
    (if sz < MIN_PAGE_SIZE \<or> sz > MAX_PAGE_SIZE \<or> \<not> is_power_of_two sz
     then Inl (InvalidPageSize sz) else Inr (PageSize sz))"

definition payload_len :: "page_size \<Rightarrow> nat" where
  "payload_len ps = ps_get ps - PAGE_HEADER_SIZE"

definition DEFAULT_PAGE_SIZE :: page_size where
  "DEFAULT_PAGE_SIZE = PageSize 4096"

text \<open>The invariant of \<^verbatim>\<open>PageSize\<close>: its field is private, so every value came through \<^verbatim>\<open>new\<close>.\<close>

definition page_size_wf :: "page_size \<Rightarrow> bool" where
  "page_size_wf ps \<longleftrightarrow> PageSize_new (ps_get ps) = Inr ps"

section \<open>Header fields\<close>

definition read_u16 :: "bytes \<Rightarrow> nat \<Rightarrow> u16" where
  "read_u16 bytes off = from_le_bytes [bytes ! off, bytes ! (off + 1)]"

definition read_u32 :: "bytes \<Rightarrow> nat \<Rightarrow> u32" where
  "read_u32 bytes off =
     from_le_bytes [bytes ! off, bytes ! (off + 1), bytes ! (off + 2), bytes ! (off + 3)]"

definition read_u64 :: "bytes \<Rightarrow> nat \<Rightarrow> u64" where
  "read_u64 bytes off =
     from_le_bytes [bytes ! off, bytes ! (off + 1), bytes ! (off + 2), bytes ! (off + 3),
       bytes ! (off + 4), bytes ! (off + 5), bytes ! (off + 6), bytes ! (off + 7)]"

definition write_u16 :: "nat \<Rightarrow> u16 \<Rightarrow> bytes \<Rightarrow> bytes" where
  "write_u16 off value bytes = splice off (to_le_bytes value) bytes"

definition write_u32 :: "nat \<Rightarrow> u32 \<Rightarrow> bytes \<Rightarrow> bytes" where
  "write_u32 off value bytes = splice off (to_le_bytes value) bytes"

definition write_u64 :: "nat \<Rightarrow> u64 \<Rightarrow> bytes \<Rightarrow> bytes" where
  "write_u64 off value bytes = splice off (to_le_bytes value) bytes"

definition compute_checksum :: "bytes \<Rightarrow> u32" where
  "compute_checksum bytes =
    (let crc = Crc32c_new;
         crc = Crc32c_update crc (take OFF_CRC bytes);
         crc = Crc32c_update crc (drop (OFF_CRC + 4) bytes)
     in Crc32c_finalize crc)"

section \<open>Pages\<close>

record page =
  page_buf :: aligned_buffer
  page_sz :: nat

definition as_bytes :: "page \<Rightarrow> bytes" where
  "as_bytes p = as_slice (page_buf p)"

definition as_bytes_mut :: "(bytes \<Rightarrow> bytes) \<Rightarrow> page \<Rightarrow> page" where
  "as_bytes_mut f p = p\<lparr>page_buf := as_mut_slice f (page_buf p)\<rparr>"

definition Page_new :: "page_size \<Rightarrow> page" where
  "Page_new ps =
    (let sz = ps_get ps;
         buf = the (new_zeroed sz sz);
         buf = as_mut_slice (write_u16 OFF_VERSION FORMAT_VERSION \<circ> write_u32 OFF_MAGIC MAGIC) buf
     in \<lparr>page_buf = buf, page_sz = sz\<rparr>)"

definition Page_page_size :: "page \<Rightarrow> nat" where
  "Page_page_size p = page_sz p"

definition Page_id :: "page \<Rightarrow> page_id" where
  "Page_id p = PageId (read_u64 (as_bytes p) OFF_PAGE_ID)"

definition Page_lsn :: "page \<Rightarrow> lsn" where
  "Page_lsn p = Lsn (read_u64 (as_bytes p) OFF_LSN)"

definition set_lsn :: "lsn \<Rightarrow> page \<Rightarrow> page" where
  "set_lsn l p = as_bytes_mut (write_u64 OFF_LSN (lsn_get l)) p"

definition payload :: "page \<Rightarrow> bytes" where
  "payload p = drop PAGE_HEADER_SIZE (as_bytes p)"

text \<open>\<^verbatim>\<open>payload_mut\<close>: the caller's change of the payload slice, whose length is fixed.\<close>

definition payload_mut :: "(bytes \<Rightarrow> bytes) \<Rightarrow> page \<Rightarrow> page" where
  "payload_mut f p =
     as_bytes_mut (\<lambda>bytes. splice PAGE_HEADER_SIZE (f (drop PAGE_HEADER_SIZE bytes)) bytes) p"

definition to_checksummed_bytes :: "page \<Rightarrow> bytes" where
  "to_checksummed_bytes p =
    (let out = as_bytes p; crc = compute_checksum out in write_u32 OFF_CRC crc out)"

definition reset :: "page \<Rightarrow> page" where
  "reset p = as_bytes_mut (\<lambda>bytes. write_u16 OFF_VERSION FORMAT_VERSION
     (write_u32 OFF_MAGIC MAGIC (map (\<lambda>_. 0) bytes))) p"

definition stamp :: "page_id \<Rightarrow> page \<Rightarrow> page" where
  "stamp pid p =
    (let p1 = as_bytes_mut (\<lambda>bytes. write_u64 OFF_PAGE_ID (pid_get pid)
                (write_u16 OFF_VERSION FORMAT_VERSION (write_u32 OFF_MAGIC MAGIC bytes))) p;
         crc = compute_checksum (as_bytes p1)
     in as_bytes_mut (write_u32 OFF_CRC crc) p1)"

definition verify :: "page \<Rightarrow> page_id option \<Rightarrow> unit page_result" where
  "verify p expected =
    (let bytes = as_bytes p;
         magic = read_u32 bytes OFF_MAGIC;
         version = read_u16 bytes OFF_VERSION;
         stored = read_u32 bytes OFF_CRC;
         computed = compute_checksum bytes
     in if magic \<noteq> MAGIC then Inl (BadMagic magic MAGIC)
        else if version \<noteq> FORMAT_VERSION then Inl (UnsupportedVersion version FORMAT_VERSION)
        else if stored \<noteq> computed
          then Inl (ChecksumMismatch (read_u64 bytes OFF_PAGE_ID) stored computed)
        else case expected of
            None \<Rightarrow> Inr ()
          | Some e \<Rightarrow>
              (let found = read_u64 bytes OFF_PAGE_ID
               in if found \<noteq> pid_get e then Inl (MisdirectedPage (pid_get e) found) else Inr ()))"

definition Page_from_bytes :: "page_size \<Rightarrow> bytes \<Rightarrow> page page_result" where
  "Page_from_bytes ps bytes =
    (let sz = ps_get ps
     in if length bytes \<noteq> sz then Inl (ShortRead 0 (length bytes) sz)
        else let buf = as_mut_slice (splice 0 bytes) (the (new_zeroed sz sz));
                 p = \<lparr>page_buf = buf, page_sz = sz\<rparr>
             in case verify p None of Inl e \<Rightarrow> Inl e | Inr _ \<Rightarrow> Inr p)"

definition Page_clone :: "page \<Rightarrow> page" where
  "Page_clone p = \<lparr>page_buf = the (buffer_clone (page_buf p)), page_sz = page_sz p\<rparr>"

text \<open>
  The invariant of \<^verbatim>\<open>Page\<close>: the buffer has exactly the page size, which is a
  valid one, and is aligned to it.
\<close>

definition page_wf :: "nat \<Rightarrow> page \<Rightarrow> bool" where
  "page_wf n p \<longleftrightarrow> page_size_wf (PageSize n) \<and> page_sz p = n \<and> buffer_wf (page_buf p)
     \<and> buf_layout (page_buf p) = \<lparr>lay_size = n, lay_align = n\<rparr>"


section \<open>Reading and writing header fields\<close>

lemma read_slice:
  "off + 2 \<le> length bs \<Longrightarrow> read_u16 bs off = from_le_bytes (slice off 2 bs)"
  "off + 4 \<le> length bs \<Longrightarrow> read_u32 bs off = from_le_bytes (slice off 4 bs)"
  "off + 8 \<le> length bs \<Longrightarrow> read_u64 bs off = from_le_bytes (slice off 8 bs)"
  by (simp_all add: read_u16_def read_u32_def read_u64_def slice_map_nth upt_rec
      eval_nat_numeral del: from_le_bytes.simps)

lemma length_write [header_simps]:
  "off + 2 \<le> length bs \<Longrightarrow> length (write_u16 off v bs) = length bs"
  "off + 4 \<le> length bs \<Longrightarrow> length (write_u32 off w bs) = length bs"
  "off + 8 \<le> length bs \<Longrightarrow> length (write_u64 off x bs) = length bs"
  by (simp_all add: write_u16_def write_u32_def write_u64_def length_splice)

lemma read_write_same [header_simps]:
  "off + 2 \<le> length bs \<Longrightarrow> read_u16 (write_u16 off v bs) off = v"
  "off + 4 \<le> length bs \<Longrightarrow> read_u32 (write_u32 off w bs) off = w"
  "off + 8 \<le> length bs \<Longrightarrow> read_u64 (write_u64 off x bs) off = x"
  by (simp_all add: read_slice header_simps)
    (simp_all add: write_u16_def write_u32_def write_u64_def slice_simps from_to_le_bytes)

lemma slice_write [header_simps]:
  "off + 2 \<le> length bs \<Longrightarrow> a + n \<le> length bs \<Longrightarrow> a + n \<le> off \<or> off + 2 \<le> a
    \<Longrightarrow> slice a n (write_u16 off v bs) = slice a n bs"
  "off + 4 \<le> length bs \<Longrightarrow> a + n \<le> length bs \<Longrightarrow> a + n \<le> off \<or> off + 4 \<le> a
    \<Longrightarrow> slice a n (write_u32 off w bs) = slice a n bs"
  "off + 8 \<le> length bs \<Longrightarrow> a + n \<le> length bs \<Longrightarrow> a + n \<le> off \<or> off + 8 \<le> a
    \<Longrightarrow> slice a n (write_u64 off x bs) = slice a n bs"
  by (simp_all add: write_u16_def write_u32_def write_u64_def slice_simps)

lemma write_back [header_simps]:
  "off + 2 \<le> length bs \<Longrightarrow> read_u16 bs off = v \<Longrightarrow> write_u16 off v bs = bs"
  "off + 4 \<le> length bs \<Longrightarrow> read_u32 bs off = w \<Longrightarrow> write_u32 off w bs = bs"
  "off + 8 \<le> length bs \<Longrightarrow> read_u64 bs off = x \<Longrightarrow> write_u64 off x bs = bs"
  by (auto simp: read_slice write_u16_def write_u32_def write_u64_def to_from_le_bytes
      slice_simps)

lemma write_u32_twice [header_simps]:
  "off + 4 \<le> length bs \<Longrightarrow> write_u32 off w (write_u32 off v bs) = write_u32 off w bs"
  by (simp add: write_u32_def slice_simps)

lemma drop_write [header_simps]:
  "off + 2 \<le> n \<Longrightarrow> n \<le> length bs \<Longrightarrow> drop n (write_u16 off v bs) = drop n bs"
  "off + 4 \<le> n \<Longrightarrow> n \<le> length bs \<Longrightarrow> drop n (write_u32 off w bs) = drop n bs"
  "off + 8 \<le> n \<Longrightarrow> n \<le> length bs \<Longrightarrow> drop n (write_u64 off x bs) = drop n bs"
  by (simp_all add: write_u16_def write_u32_def write_u64_def slice_simps)

lemma take_write [header_simps]:
  "n \<le> off \<Longrightarrow> off + 4 \<le> length bs \<Longrightarrow> take n (write_u32 off w bs) = take n bs"
  by (simp add: write_u32_def slice_simps)

section \<open>Checksums of pages\<close>

lemma compute_checksum_eq: "compute_checksum bs = crc32c (take 24 bs @ drop 28 bs)"
  by (simp add: compute_checksum_def crc32c_def Crc32c_update_append offset_defs Let_def)

lemma compute_checksum_write_crc [header_simps]:
  "28 \<le> length bs \<Longrightarrow> compute_checksum (write_u32 24 w bs) = compute_checksum bs"
  by (simp add: compute_checksum_eq header_simps)

text \<open>The bytes of a page after \<^verbatim>\<open>stamp\<close>, and what \<^verbatim>\<open>verify\<close> asks of them.\<close>

definition stamp_bytes :: "u64 \<Rightarrow> bytes \<Rightarrow> bytes" where
  "stamp_bytes pid bs =
    (let b = write_u64 8 pid (write_u16 4 FORMAT_VERSION (write_u32 0 MAGIC bs))
     in write_u32 24 (compute_checksum b) b)"

definition sealed :: "bytes \<Rightarrow> bool" where
  "sealed bs \<longleftrightarrow> read_u32 bs 0 = MAGIC \<and> read_u16 bs 4 = FORMAT_VERSION
     \<and> read_u32 bs 24 = compute_checksum bs"

lemma as_bytes_as_bytes_mut [page_simps]: "as_bytes (as_bytes_mut f p) = f (as_bytes p)"
  by (simp add: as_bytes_def as_bytes_mut_def)

lemma as_bytes_stamp [page_simps]: "as_bytes (stamp pid p) = stamp_bytes (pid_get pid) (as_bytes p)"
  by (simp add: stamp_def stamp_bytes_def as_bytes_as_bytes_mut Let_def offset_defs)

lemma length_stamp_bytes [header_simps]: "32 \<le> length bs \<Longrightarrow> length (stamp_bytes i bs) = length bs"
  by (simp add: stamp_bytes_def Let_def header_simps)

lemma stamp_bytes_fields [header_simps]:
  assumes "32 \<le> length bs"
  shows "sealed (stamp_bytes i bs)" and "read_u64 (stamp_bytes i bs) 8 = i"
    and "read_u64 (stamp_bytes i bs) 16 = read_u64 bs 16"
    and "drop 32 (stamp_bytes i bs) = drop 32 bs"
proof -
  show "read_u64 (stamp_bytes i bs) 8 = i"
    using assms read_write_same(3)[of 8 "write_u16 4 FORMAT_VERSION (write_u32 0 MAGIC bs)" i]
    by (simp add: stamp_bytes_def Let_def read_slice header_simps)
  show "read_u64 (stamp_bytes i bs) 16 = read_u64 bs 16"
    and "drop 32 (stamp_bytes i bs) = drop 32 bs"
    using assms by (simp_all add: stamp_bytes_def Let_def read_slice header_simps)
  have "read_u32 (stamp_bytes i bs) 0 = MAGIC"
    using assms read_write_same(2)[of 0 bs MAGIC]
    by (simp add: stamp_bytes_def Let_def read_slice header_simps)
  moreover have "read_u16 (stamp_bytes i bs) 4 = FORMAT_VERSION"
    using assms read_write_same(1)[of 4 "write_u32 0 MAGIC bs" FORMAT_VERSION]
    by (simp add: stamp_bytes_def Let_def read_slice header_simps)
  moreover have "read_u32 (stamp_bytes i bs) 24 = compute_checksum (stamp_bytes i bs)"
    using assms by (simp add: stamp_bytes_def Let_def header_simps)
  ultimately show "sealed (stamp_bytes i bs)" by (simp add: sealed_def)
qed

lemma stamp_bytes_fix_iff:
  assumes "32 \<le> length bs"
  shows "stamp_bytes i bs = bs \<longleftrightarrow> sealed bs \<and> read_u64 bs 8 = i"
proof
  assume "stamp_bytes i bs = bs"
  with stamp_bytes_fields(1,2)[OF assms, of i] show "sealed bs \<and> read_u64 bs 8 = i" by simp
next
  assume "sealed bs \<and> read_u64 bs 8 = i"
  then show "stamp_bytes i bs = bs"
    using assms by (simp add: sealed_def stamp_bytes_def Let_def header_simps)
qed

lemma stamp_bytes_idem [header_simps]:
  "32 \<le> length bs \<Longrightarrow> stamp_bytes i (stamp_bytes i bs) = stamp_bytes i bs"
  by (simp add: stamp_bytes_fix_iff header_simps)

section \<open>Verification\<close>

lemma verify_ok_iff:
  "verify p e = Inr () \<longleftrightarrow>
     sealed (as_bytes p) \<and> (case e of None \<Rightarrow> True | Some x \<Rightarrow> read_u64 (as_bytes p) 8 = pid_get x)"
  by (auto simp: verify_def sealed_def Let_def offset_defs split: option.splits)

lemma verify_Some_iff:
  assumes "32 \<le> length (as_bytes p)"
  shows "verify p (Some x) = Inr () \<longleftrightarrow> as_bytes p = stamp_bytes (pid_get x) (as_bytes p)"
  using stamp_bytes_fix_iff[OF assms, of "pid_get x"] by (auto simp: verify_ok_iff)

lemma not_sealed_verify: "\<not> sealed (as_bytes p) \<Longrightarrow> \<exists>err. verify p e = Inl err"
  by (metis (full_types) verify_ok_iff old.sum.exhaust old.unit.exhaust)


section \<open>Corruption\<close>

lemma crc32c_splice:
  assumes "off + length ys \<le> length ds" and "length ys \<le> 4"
  shows "crc32c (splice off ys ds) = crc32c ds \<longleftrightarrow> ys = slice off (length ys) ds"
proof -
  let ?old = "slice off (length ys) ds"
  have len: "length ?old = length ys" using assms(1) by (simp add: length_slice)
  have "ds = splice off ?old ds" using assms(1) by (simp add: splice_id)
  then have ds: "ds = take off ds @ ?old @ drop (off + length ys) ds"
    by (simp only: splice_def len)
  have "crc32c (splice off ys ds) = crc32c ds \<longleftrightarrow>
     crc32c (take off ds @ ys @ drop (off + length ys) ds)
     = crc32c (take off ds @ ?old @ drop (off + length ys) ds)"
    by (simp only: splice_def ds[symmetric])
  then show ?thesis using crc_ref_burst[of ys ?old] assms(2) len by (simp only: crc32c_eq_iff)
qed

text \<open>The bytes the checksum covers, as one list, and where a byte of the page sits in it.\<close>

definition covered :: "bytes \<Rightarrow> bytes" where
  "covered bs = take 24 bs @ drop 28 bs"

lemma length_covered: "32 \<le> length bs \<Longrightarrow> length (covered bs) = length bs - 4"
  by (simp add: covered_def)

lemma nth_covered:
  "32 \<le> length bs \<Longrightarrow> j < length bs - 4 \<Longrightarrow> covered bs ! j = (if j < 24 then bs ! j else bs ! (j + 4))"
  by (auto simp: covered_def nth_append add.commute)

lemma covered_splice:
  assumes "off + length ys \<le> length bs" and "32 \<le> length bs"
  shows "off + length ys \<le> 24 \<Longrightarrow> covered (splice off ys bs) = splice off ys (covered bs)"
    and "28 \<le> off \<Longrightarrow> covered (splice off ys bs) = splice (off - 4) ys (covered bs)"
    and "24 \<le> off \<Longrightarrow> off + length ys \<le> 28 \<Longrightarrow> covered (splice off ys bs) = covered bs"
proof -
  note eqI = nth_equalityI[of "covered (splice off ys bs)"]
  note facts = length_covered length_splice nth_covered nth_splice
  show "covered (splice off ys bs) = splice off ys (covered bs)" if "off + length ys \<le> 24"
    using assms that by (intro eqI) (auto simp: facts)
  show "covered (splice off ys bs) = splice (off - 4) ys (covered bs)" if "28 \<le> off"
    using assms that by (intro eqI) (auto simp: facts intro: arg_cong[of _ _ "nth ys"])
  show "covered (splice off ys bs) = covered bs" if "24 \<le> off" "off + length ys \<le> 28"
    using assms that by (intro eqI) (auto simp: facts)
qed

lemma slice_covered:
  assumes "off + n \<le> length bs" and "32 \<le> length bs"
  shows "off + n \<le> 24 \<Longrightarrow> slice off n (covered bs) = slice off n bs"
    and "28 \<le> off \<Longrightarrow> slice (off - 4) n (covered bs) = slice off n bs"
  using assms by (auto simp: slice_map_nth length_covered nth_covered)

lemma burst_not_sealed:
  assumes "sealed bs" and "32 \<le> length bs" and "off + length ys \<le> length bs"
    and "length ys \<le> 4" and "ys \<noteq> slice off (length ys) bs"
    and region: "off + length ys \<le> 24 \<or> 28 \<le> off \<or> 24 \<le> off \<and> off + length ys \<le> 28"
  shows "read_u32 (splice off ys bs) 24 \<noteq> compute_checksum (splice off ys bs)"
proof -
  note sum = compute_checksum_eq[folded covered_def]
  consider "off + length ys \<le> 24 \<or> 28 \<le> off" | "24 \<le> off" "off + length ys \<le> 28"
    using region by blast
  then show ?thesis
  proof cases
    case 1
    then have "read_u32 (splice off ys bs) 24 = read_u32 bs 24"
      using assms(2,3) by (auto simp: read_slice slice_simps)
    moreover have "compute_checksum (splice off ys bs) \<noteq> compute_checksum bs"
      using 1 assms(2-5)
      by (auto simp: sum covered_splice crc32c_splice slice_covered length_covered)
    ultimately show ?thesis using assms(1) by (simp add: sealed_def)
  next
    case 2
    have "slice 24 4 (splice off ys bs) \<noteq> slice 24 4 bs"
    proof
      assume eq: "slice 24 4 (splice off ys bs) = slice 24 4 bs"
      have "ys = slice off (length ys) bs"
      proof (rule nth_equalityI)
        show "length ys = length (slice off (length ys) bs)"
          using assms(3) by (simp add: length_slice)
        fix i assume i: "i < length ys"
        have "splice off ys bs ! (off + i) = bs ! (off + i)"
          using eq 2 i assms(2,3) by (subst (asm) slice_eq_iff) (auto simp: length_splice)
        then show "ys ! i = slice off (length ys) bs ! i"
          using i assms(3) by (simp add: nth_splice slice_map_nth)
      qed
      with assms(5) show False ..
    qed
    then have "read_u32 (splice off ys bs) 24 \<noteq> read_u32 bs 24"
      using assms(2,3) by (simp add: read_slice slice_simps from_le_bytes_inject)
    moreover have "compute_checksum (splice off ys bs) = compute_checksum bs"
      using 2 assms(2,3) by (simp add: sum covered_splice)
    ultimately show ?thesis using assms(1) by (simp add: sealed_def)
  qed
qed

lemma update_splice: "i < length bs \<Longrightarrow> bs[i := b] = splice i [b] bs"
  by (simp add: splice_def upd_conv_take_nth_drop)

lemma byte_not_sealed:
  assumes "sealed bs" and "32 \<le> length bs" and "i < length bs" and "b \<noteq> bs ! i"
  shows "read_u32 (bs[i := b]) 24 \<noteq> compute_checksum (bs[i := b])"
  unfolding update_splice[OF assms(3)]
  using assms by (intro burst_not_sealed) (auto simp: slice_map_nth)


section \<open>The type invariants\<close>

lemma PageSize_new_iff:
  "PageSize_new sz = Inr ps \<longleftrightarrow> ps = PageSize sz \<and> (\<exists>k. 12 \<le> k \<and> k \<le> 20 \<and> sz = 2 ^ k)"
proof -
  have "MIN_PAGE_SIZE \<le> (2::nat) ^ k \<and> (2::nat) ^ k \<le> MAX_PAGE_SIZE \<longleftrightarrow> 12 \<le> k \<and> k \<le> 20" for k
    using power_increasing_iff[of "2::nat" 12 k] power_increasing_iff[of "2::nat" k 20] by (simp add: MIN_PAGE_SIZE_def MAX_PAGE_SIZE_def)
  then have "\<not> sz < MIN_PAGE_SIZE \<and> \<not> sz > MAX_PAGE_SIZE \<and> is_power_of_two sz
      \<longleftrightarrow> (\<exists>k. 12 \<le> k \<and> k \<le> 20 \<and> sz = 2 ^ k)"
    by (metis is_power_of_two_iff not_less)
  then show ?thesis
    by (auto simp: PageSize_new_def)
qed

lemma page_size_wf_iff: "page_size_wf ps \<longleftrightarrow> (\<exists>k. 12 \<le> k \<and> k \<le> 20 \<and> ps_get ps = 2 ^ k)"
  by (simp add: page_size_wf_def PageSize_new_iff)

lemma page_size_wf_bounds:
  assumes "page_size_wf ps"
  shows "4096 \<le> ps_get ps" and "ps_get ps \<le> 2 ^ 20" and "is_power_of_two (ps_get ps)"
  using assms
  by (auto simp: page_size_wf_def PageSize_new_def MIN_PAGE_SIZE_def MAX_PAGE_SIZE_def split: if_splits)

lemma new_zeroed_page_size:
  assumes "page_size_wf ps"
  shows "new_zeroed (ps_get ps) (ps_get ps) =
    Some \<lparr>buf_data = replicate (ps_get ps) 0,
          buf_layout = \<lparr>lay_size = ps_get ps, lay_align = ps_get ps\<rparr>\<rparr>"
proof -
  have "ps_get ps + (ps_get ps - 1) \<le> isize_max"
    using page_size_wf_bounds(2)[OF assms] by (simp add: isize_max_def)
  then show ?thesis
    using page_size_wf_bounds(3)[OF assms]
    by (simp add: new_zeroed_def layout_from_size_align_def)
qed

lemma page_wf_length [page_simps]: "page_wf n p \<Longrightarrow> length (as_bytes p) = n"
  by (auto simp: page_wf_def buffer_wf_def as_bytes_def as_slice_def)

lemma page_wf_bounds: "page_wf n p \<Longrightarrow> 4096 \<le> n" "page_wf n p \<Longrightarrow> n \<le> 2 ^ 20"
  using page_size_wf_bounds[of "PageSize n"] by (auto simp: page_wf_def)

lemma page_wf_size [page_simps]: "page_wf n p \<Longrightarrow> page_sz p = n"
  by (simp add: page_wf_def)

lemma page_wf_ge_32 [page_simps]: "page_wf n p \<Longrightarrow> 32 \<le> length (as_bytes p)"
  using page_wf_bounds(1)[of n p] by (simp add: page_wf_length)

lemma page_wf_as_bytes_mut [page_simps]:
  "page_wf n p \<Longrightarrow> length (f (as_bytes p)) = length (as_bytes p) \<Longrightarrow> page_wf n (as_bytes_mut f p)"
  by (auto simp: page_wf_def as_bytes_mut_def as_bytes_def intro: as_mut_slice_wf)

lemma page_wf_unique: "page_wf n p \<Longrightarrow> page_wf n q \<Longrightarrow> as_bytes p = as_bytes q \<Longrightarrow> p = q"
  by (auto simp: page_wf_def as_bytes_def intro!: page.equality aligned_buffer_eqI)

text \<open>A blank page of \<open>n\<close> bytes: what \<^verbatim>\<open>Page::new\<close> and \<^verbatim>\<open>reset\<close> leave in the buffer.\<close>

definition blank_bytes :: "nat \<Rightarrow> bytes" where
  "blank_bytes n = write_u16 4 FORMAT_VERSION (write_u32 0 MAGIC (replicate n 0))"

lemma Page_new_wf [page_simps]: "page_size_wf ps \<Longrightarrow> page_wf (ps_get ps) (Page_new ps)"
  and as_bytes_Page_new [page_simps]: "page_size_wf ps \<Longrightarrow> as_bytes (Page_new ps) = blank_bytes (ps_get ps)"
proof -
  assume wf: "page_size_wf ps"
  note bounds = page_size_wf_bounds[OF wf]
  show "as_bytes (Page_new ps) = blank_bytes (ps_get ps)"
    using wf by (simp add: Page_new_def Let_def as_bytes_def new_zeroed_page_size blank_bytes_def
        as_slice_def as_mut_slice_def offset_defs)
  show "page_wf (ps_get ps) (Page_new ps)"
    using wf bounds new_zeroed_wf[OF new_zeroed_page_size[OF wf]]
    by (auto simp: Page_new_def Let_def page_wf_def new_zeroed_page_size offset_defs
        header_simps as_slice_def intro!: as_mut_slice_wf)
qed

lemma length_blank_bytes [header_simps]: "32 \<le> n \<Longrightarrow> length (blank_bytes n) = n"
  by (simp add: blank_bytes_def header_simps)

lemma as_bytes_reset [page_simps]: "as_bytes (reset p) = blank_bytes (length (as_bytes p))"
  by (simp add: reset_def as_bytes_as_bytes_mut blank_bytes_def offset_defs map_replicate_const)

lemma reset_wf [page_simps]: "page_wf n p \<Longrightarrow> page_wf n (reset p)"
  using page_wf_ge_32[of n p]
  by (auto simp: reset_def header_simps offset_defs intro!: page_wf_as_bytes_mut)

lemma stamp_wf [page_simps]: "page_wf n p \<Longrightarrow> page_wf n (stamp pid p)"
  using page_wf_ge_32[of n p]
  by (auto simp: stamp_def Let_def header_simps offset_defs as_bytes_as_bytes_mut
      intro!: page_wf_as_bytes_mut)

lemma set_lsn_wf [page_simps]: "page_wf n p \<Longrightarrow> page_wf n (set_lsn l p)"
  using page_wf_ge_32[of n p]
  by (auto simp: set_lsn_def header_simps offset_defs intro!: page_wf_as_bytes_mut)

lemma payload_mut_wf [page_simps]:
  "page_wf n p \<Longrightarrow> length (f (payload p)) = length (payload p) \<Longrightarrow> page_wf n (payload_mut f p)"
  using page_wf_ge_32[of n p]
  by (auto simp: payload_mut_def payload_def offset_defs length_splice intro!: page_wf_as_bytes_mut)

lemma payload_payload_mut [page_simps]:
  "page_wf n p \<Longrightarrow> length (f (payload p)) = length (payload p) \<Longrightarrow>
   payload (payload_mut f p) = f (payload p)"
  using page_wf_ge_32[of n p]
  by (simp add: payload_mut_def payload_def offset_defs as_bytes_as_bytes_mut splice_def)

lemma stamp_idem [page_simps]: "page_wf n p \<Longrightarrow> stamp pid (stamp pid p) = stamp pid p"
  using page_wf_bounds(1)[of n p]
  by (intro page_wf_unique[of n]) (simp_all add: page_simps header_simps)

lemma verify_Some_stamp_iff [page_simps]:
  "page_wf n p \<Longrightarrow> verify p (Some pid) = Inr () \<longleftrightarrow> stamp pid p = p"
  using verify_Some_iff[of p pid] page_wf_unique[of n "stamp pid p" p] page_wf_bounds(1)[of n p]
  by (metis as_bytes_stamp page_wf_ge_32 stamp_wf)

lemma verify_stamp [page_simps]: "page_wf n p \<Longrightarrow> verify (stamp pid p) (Some pid) = Inr ()"
  using verify_Some_stamp_iff[of n "stamp pid p" pid] by (simp add: page_simps)

lemma stamp_fields [page_simps]:
  assumes "page_wf n p"
  shows "Page_id (stamp pid p) = pid" "Page_lsn (stamp pid p) = Page_lsn p"
    "payload (stamp pid p) = payload p"
  using page_wf_ge_32[OF assms]
  by (simp_all add: Page_id_def Page_lsn_def payload_def page_simps header_simps offset_defs)


section \<open>Serialising and loading\<close>

lemma verify_None_iff: "verify p None = Inr () \<longleftrightarrow> sealed (as_bytes p)"
  by (simp add: verify_ok_iff)

lemma as_bytes_from_bytes:
  assumes "page_size_wf ps" and "length bytes = ps_get ps"
  defines "p \<equiv> \<lparr>page_buf = as_mut_slice (splice 0 bytes) (the (new_zeroed (ps_get ps) (ps_get ps))),
    page_sz = ps_get ps\<rparr>"
  shows "as_bytes p = bytes" and "page_wf (ps_get ps) p"
proof -
  note z = new_zeroed_page_size[OF assms(1)]
  show "as_bytes p = bytes"
    using assms by (simp add: as_bytes_def z splice_all as_slice_def as_mut_slice_def)
  show "page_wf (ps_get ps) p"
    using assms new_zeroed_wf[OF z] z
    by (auto simp: page_wf_def as_slice_def splice_all intro!: as_mut_slice_wf)
qed

lemma Page_from_bytes_ok_iff:
  assumes "page_size_wf ps"
  shows "Page_from_bytes ps bytes = Inr p \<longleftrightarrow>
    page_wf (ps_get ps) p \<and> as_bytes p = bytes \<and> sealed bytes"
proof (cases "length bytes = ps_get ps")
  case True
  let ?q = "\<lparr>page_buf = as_mut_slice (splice 0 bytes) (the (new_zeroed (ps_get ps) (ps_get ps))),
    page_sz = ps_get ps\<rparr>"
  note q = as_bytes_from_bytes[OF assms True]
  have "Page_from_bytes ps bytes = (case verify ?q None of Inl e \<Rightarrow> Inl e | Inr _ \<Rightarrow> Inr ?q)"
    using True by (simp add: Page_from_bytes_def Let_def)
  then have "Page_from_bytes ps bytes = Inr p \<longleftrightarrow> sealed bytes \<and> p = ?q"
    using verify_None_iff[of ?q] q(1) by (auto split: sum.splits)
  then show ?thesis
    using q page_wf_unique[of "ps_get ps" p ?q] by auto
next
  case False
  then show ?thesis
    by (auto simp: Page_from_bytes_def page_wf_length)
qed

definition header_valid :: "bytes \<Rightarrow> bool" where
  "header_valid bs \<longleftrightarrow> read_u32 bs 0 = MAGIC \<and> read_u16 bs 4 = FORMAT_VERSION"

lemma sealed_header_valid: "sealed bs \<Longrightarrow> header_valid bs"
  by (simp add: sealed_def header_valid_def)

lemma to_checksummed_bytes_eq:
  "to_checksummed_bytes p = write_u32 24 (compute_checksum (as_bytes p)) (as_bytes p)"
  by (simp add: to_checksummed_bytes_def offset_defs Let_def)

lemma to_checksummed_bytes_fields:
  assumes "page_wf n p"
  shows "header_valid (as_bytes p) \<Longrightarrow> sealed (to_checksummed_bytes p)"
    and "length (to_checksummed_bytes p) = n"
    and "read_u64 (to_checksummed_bytes p) 8 = read_u64 (as_bytes p) 8"
    and "read_u64 (to_checksummed_bytes p) 16 = read_u64 (as_bytes p) 16"
    and "drop 32 (to_checksummed_bytes p) = drop 32 (as_bytes p)"
  using page_wf_bounds(1)[OF assms] page_wf_length[OF assms]
    read_write_same(2)[of 24 "as_bytes p" "compute_checksum (as_bytes p)"]
  by (simp_all add: to_checksummed_bytes_eq header_simps sealed_def header_valid_def read_slice)

lemma to_checksummed_bytes_sealed: "sealed (as_bytes p) \<Longrightarrow> 32 \<le> length (as_bytes p) \<Longrightarrow>
   to_checksummed_bytes p = as_bytes p"
  by (simp add: to_checksummed_bytes_eq sealed_def write_back)

lemma blank_header_valid [header_simps]: "32 \<le> n \<Longrightarrow> header_valid (blank_bytes n)"
  using read_write_same(1)[of 4 "write_u32 0 MAGIC (replicate n 0)" FORMAT_VERSION]
    read_write_same(2)[of 0 "replicate n 0" MAGIC]
  by (simp add: header_valid_def blank_bytes_def read_slice header_simps)

text \<open>What \<^verbatim>\<open>verify\<close> answers when one byte of an accepted page has changed.\<close>

lemma verify_byte_changed:
  assumes "page_wf n p" and "verify p e = Inr ()" and "i < n" and "b \<noteq> as_bytes p ! i"
  defines "bs \<equiv> (as_bytes p)[i := b]"
  shows "verify (as_bytes_mut (\<lambda>bytes. bytes[i := b]) p) e' = Inl
    (if i < 4 then BadMagic (read_u32 bs 0) MAGIC
     else if i < 6 then UnsupportedVersion (read_u16 bs 4) FORMAT_VERSION
     else ChecksumMismatch (read_u64 bs 8) (read_u32 bs 24) (compute_checksum bs))"
proof -
  let ?old = "as_bytes p"
  have len: "length ?old = n" "32 \<le> n"
    using page_wf_length[OF assms(1)] page_wf_bounds(1)[OF assms(1)] by simp_all
  have old: "sealed ?old" using assms(2) by (simp add: verify_ok_iff)
  have crc: "read_u32 bs 24 \<noteq> compute_checksum bs"
    using byte_not_sealed[OF old] len assms(3,4) by (simp add: bs_def)
  have magic: "read_u32 bs 0 = MAGIC" if "4 \<le> i"
    using that old len by (simp add: bs_def sealed_def read_slice slice_update_disjoint)
  have version: "read_u16 bs 4 = FORMAT_VERSION" if "6 \<le> i"
    using that old len by (simp add: bs_def sealed_def read_slice slice_update_disjoint)
  have changed: "slice a k bs \<noteq> slice a k ?old" if "a \<le> i" "i < a + k" "a + k \<le> n" for a k
    using that len assms(3,4) by (subst slice_eq_iff) (auto simp: bs_def intro!: exI[of _ i])
  have lenb: "length bs = n" using len by (simp add: bs_def)
  have "read_u32 bs 0 \<noteq> MAGIC" if "i < 4"
  proof -
    have "read_u32 bs 0 \<noteq> read_u32 ?old 0"
      using changed[of 0 4] that len lenb by (simp add: read_slice from_le_bytes_inject length_slice)
    then show ?thesis using old by (simp add: sealed_def)
  qed
  moreover have "read_u16 bs 4 \<noteq> FORMAT_VERSION" if "4 \<le> i" "i < 6"
  proof -
    have "read_u16 bs 4 \<noteq> read_u16 ?old 4"
      using changed[of 4 2] that len lenb by (simp add: read_slice from_le_bytes_inject length_slice)
    then show ?thesis using old by (simp add: sealed_def)
  qed
  ultimately show ?thesis
    using magic version crc
    by (auto simp: verify_def Let_def as_bytes_as_bytes_mut offset_defs bs_def[symmetric])
qed

section \<open>Slot offsets\<close>

text \<open>The ids whose whole slot lies below offset \<open>2 ^ 64\<close>, where \<^verbatim>\<open>byte_offset\<close> is exact.\<close>

definition addressable :: "nat \<Rightarrow> page_id \<Rightarrow> bool" where
  "addressable n pid \<longleftrightarrow> (unat (pid_get pid) + 1) * n \<le> 2 ^ 64"

lemma unat_byte_offset:
  assumes "addressable n pid" and "0 < n"
  shows "unat (byte_offset pid n) = unat (pid_get pid) * n"
proof -
  have le: "unat (pid_get pid) * n + n \<le> 2 ^ 64" using assms(1) by (simp add: addressable_def)
  have "unat (byte_offset pid n) = (unat (pid_get pid) * (n mod 2 ^ 64)) mod 2 ^ 64"
    by (simp add: byte_offset_def unat_word_ariths unat_of_nat)
  also have "\<dots> = unat (pid_get pid) * n mod 2 ^ 64"
    by (metis mod_mult_right_eq)
  also have "\<dots> = unat (pid_get pid) * n"
    using le assms(2) by (intro mod_less) linarith
  finally show ?thesis .
qed

lemma slots_disjoint:
  assumes "i \<noteq> (j :: nat)"
  shows "i * n + n \<le> j * n \<or> j * n + n \<le> i * n"
proof -
  have "Suc i \<le> j \<or> Suc j \<le> i" using assms by linarith
  then show ?thesis by (metis mult_Suc mult_le_mono1 add.commute)
qed

section \<open>Properties\<close>

lemma page_size_wf_4096 [simp]: "page_size_wf (PageSize 4096)"
  by (simp add: page_size_wf_iff, rule exI[of _ 12], simp)

lemma Page_new_4096: "page_wf 4096 (Page_new (PageSize 4096))"
  using Page_new_wf[of "PageSize 4096"] by simp

text \<open>PageSize::new accepts exactly the nine powers of two from 4 KiB to 1 MiB, and
  answers InvalidPageSize with the rejected size for every other number.\<close>

lemma page_sizes_accepted:
  "PageSize_new sz = (if \<exists>k \<in> {12..20}. sz = 2 ^ k then Inr (PageSize sz) else Inl (InvalidPageSize sz))"
proof (cases "\<exists>k \<in> {12..20}. sz = 2 ^ k")
  case True
  then have "PageSize_new sz = Inr (PageSize sz)" by (auto simp: PageSize_new_iff)
  with True show ?thesis by simp
next
  case False
  then have "PageSize_new sz \<noteq> Inr (PageSize sz)" by (auto simp: PageSize_new_iff)
  with False show ?thesis by (auto simp: PageSize_new_def split: if_splits)
qed

lemma verify_stamp_other:
  assumes "page_wf n p"
  shows "verify (stamp pid p) (Some other) =
    (if other = pid then Inr () else Inl (MisdirectedPage (pid_get other) (pid_get pid)))"
proof -
  have "sealed (as_bytes (stamp pid p))" "read_u64 (as_bytes (stamp pid p)) 8 = pid_get pid"
    using page_wf_ge_32[OF assms] by (simp_all add: page_simps header_simps)
  then show ?thesis by (auto simp: verify_def Let_def offset_defs sealed_def page_id.expand)
qed

text \<open>A page stamped for a slot verifies there; the id reads back, the LSN and the
  payload are untouched, and for any other slot the verdict is MisdirectedPage.\<close>

lemma stamp_then_verify:
  assumes "page_wf n p"
  shows "verify (stamp pid p) (Some pid) = Inr () \<and> Page_id (stamp pid p) = pid
    \<and> Page_lsn (stamp pid p) = Page_lsn p \<and> payload (stamp pid p) = payload p
    \<and> verify (stamp pid p) (Some other) =
        (if other = pid then Inr () else Inl (MisdirectedPage (pid_get other) (pid_get pid)))"
  using assms by (simp add: stamp_fields verify_stamp_other)

text \<open>Verification for a slot accepts exactly the pages that stamping for that slot
  leaves unchanged.\<close>

lemma verify_accepts_stamped_pages:
  assumes "page_wf n p"
  shows "verify p (Some pid) = Inr () \<longleftrightarrow> stamp pid p = p"
  using assms by (rule verify_Some_stamp_iff)

text \<open>C33: after any change of one byte of an accepted page, verification fails, whatever
  slot is expected, and the error tells the region: BadMagic for bytes 0 to 3,
  UnsupportedVersion for 4 and 5, ChecksumMismatch anywhere else.\<close>

theorem one_byte_corruption_is_detected:
  assumes "page_wf n p" and "verify p e = Inr ()" and "i < n" and "b \<noteq> as_bytes p ! i"
  shows "\<exists>bs. bs = (as_bytes p)[i := b] \<and>
    verify (as_bytes_mut (\<lambda>bytes. bytes[i := b]) p) e' = Inl
      (if i < 4 then BadMagic (read_u32 bs 0) MAGIC
       else if i < 6 then UnsupportedVersion (read_u16 bs 4) FORMAT_VERSION
       else ChecksumMismatch (read_u64 bs 8) (read_u32 bs 24) (compute_checksum bs))"
  using verify_byte_changed[OF assms] by blast

theorem one_byte_corruption_is_detected_witness:
  "\<exists>p err. verify p None = Inr () \<and> verify (as_bytes_mut (\<lambda>bytes. bytes[100 := as_bytes p ! 100 + 1]) p) None
     = Inl err"
proof -
  let ?p = "stamp (PageId 3) (Page_new (PageSize 4096))"
  have wf: "page_wf 4096 ?p" using Page_new_4096 by (rule stamp_wf)
  have ok: "verify ?p None = Inr ()"
    using verify_stamp[OF Page_new_4096, of "PageId 3"] by (simp add: verify_ok_iff)
  show ?thesis
    using one_byte_corruption_is_detected[OF wf ok, of 100 "as_bytes ?p ! 100 + 1" None] ok by auto
qed

text \<open>C34: a burst of up to four adjacent bytes within the checksummed region (or within
  the stored checksum) never leaves a page that verifies.\<close>

theorem burst_corruption_is_detected:
  assumes "page_wf n p" and "verify p e = Inr ()" and "off + length ys \<le> n" and "length ys \<le> 4"
    and "ys \<noteq> slice off (length ys) (as_bytes p)"
    and "off + length ys \<le> 24 \<or> 28 \<le> off \<or> 24 \<le> off \<and> off + length ys \<le> 28"
  shows "\<exists>err. verify (as_bytes_mut (splice off ys) p) e' = Inl err"
proof -
  have "sealed (as_bytes p)" using assms(2) by (simp add: verify_ok_iff)
  then have "\<not> sealed (splice off ys (as_bytes p))"
    using burst_not_sealed[of "as_bytes p" off ys] assms page_wf_length[OF assms(1)]
      page_wf_ge_32[OF assms(1)] by (simp add: sealed_def)
  then show ?thesis by (intro not_sealed_verify) (simp add: as_bytes_as_bytes_mut)
qed

theorem burst_corruption_is_detected_witness:
  "\<exists>p ys err. length ys = 4 \<and> verify p None = Inr ()
     \<and> verify (as_bytes_mut (splice 100 ys) p) None = Inl err"
proof -
  let ?p = "stamp (PageId 3) (Page_new (PageSize 4096))"
  let ?ys = "[as_bytes ?p ! 100 + 1, 0, 0, 0]"
  have wf: "page_wf 4096 ?p" using Page_new_4096 by (rule stamp_wf)
  have ok: "verify ?p None = Inr ()"
    using verify_stamp[OF Page_new_4096, of "PageId 3"] by (simp add: verify_ok_iff)
  have "hd (slice 100 4 (as_bytes ?p)) = as_bytes ?p ! 100"
    using page_wf_length[OF wf] by (simp add: slice_map_nth hd_map)
  moreover have len: "length ?ys = 4" by simp
  ultimately have "hd ?ys \<noteq> hd (slice 100 (length ?ys) (as_bytes ?p))"
    by (simp only: len list.sel) simp
  then have "?ys \<noteq> slice 100 (length ?ys) (as_bytes ?p)" by metis
  then show ?thesis
    using burst_corruption_is_detected[OF wf ok, of 100 ?ys None] ok
    by (intro exI[of _ ?p] exI[of _ ?ys]) auto
qed

text \<open>C35: serialising a page with a valid header and loading the bytes gives a page of the
  same size with the same id, LSN and payload, whose bytes are exactly the block; loading
  accepts a block only if it is one whose serialisation is the block itself.\<close>

theorem serialise_load_round_trip:
  assumes "page_size_wf ps" and "page_wf (ps_get ps) p" and "header_valid (as_bytes p)"
  shows "\<exists>q. Page_from_bytes ps (to_checksummed_bytes p) = Inr q \<and> page_wf (ps_get ps) q
    \<and> as_bytes q = to_checksummed_bytes p \<and> Page_id q = Page_id p \<and> Page_lsn q = Page_lsn p
    \<and> payload q = payload p \<and> to_checksummed_bytes q = to_checksummed_bytes p"
proof -
  note fields = to_checksummed_bytes_fields[OF assms(2)]
  note seal = fields(1)[OF assms(3)]
  let ?q = "\<lparr>page_buf = as_mut_slice (splice 0 (to_checksummed_bytes p))
      (the (new_zeroed (ps_get ps) (ps_get ps))), page_sz = ps_get ps\<rparr>"
  note q = as_bytes_from_bytes[OF assms(1) fields(2)]
  have "Page_from_bytes ps (to_checksummed_bytes p) = Inr ?q"
    using Page_from_bytes_ok_iff[OF assms(1)] q seal by simp
  moreover have "to_checksummed_bytes ?q = to_checksummed_bytes p"
    using to_checksummed_bytes_sealed[of ?q] q seal page_wf_ge_32[OF q(2)] by simp
  ultimately show ?thesis
    using q fields(3-5)
    by (intro exI[of _ ?q]) (simp add: Page_id_def Page_lsn_def payload_def offset_defs)
qed

theorem serialise_load_round_trip_witness:
  "\<exists>q. Page_from_bytes (PageSize 4096) (to_checksummed_bytes (Page_new (PageSize 4096))) = Inr q"
  using serialise_load_round_trip[OF page_size_wf_4096, of "Page_new (PageSize 4096)"] Page_new_4096
    as_bytes_Page_new[OF page_size_wf_4096] blank_header_valid[of 4096] by auto

text \<open>Whatever bytes are handed to from_bytes, a page that it accepts has exactly those
  bytes and re-serialises to them, so loading again gives the same page (the fuzz target's
  claim); a block of another length is answered with ShortRead.\<close>

lemma accepted_bytes_round_trip:
  assumes "page_size_wf ps"
  shows "case Page_from_bytes ps bytes of
      Inr p \<Rightarrow> as_bytes p = bytes \<and> to_checksummed_bytes p = bytes
        \<and> Page_from_bytes ps (to_checksummed_bytes p) = Inr p
    | Inl e \<Rightarrow> length bytes \<noteq> ps_get ps \<longrightarrow> e = ShortRead 0 (length bytes) (ps_get ps)"
proof (cases "Page_from_bytes ps bytes")
  case (Inl e)
  then show ?thesis by (auto simp: Page_from_bytes_def Let_def)
next
  case (Inr p)
  then have p: "page_wf (ps_get ps) p" "as_bytes p = bytes" "sealed bytes"
    using Page_from_bytes_ok_iff[OF assms] by blast+
  then have "to_checksummed_bytes p = bytes"
    using to_checksummed_bytes_sealed[of p] page_wf_ge_32[OF p(1)] by simp
  with Inr p(2) show ?thesis by simp
qed

text \<open>As long as a slot lies below offset 2 to the 64, its byte offset is the exact
  product, and distinct slots do not overlap.\<close>

lemma slots_are_exact_and_disjoint:
  assumes "page_size_wf (PageSize n)" and "addressable n a" and "addressable n b" and "a \<noteq> b"
  shows "unat (byte_offset a n) = unat (pid_get a) * n
    \<and> (unat (byte_offset a n) + n \<le> unat (byte_offset b n)
       \<or> unat (byte_offset b n) + n \<le> unat (byte_offset a n))"
proof -
  have n: "0 < n" using page_size_wf_bounds(1)[OF assms(1)] by simp
  have "unat (pid_get a) \<noteq> unat (pid_get b)"
    using assms(4) by (metis page_id.expand word_unat_eq_iff)
  then show ?thesis
    using slots_disjoint[of "unat (pid_get a)" "unat (pid_get b)" n]
    by (simp add: unat_byte_offset[OF assms(2) n] unat_byte_offset[OF assms(3) n])
qed

end
