(* ===== verification/OsFile.thy ===== *)
theory OsFile
  imports Errors
begin

text \<open>
  The platform layer (\<^verbatim>\<open>src/sys.rs\<close>) over a model of the operating system's
  file.  A file is its bytes, the bytes that are on stable storage, and a
  schedule: the outcomes the kernel gives the next calls, in order (a transfer of
  at most so many bytes, or an error).  When the schedule is used up, every call
  transfers all it can.  So a schedule is any finite sequence of short transfers,
  interruptions and failures, and a statement about all schedules is a statement
  about every such run; an endless stream of \<^verbatim>\<open>EINTR\<close>, under which the retry
  loops of the source never return, is the one run the model leaves out.  The
  open and sync calls are those of the Linux \<^verbatim>\<open>imp\<close> module.
\<close>

datatype io_outcome =
    Transfer nat
  | Fail io_error

record os_file =
  f_data :: bytes
  f_durable :: bytes
  f_sched :: "io_outcome list"

section \<open>System calls\<close>

text \<open>
  \<^verbatim>\<open>FileExt::read_at\<close>: up to \<open>n\<close> bytes at the offset, at least one unless the offset is
  at or past the end of the file.
\<close>

definition pread :: "os_file \<Rightarrow> nat \<Rightarrow> u64 \<Rightarrow> (io_error + bytes) \<times> os_file" where
  "pread f n offset =
    (case f_sched f of
       [] \<Rightarrow> (Inr (slice (unat offset) n (f_data f)), f)
     | Fail e # rest \<Rightarrow> (Inl e, f\<lparr>f_sched := rest\<rparr>)
     | Transfer k # rest \<Rightarrow>
         (Inr (slice (unat offset) (min n (max 1 k)) (f_data f)), f\<lparr>f_sched := rest\<rparr>))"

text \<open>A write past the end fills the gap with zeros; a write of no bytes changes nothing.\<close>

definition file_write :: "nat \<Rightarrow> bytes \<Rightarrow> bytes \<Rightarrow> bytes" where
  "file_write off bs data =
    (if bs = [] then data
     else splice off bs (data @ replicate (off + length bs - length data) 0))"

definition pwrite :: "os_file \<Rightarrow> bytes \<Rightarrow> u64 \<Rightarrow> (io_error + nat) \<times> os_file" where
  "pwrite f bs offset =
    (case f_sched f of
       [] \<Rightarrow> (Inr (length bs), f\<lparr>f_data := file_write (unat offset) bs (f_data f)\<rparr>)
     | Fail e # rest \<Rightarrow> (Inl e, f\<lparr>f_sched := rest\<rparr>)
     | Transfer k # rest \<Rightarrow>
         (Inr (min k (length bs)),
          f\<lparr>f_data := file_write (unat offset) (take k bs) (f_data f), f_sched := rest\<rparr>))"

text \<open>\<^verbatim>\<open>File::sync_data\<close> retries an interrupted \<^verbatim>\<open>fdatasync\<close> itself.\<close>

fun sync_outcome :: "io_outcome list \<Rightarrow> io_error option \<times> io_outcome list" where
  "sync_outcome [] = (None, [])"
| "sync_outcome (Transfer k # rest) = (None, rest)"
| "sync_outcome (Fail e # rest) = (if e = Interrupted then sync_outcome rest else (Some e, rest))"

definition sync_data :: "os_file \<Rightarrow> (io_error + unit) \<times> os_file" where
  "sync_data f =
    (case sync_outcome (f_sched f) of
       (None, rest) \<Rightarrow> (Inr (), f\<lparr>f_durable := f_data f, f_sched := rest\<rparr>)
     | (Some e, rest) \<Rightarrow> (Inl e, f\<lparr>f_sched := rest\<rparr>))"

text \<open>
  The options of \<^verbatim>\<open>std::fs::OpenOptions\<close> that the source sets, and the directory: the files by
  path, and whether the system refuses an open with these options (a missing permission,
  a filesystem without \<^verbatim>\<open>O_DIRECT\<close>).  The value of \<^verbatim>\<open>libc::O_DIRECT\<close> is not in the repository
  and differs between systems: it is a parameter and kept with the system.
\<close>

record open_options =
  oo_read :: bool
  oo_write :: bool
  oo_create :: bool
  oo_custom_flags :: u32

record file_system =
  fs_files :: "string \<Rightarrow> os_file option"
  fs_refuse :: "string \<Rightarrow> open_options \<Rightarrow> io_error option"
  fs_O_DIRECT :: u32

definition empty_file :: os_file where
  "empty_file = \<lparr>f_data = [], f_durable = [], f_sched = []\<rparr>"

text \<open>\<^verbatim>\<open>OpenOptions::open\<close> of the standard library: a missing file is created on request.\<close>

definition OpenOptions_open ::
  "file_system \<Rightarrow> open_options \<Rightarrow> string \<Rightarrow> (io_error + os_file) \<times> file_system" where
  "OpenOptions_open fs opts path =
    (case fs_refuse fs path opts of
       Some e \<Rightarrow> (Inl e, fs)
     | None \<Rightarrow>
         (case fs_files fs path of
            Some f \<Rightarrow> (Inr f, fs)
          | None \<Rightarrow>
              if oo_create opts then (Inr empty_file, fs\<lparr>fs_files := (fs_files fs)(path \<mapsto> empty_file)\<rparr>)
              else (Inl NotFound, fs)))"

definition sys_open :: "file_system \<Rightarrow> string \<Rightarrow> bool \<Rightarrow> bool \<Rightarrow> (io_error + os_file) \<times> file_system" where
  "sys_open fs path direct create =
    (let opts = \<lparr>oo_read = True, oo_write = True, oo_create = create, oo_custom_flags = 0\<rparr>;
         opts = (if direct then opts\<lparr>oo_custom_flags := fs_O_DIRECT fs\<rparr> else opts)
     in OpenOptions_open fs opts path)"

lemmas sys_open_defs = sys_open_def OpenOptions_open_def Let_def

lemma pread_frame:
  assumes "pread f n offset = (r, f')"
  shows "f_data f' = f_data f" and "f_durable f' = f_durable f"
    and "set (f_sched f') \<subseteq> set (f_sched f)"
    and "length (f_sched f') \<le> length (f_sched f)"
  using assms by (auto simp: pread_def split: list.splits io_outcome.splits)

lemma pread_Inr:
  assumes "pread f n offset = (Inr got, f')"
  shows "\<exists>k. 0 < k \<and> got = slice (unat offset) (min n k) (f_data f)"
proof (cases "f_sched f")
  case Nil
  with assms show ?thesis by (intro exI[of _ "max 1 n"]) (auto simp: pread_def min_def max_def)
next
  case (Cons x xs)
  with assms show ?thesis
    by (cases x) (auto simp: pread_def intro!: exI[of _ "max 1 k" for k])
qed

lemma pread_Inl:
  assumes "pread f n offset = (Inl e, f')"
  shows "Fail e \<in> set (f_sched f)" and "length (f_sched f') < length (f_sched f)"
  using assms by (auto simp: pread_def split: list.splits io_outcome.splits)

lemma pwrite_frame:
  assumes "pwrite f bs offset = (r, f')"
  shows "f_durable f' = f_durable f" and "set (f_sched f') \<subseteq> set (f_sched f)"
    and "length (f_sched f') \<le> length (f_sched f)"
  using assms by (auto simp: pwrite_def split: list.splits io_outcome.splits)

lemma pwrite_Inr:
  assumes "pwrite f bs offset = (Inr n, f')"
  shows "n \<le> length bs" and "f_data f' = file_write (unat offset) (take n bs) (f_data f)"
  using assms
  by (auto simp: pwrite_def min_def split: list.splits io_outcome.splits)

lemma pwrite_Inl:
  assumes "pwrite f bs offset = (Inl e, f')"
  shows "Fail e \<in> set (f_sched f)" and "length (f_sched f') < length (f_sched f)"
    and "f_data f' = f_data f"
  using assms by (auto simp: pwrite_def split: list.splits io_outcome.splits)

section \<open>Full reads and writes\<close>

text \<open>
  The loops of \<^verbatim>\<open>read_at_full\<close> and \<^verbatim>\<open>write_all_at\<close>: their state is the file, the
  buffer and the counter.  Each turn uses up a schedule entry or moves bytes,
  which is why they stop.
\<close>

function read_loop :: "os_file \<Rightarrow> u64 \<Rightarrow> bytes \<Rightarrow> nat \<Rightarrow> (io_error + nat) \<times> bytes \<times> os_file" where
  "read_loop f offset buf nread =
    (if nread < length buf then
       (case pread f (length buf - nread) (offset + of_nat nread) of
          (Inr got, f') \<Rightarrow>
            if got = [] then (Inr nread, buf, f')
            else read_loop f' offset (splice nread got buf) (nread + length got)
        | (Inl e, f') \<Rightarrow>
            if e = Interrupted then read_loop f' offset buf nread else (Inl e, buf, f'))
     else (Inr nread, buf, f))"
  by pat_completeness auto

lemma length_pread: "pread f n offset = (Inr got, f') \<Longrightarrow> length got \<le> n"
  by (drule pread_Inr) (auto simp: slice_def)

termination read_loop
proof (relation "measure (\<lambda>(f, offset, buf, nread). length (f_sched f) + (length buf - nread))",
    goal_cases)
  case 1
  show ?case by simp
next
  case (3 f offset buf nread x f' got)
  then have "pread f (length buf - nread) (offset + of_nat nread) = (Inr got, f')" by simp
  with 3 length_pread[OF this] pread_frame(4)[OF this] show ?case
    by (cases got) (auto simp: length_splice)
next
  case (2 f offset buf nread x f' e)
  then have "pread f (length buf - nread) (offset + of_nat nread) = (Inl e, f')" by simp
  with 2 pread_Inl(2)[OF this] show ?case by simp
qed

definition read_at_full :: "os_file \<Rightarrow> bytes \<Rightarrow> u64 \<Rightarrow> (io_error + nat) \<times> bytes \<times> os_file" where
  "read_at_full f buf offset = read_loop f offset buf 0"

function write_loop :: "os_file \<Rightarrow> u64 \<Rightarrow> bytes \<Rightarrow> nat \<Rightarrow> (io_error + unit) \<times> os_file" where
  "write_loop f offset buf written =
    (if written < length buf then
       (case pwrite f (drop written buf) (offset + of_nat written) of
          (Inr n, f') \<Rightarrow>
            if n = 0 then (Inl WriteZero, f') else write_loop f' offset buf (written + n)
        | (Inl e, f') \<Rightarrow>
            if e = Interrupted then write_loop f' offset buf written else (Inl e, f'))
     else (Inr (), f))"
  by pat_completeness auto

termination write_loop
proof (relation "measure (\<lambda>(f, offset, buf, written). length (f_sched f) + (length buf - written))",
    goal_cases)
  case 1
  show ?case by simp
next
  case (3 f offset buf written x f' n)
  then have "pwrite f (drop written buf) (offset + of_nat written) = (Inr n, f')" by simp
  with 3 pwrite_frame(3)[OF this] pwrite_Inr(1)[OF this] show ?case by auto
next
  case (2 f offset buf written x f' e)
  then have "pwrite f (drop written buf) (offset + of_nat written) = (Inl e, f')" by simp
  with 2 pwrite_Inl(2)[OF this] show ?case by simp
qed

definition write_all_at :: "os_file \<Rightarrow> bytes \<Rightarrow> u64 \<Rightarrow> (io_error + unit) \<times> os_file" where
  "write_all_at f buf offset = write_loop f offset buf 0"

declare read_loop.simps [simp del] write_loop.simps [simp del]


section \<open>What the loops do, for every schedule\<close>

lemma unat_add_offset:
  assumes "unat offset + n \<le> 2 ^ 64" and "k < n"
  shows "unat (offset + of_nat k :: u64) = unat offset + k"
  using assms by (simp add: unat_word_ariths unat_of_nat)

lemma read_loop_correct:
  assumes "read_loop f offset buf nread = (r, buf', f')"
    and "unat offset + length buf \<le> 2 ^ 64" and "nread \<le> length buf"
    and "take nread buf = take nread (drop (unat offset) (f_data f))"
    and "nread \<le> length (f_data f) - unat offset"
  shows "f_data f' = f_data f \<and> f_durable f' = f_durable f \<and> set (f_sched f') \<subseteq> set (f_sched f)
    \<and> length buf' = length buf
    \<and> (case r of
         Inr n \<Rightarrow> n = min (length buf) (length (f_data f) - unat offset)
           \<and> take n buf' = slice (unat offset) n (f_data f)
       | Inl e \<Rightarrow> e \<noteq> Interrupted \<and> Fail e \<in> set (f_sched f))"
  using assms
proof (induction f offset buf nread arbitrary: r buf' f' rule: read_loop.induct)
  case (1 f offset buf nread)
  let ?turn = "pread f (length buf - nread) (offset + of_nat nread)"
  let ?off = "unat offset"
  show ?case
  proof (cases "nread < length buf")
    case False
    with "1.prems" show ?thesis
      by (auto simp: read_loop.simps [of f] slice_def)
  next
    case True
    have off: "unat (offset + of_nat nread :: u64) = ?off + nread"
      using "1.prems"(2) True by (rule unat_add_offset)
    show ?thesis
    proof (cases ?turn)
      case (Pair res g)
      note frame = pread_frame[OF Pair]
      show ?thesis
      proof (cases res)
        case (Inl e)
        note fail = pread_Inl[OF Pair[unfolded Inl]]
        show ?thesis
        proof (cases "e = Interrupted")
          case eintr: True
          have "read_loop g offset buf nread = (r, buf', f')"
            using "1.prems"(1) True Pair Inl eintr by (simp add: read_loop.simps [of f])
          from "1.IH"(1)[OF True Pair[symmetric] Inl eintr this] "1.prems" frame
          show ?thesis by (auto split: sum.splits)
        next
          case False
          with "1.prems" \<open>nread < length buf\<close> Pair Inl frame fail show ?thesis
            by (auto simp: read_loop.simps [of f])
        qed
      next
        case (Inr got)
        obtain k where k: "0 < k" "got = slice (?off + nread) (min (length buf - nread) k) (f_data f)"
          using pread_Inr[OF Pair[unfolded Inr]] off by auto
        show ?thesis
        proof (cases "got = []")
          case True
          with k \<open>nread < length buf\<close> have "length (f_data f) \<le> ?off + nread"
            by (auto simp: slice_def)
          with "1.prems" \<open>nread < length buf\<close> Pair Inr frame True show ?thesis
            by (auto simp: read_loop.simps [of f] slice_def)
        next
          case False
          let ?buf = "splice nread got buf"
          have len: "length got \<le> length buf - nread"
            "length got \<le> length (f_data f) - (?off + nread)"
            using k by (auto simp: slice_def)
          have "take (nread + length got) ?buf = take nread buf @ got"
            using len \<open>nread < length buf\<close> by (simp add: splice_def)
          moreover have "got = take (length got) (drop (?off + nread) (f_data f))"
            using k by (simp add: slice_def min_def)
          ultimately have prefix: "take (nread + length got) ?buf =
              take (nread + length got) (drop ?off (f_data f))"
            using "1.prems"(4) by (metis add.commute drop_drop take_add)
          have step: "read_loop g offset ?buf (nread + length got) = (r, buf', f')"
            using "1.prems"(1) \<open>nread < length buf\<close> Pair Inr False
            by (simp add: read_loop.simps [of f])
          have lenb: "length ?buf = length buf"
            using len \<open>nread < length buf\<close> by (simp add: length_splice)
          have bound: "nread + length got \<le> length buf"
            "nread + length got \<le> length (f_data f) - ?off"
            using len "1.prems"(5) \<open>nread < length buf\<close> by linarith+
          from "1.IH"(2)[OF \<open>nread < length buf\<close> Pair[symmetric] Inr False step, unfolded lenb frame(1),
              OF "1.prems"(2) bound(1) prefix bound(2)] frame
          show ?thesis by (auto split: sum.splits)
        qed
      qed
    qed
  qed
qed

lemma read_at_full_correct:
  assumes "read_at_full f buf offset = (r, buf', f')" and "unat offset + length buf \<le> 2 ^ 64"
  shows "f_data f' = f_data f" and "f_durable f' = f_durable f"
    and "set (f_sched f') \<subseteq> set (f_sched f)" and "length buf' = length buf"
    and "r = Inr n \<Longrightarrow> n = min (length buf) (length (f_data f) - unat offset)
           \<and> take n buf' = slice (unat offset) n (f_data f)"
    and "r = Inl e \<Longrightarrow> e \<noteq> Interrupted \<and> Fail e \<in> set (f_sched f)"
  using read_loop_correct[OF assms(1)[unfolded read_at_full_def] assms(2)]
  by (auto split: sum.splits)

subsection \<open>Writes\<close>

lemma nth_file_write:
  "j < max (length d) (off + length bs) \<Longrightarrow> bs \<noteq> [] \<Longrightarrow> file_write off bs d ! j =
    (if off \<le> j \<and> j < off + length bs then bs ! (j - off) else if j < length d then d ! j else 0)"
  by (auto simp: file_write_def nth_splice nth_append)

lemma length_file_write:
  "length (file_write off bs d) = (if bs = [] then length d else max (length d) (off + length bs))"
  by (auto simp: file_write_def length_splice)

lemma file_write_append:
  "file_write (off + length xs) ys (file_write off xs d) = file_write off (xs @ ys) d"
proof (cases "xs = [] \<or> ys = []")
  case True
  then show ?thesis by (auto simp: file_write_def)
next
  case False
  then show ?thesis
    by (intro nth_equalityI) (auto simp: length_file_write nth_file_write nth_append)
qed

lemma slice_file_write_same:
  "bs \<noteq> [] \<Longrightarrow> slice off (length bs) (file_write off bs d) = bs"
  by (intro nth_equalityI) (auto simp: slice_def length_file_write nth_file_write)

lemma slice_file_write_other:
  assumes "a + n \<le> off \<or> off + length bs \<le> a" and "a + n \<le> length d"
  shows "slice a n (file_write off bs d) = slice a n d"
proof (cases "bs = []")
  case False
  then show ?thesis
    using assms by (subst slice_eq_iff) (auto simp: length_file_write nth_file_write)
qed (simp add: file_write_def)

lemma write_loop_correct:
  assumes "write_loop f offset buf written = (r, f')"
    and "unat offset + length buf \<le> 2 ^ 64" and "written \<le> length buf"
    and "f_data f = file_write (unat offset) (take written buf) d"
  shows "f_durable f' = f_durable f \<and> set (f_sched f') \<subseteq> set (f_sched f)
    \<and> (\<exists>k \<le> length buf. f_data f' = file_write (unat offset) (take k buf) d
         \<and> (r = Inr () \<longrightarrow> k = length buf))
    \<and> (\<forall>e. r = Inl e \<longrightarrow>
         e \<noteq> Interrupted \<and> (e = WriteZero \<and> Transfer 0 \<in> set (f_sched f) \<or> Fail e \<in> set (f_sched f)))"
  using assms
proof (induction f offset buf written arbitrary: r f' rule: write_loop.induct)
  case (1 f offset buf written)
  let ?turn = "pwrite f (drop written buf) (offset + of_nat written)"
  let ?off = "unat offset"
  show ?case
  proof (cases "written < length buf")
    case False
    with "1.prems" show ?thesis
      by (auto simp: write_loop.simps [of f])
  next
    case True
    have off: "unat (offset + of_nat written :: u64) = ?off + written"
      using "1.prems"(2) True by (rule unat_add_offset)
    show ?thesis
    proof (cases ?turn)
      case (Pair res g)
      note frame = pwrite_frame[OF Pair]
      show ?thesis
      proof (cases res)
        case (Inl e)
        note fail = pwrite_Inl[OF Pair[unfolded Inl]]
        show ?thesis
        proof (cases "e = Interrupted")
          case eintr: True
          have "write_loop g offset buf written = (r, f')"
            using "1.prems"(1) True Pair Inl eintr by (simp add: write_loop.simps [of f])
          from "1.IH"(1)[OF True Pair[symmetric] Inl eintr this "1.prems"(2,3)]
          show ?thesis using "1.prems"(4) fail(3) frame by fastforce
        next
          case False
          then show ?thesis using "1.prems" True Pair Inl frame fail
            by (auto simp: write_loop.simps [of f] intro!: exI[of _ written])
        qed
      next
        case (Inr n)
        note moved = pwrite_Inr[OF Pair[unfolded Inr]]
        have "take (written + n) buf = take written buf @ take n (drop written buf)"
          by (simp add: take_add)
        then have data: "f_data g = file_write ?off (take (written + n) buf) d"
          using moved(2) "1.prems"(3,4) off file_write_append[of ?off "take written buf"]
          by (simp add: min_absorb2)
        show ?thesis
        proof (cases "n = 0")
          case zero: True
          have "Transfer 0 \<in> set (f_sched f)"
            using Pair Inr zero True by (auto simp: pwrite_def split: list.splits io_outcome.splits)
          then show ?thesis using "1.prems" True Pair Inr frame zero data
            by (auto simp: write_loop.simps [of f] intro!: exI[of _ written])
        next
          case False
          have "write_loop g offset buf (written + n) = (r, f')"
            using "1.prems"(1) True Pair Inr False by (simp add: write_loop.simps [of f])
          moreover have "written + n \<le> length buf" using moved(1) True by simp
          ultimately have ih: "f_durable f' = f_durable g" "set (f_sched f') \<subseteq> set (f_sched g)"
            "\<exists>k \<le> length buf. f_data f' = file_write ?off (take k buf) d
               \<and> (r = Inr () \<longrightarrow> k = length buf)"
            "r = Inl e \<Longrightarrow> e \<noteq> Interrupted
               \<and> (e = WriteZero \<and> Transfer 0 \<in> set (f_sched g) \<or> Fail e \<in> set (f_sched g))" for e
            using "1.IH"(2)[OF True Pair[symmetric] Inr False _ "1.prems"(2) _ data] by blast+
          from ih frame(1,2) show ?thesis by fastforce
        qed
      qed
    qed
  qed
qed

lemma write_all_at_correct:
  assumes "write_all_at f buf offset = (r, f')" and "unat offset + length buf \<le> 2 ^ 64"
  shows "f_durable f' = f_durable f" and "set (f_sched f') \<subseteq> set (f_sched f)"
    and "\<exists>k \<le> length buf. f_data f' = file_write (unat offset) (take k buf) (f_data f)
         \<and> (r = Inr () \<longrightarrow> k = length buf)"
    and "r = Inl e \<Longrightarrow> e \<noteq> Interrupted 
           \<and> (e = WriteZero \<and> Transfer 0 \<in> set (f_sched f) \<or> Fail e \<in> set (f_sched f))"
  using write_loop_correct[OF assms(1)[unfolded write_all_at_def] assms(2), of "f_data f"]
  by (auto simp: file_write_def)

lemma sync_outcome_sched:
  "sync_outcome es = (r, rest) \<Longrightarrow> set rest \<subseteq> set es"
  "sync_outcome es = (Some e, rest) \<Longrightarrow> e \<noteq> Interrupted \<and> Fail e \<in> set es"
  by (induction es rule: sync_outcome.induct) (auto split: if_splits)

lemma sync_data_frame:
  assumes "sync_data f = (r, f')"
  shows "f_data f' = f_data f" and "set (f_sched f') \<subseteq> set (f_sched f)"
    and "r = Inr () \<Longrightarrow> f_durable f' = f_data f"
    and "r = Inl e \<Longrightarrow> f_durable f' = f_durable f \<and> Fail e \<in> set (f_sched f)"
  using assms sync_outcome_sched[of "f_sched f"]
  by (auto simp: sync_data_def split: prod.splits option.splits)

section \<open>Properties\<close>

text \<open>Whatever short reads, interruptions and failures the system deals out,
  read_at_full leaves the file alone, returns a count below the buffer's length only at the
  end of the file, has filled exactly that many bytes with the file's, and never reports an
  interruption.\<close>

lemma read_at_full_spec:
  assumes "read_at_full f buf offset = (r, buf', f')" and "unat offset + length buf \<le> 2 ^ 64"
  shows "f_data f' = f_data f \<and> length buf' = length buf
    \<and> (case r of
         Inr n \<Rightarrow> n = min (length buf) (length (f_data f) - unat offset)
           \<and> take n buf' = slice (unat offset) n (f_data f)
       | Inl e \<Rightarrow> e \<noteq> Interrupted \<and> Fail e \<in> set (f_sched f))"
  using read_at_full_correct[OF assms] by (auto split: sum.splits)

text \<open>Whatever the schedule, write_all_at puts a prefix of the buffer at the offset and
  changes nothing else, the whole buffer if it returns Ok; nothing becomes durable; an error
  is never an interruption and is one the system reported, or WriteZero after a transfer
  of no bytes.\<close>

lemma write_all_at_spec:
  assumes "write_all_at f buf offset = (r, f')" and "unat offset + length buf \<le> 2 ^ 64"
  shows "f_durable f' = f_durable f
    \<and> (\<exists>k \<le> length buf. f_data f' = file_write (unat offset) (take k buf) (f_data f)
         \<and> (r = Inr () \<longrightarrow> k = length buf))
    \<and> (\<forall>e. r = Inl e \<longrightarrow> e \<noteq> Interrupted
         \<and> (e = WriteZero \<and> Transfer 0 \<in> set (f_sched f) \<or> Fail e \<in> set (f_sched f)))"
  using write_all_at_correct[OF assms] by auto

end
