(* ===== verification/PageFile.thy ===== *)
theory PageFile
  imports Page OsFile
begin

text \<open>
  The file of pages (\<^verbatim>\<open>src/file.rs\<close>): its options, and reading and writing
  fixed-size slots through the platform layer, each read verified and each
  write stamped.  \<open>pf_view\<close> is the abstract content: the slots that hold a page
  stamped for them.
\<close>

record page_file_options =
  opt_page_size :: page_size
  opt_direct_io :: bool
  opt_create :: bool

record page_file =
  pf_file :: os_file
  pf_page_size :: page_size

definition Options_default :: page_file_options where
  "Options_default = \<lparr>opt_page_size = DEFAULT_PAGE_SIZE, opt_direct_io = True, opt_create = True\<rparr>"

definition Options_new :: page_file_options where
  "Options_new = Options_default"

definition Options_page_size :: "page_size \<Rightarrow> page_file_options \<Rightarrow> page_file_options" where
  "Options_page_size ps opts = opts\<lparr>opt_page_size := ps\<rparr>"

definition Options_direct_io :: "bool \<Rightarrow> page_file_options \<Rightarrow> page_file_options" where
  "Options_direct_io enabled opts = opts\<lparr>opt_direct_io := enabled\<rparr>"

definition Options_create :: "bool \<Rightarrow> page_file_options \<Rightarrow> page_file_options" where
  "Options_create create opts = opts\<lparr>opt_create := create\<rparr>"

definition Options_open ::
  "page_file_options \<Rightarrow> file_system \<Rightarrow> string \<Rightarrow> page_file page_result \<times> file_system" where
  "Options_open opts fs path =
    (case sys_open fs path (opt_direct_io opts) (opt_create opts) of
       (Inl e, fs') \<Rightarrow> (Inl (Io e), fs')
     | (Inr f, fs') \<Rightarrow> (Inr \<lparr>pf_file = f, pf_page_size = opt_page_size opts\<rparr>, fs'))"

definition PageFile_open ::
  "file_system \<Rightarrow> string \<Rightarrow> page_size \<Rightarrow> page_file page_result \<times> file_system" where
  "PageFile_open fs path ps = Options_open (Options_page_size ps Options_new) fs path"

definition PageFile_page_size :: "page_file \<Rightarrow> nat" where
  "PageFile_page_size pf = ps_get (pf_page_size pf)"

text \<open>\<^verbatim>\<open>metadata\<close> is one more system call that can fail.\<close>

definition page_count :: "page_file \<Rightarrow> u64 page_result \<times> page_file" where
  "page_count pf =
    (let f = pf_file pf;
         len = of_nat (length (f_data f)) :: u64;
         n = of_nat (ps_get (pf_page_size pf)) :: u64
     in case f_sched f of
          Fail e # rest \<Rightarrow> (Inl (Io e), pf\<lparr>pf_file := f\<lparr>f_sched := rest\<rparr>\<rparr>)
        | x # rest \<Rightarrow> (Inr (len div n), pf\<lparr>pf_file := f\<lparr>f_sched := rest\<rparr>\<rparr>)
        | [] \<Rightarrow> (Inr (len div n), pf))"

definition PageFile_allocate_page :: "page_file \<Rightarrow> page" where
  "PageFile_allocate_page pf = Page_new (pf_page_size pf)"

definition PageFile_read_into ::
  "page_file \<Rightarrow> page_id \<Rightarrow> page \<Rightarrow> unit page_result \<times> page \<times> page_file" where
  "PageFile_read_into pf pid p =
    (let n = ps_get (pf_page_size pf)
     in if Page_page_size p \<noteq> n then (Inl (InvalidPageSize (Page_page_size p)), p, pf)
        else
          let offset = byte_offset pid n;
              (r, buf, f') = read_at_full (pf_file pf) (as_bytes p) offset;
              p' = as_bytes_mut (\<lambda>_. buf) p;
              pf' = pf\<lparr>pf_file := f'\<rparr>
          in case r of
               Inl e \<Rightarrow> (Inl (Io e), p', pf')
             | Inr got \<Rightarrow>
                 if got \<noteq> n then (Inl (ShortRead (pid_get pid) got n), p', pf')
                 else (case verify p' (Some pid) of
                         Inl e \<Rightarrow> (Inl e, p', pf')
                       | Inr _ \<Rightarrow> (Inr (), p', pf')))"

definition PageFile_read_page :: "page_file \<Rightarrow> page_id \<Rightarrow> page page_result \<times> page_file" where
  "PageFile_read_page pf pid =
    (let p = Page_new (pf_page_size pf)
     in case PageFile_read_into pf pid p of
          (Inl e, p', pf') \<Rightarrow> (Inl e, pf')
        | (Inr _, p', pf') \<Rightarrow> (Inr p', pf'))"

definition PageFile_write_page ::
  "page_file \<Rightarrow> page_id \<Rightarrow> page \<Rightarrow> unit page_result \<times> page \<times> page_file" where
  "PageFile_write_page pf pid p =
    (let n = ps_get (pf_page_size pf)
     in if Page_page_size p \<noteq> n then (Inl (InvalidPageSize (Page_page_size p)), p, pf)
        else
          let p' = stamp pid p;
              offset = byte_offset pid n;
              (r, f') = write_all_at (pf_file pf) (as_bytes p') offset
          in (from_io r, p', pf\<lparr>pf_file := f'\<rparr>))"

definition PageFile_sync :: "page_file \<Rightarrow> unit page_result \<times> page_file" where
  "PageFile_sync pf =
    (let (r, f') = sync_data (pf_file pf) in (from_io r, pf\<lparr>pf_file := f'\<rparr>))"

section \<open>Invariant and abstract content\<close>

definition pf_inv :: "nat \<Rightarrow> page_file \<Rightarrow> bool" where
  "pf_inv n pf \<longleftrightarrow> pf_page_size pf = PageSize n \<and> page_size_wf (PageSize n)"

abbreviation pf_data :: "page_file \<Rightarrow> bytes" where
  "pf_data pf \<equiv> f_data (pf_file pf)"

abbreviation pf_sched :: "page_file \<Rightarrow> io_outcome list" where
  "pf_sched pf \<equiv> f_sched (pf_file pf)"

definition stamped_for :: "page_id \<Rightarrow> bytes \<Rightarrow> bool" where
  "stamped_for pid bs \<longleftrightarrow> sealed bs \<and> read_u64 bs 8 = pid_get pid"

definition pf_view :: "nat \<Rightarrow> page_file \<Rightarrow> page_id \<Rightarrow> bytes option" where
  "pf_view n pf pid =
    (let bs = slice (unat (pid_get pid) * n) n (pf_data pf)
     in if length bs = n \<and> stamped_for pid bs then Some bs else None)"

lemma stamped_for_stamp: "32 \<le> length bs \<Longrightarrow> stamped_for pid (stamp_bytes (pid_get pid) bs)"
  by (simp add: stamped_for_def header_simps)

lemma pf_view_SomeD:
  "pf_view n pf pid = Some bs \<Longrightarrow> length bs = n \<and> stamped_for pid bs
     \<and> bs = slice (unat (pid_get pid) * n) n (pf_data pf)"
  by (auto simp: pf_view_def Let_def split: if_splits)

lemma pf_inv_page_size: "pf_inv n pf \<Longrightarrow> ps_get (pf_page_size pf) = n"
  by (simp add: pf_inv_def)

lemma pf_inv_pos: "pf_inv n pf \<Longrightarrow> 4096 \<le> n"
  using page_size_wf_bounds(1)[of "PageSize n"] by (simp add: pf_inv_def)

lemma pf_inv_update [simp]: "pf_inv n (pf\<lparr>pf_file := f\<rparr>) \<longleftrightarrow> pf_inv n pf"
  by (simp add: pf_inv_def)

lemma allocate_page_wf: "pf_inv n pf \<Longrightarrow> page_wf n (PageFile_allocate_page pf)"
  using Page_new_wf[of "PageSize n"] by (simp add: PageFile_allocate_page_def pf_inv_def)

lemma addressable_slot:
  assumes "addressable n pid" and "4096 \<le> n"
  shows "unat (byte_offset pid n) = unat (pid_get pid) * n"
    and "unat (byte_offset pid n) + n \<le> 2 ^ 64"
  using unat_byte_offset[of n pid] assms by (simp_all add: addressable_def)

section \<open>Reading\<close>

lemma read_into_correct:
  assumes read: "PageFile_read_into pf pid p = (r, p', pf')"
    and inv: "pf_inv n pf" and wf: "page_wf n p" and addr: "addressable n pid"
  shows "pf_inv n pf'" and "page_wf n p'" and "pf_data pf' = pf_data pf"
    and "f_durable (pf_file pf') = f_durable (pf_file pf)"
    and "set (pf_sched pf') \<subseteq> set (pf_sched pf)"
    and "r = Inr () \<Longrightarrow> pf_view n pf pid = Some (as_bytes p')"
    and "pf_view n pf pid = Some bs \<Longrightarrow> r = Inr () \<or> (\<exists>e. r = Inl (Io e))"
    and "r = Inl (Io e) \<Longrightarrow> e \<noteq> Interrupted \<and> Fail e \<in> set (pf_sched pf)"
    and "r = Inl (ShortRead i got m) \<Longrightarrow> i = pid_get pid \<and> m = n \<and> got < n
           \<and> got = length (pf_data pf) - unat (pid_get pid) * n"
    and "(\<exists>e. r = Inl (Io e)) \<or> (if length (pf_data pf) - unat (pid_get pid) * n < n
        then r = Inl (ShortRead (pid_get pid) (length (pf_data pf) - unat (pid_get pid) * n) n)
        else as_bytes p' = slice (unat (pid_get pid) * n) n (pf_data pf) \<and> r = verify p' (Some pid))"
proof -
  have n: "4096 \<le> n" using inv by (rule pf_inv_pos)
  note slot = addressable_slot[OF addr n]
  note len = page_wf_length[OF wf]
  obtain res buf f' where full:
    "read_at_full (pf_file pf) (as_bytes p) (byte_offset pid n) = (res, buf, f')"
    by (metis prod_cases3)
  note io = read_at_full_correct[OF full, unfolded len, OF slot(2)]
  have p': "p' = as_bytes_mut (\<lambda>_. buf) p" and pf': "pf' = pf\<lparr>pf_file := f'\<rparr>"
    and r: "r = (case res of Inl e \<Rightarrow> Inl (Io e)
      | Inr got \<Rightarrow> if got \<noteq> n then Inl (ShortRead (pid_get pid) got n)
          else verify p' (Some pid))"
    using read full page_wf_size[OF wf] pf_inv_page_size[OF inv]
    by (auto simp: PageFile_read_into_def Page_page_size_def Let_def split: sum.splits if_splits)
  show "pf_inv n pf'" using inv by (simp add: pf')
  show wf': "page_wf n p'" using wf io(4) len by (simp add: p' page_wf_as_bytes_mut)
  have bytes': "as_bytes p' = buf" by (simp add: p' as_bytes_as_bytes_mut)
  show "pf_data pf' = pf_data pf" and "f_durable (pf_file pf') = f_durable (pf_file pf)"
    and "set (pf_sched pf') \<subseteq> set (pf_sched pf)"
    using io(1-3) by (simp_all add: pf')
  have slotbytes: "buf = slice (unat (pid_get pid) * n) n (pf_data pf)" if "res = Inr n"
    using io(4) io(5)[of n] that slot(1) by simp
  have short: "res = Inr n \<longleftrightarrow> length (slice (unat (pid_get pid) * n) n (pf_data pf)) = n"
    if "res = Inr got" for got
    using io(5)[OF that] that slot(1) by (auto simp: slice_def min_def)
  have ok: "verify p' (Some pid) = Inr () \<longleftrightarrow> stamped_for pid buf"
    by (simp add: verify_ok_iff stamped_for_def bytes')
  show "r = Inr () \<Longrightarrow> pf_view n pf pid = Some (as_bytes p')"
    using slotbytes short ok io(4) by (auto simp: r pf_view_def bytes' Let_def split: sum.splits if_splits)
  show "r = Inr () \<or> (\<exists>e. r = Inl (Io e))" if "pf_view n pf pid = Some bs"
  proof (cases res)
    case (Inl e) then show ?thesis by (simp add: r)
  next
    case (Inr got)
    have resn: "res = Inr n" using short[OF Inr] pf_view_SomeD[OF that] by metis
    then have "stamped_for pid buf" using slotbytes pf_view_SomeD[OF that] by metis
    then show ?thesis using ok resn by (simp add: r)
  qed
  have not_io: "verify p' (Some pid) \<noteq> Inl (Io e)" "verify p' (Some pid) \<noteq> Inl (ShortRead i got m)"
    for e i got m
    by (simp_all add: verify_def Let_def)
  show "r = Inl (Io e) \<Longrightarrow> e \<noteq> Interrupted \<and> Fail e \<in> set (pf_sched pf)"
    using io(6)[of e] not_io by (auto simp: r split: sum.splits if_splits)
  show "r = Inl (ShortRead i got m) \<Longrightarrow> i = pid_get pid \<and> m = n \<and> got < n
           \<and> got = length (pf_data pf) - unat (pid_get pid) * n"
    using io(5) not_io slot(1) by (auto simp: r min_def split: sum.splits if_splits)
  show "(\<exists>e. r = Inl (Io e)) \<or> (if length (pf_data pf) - unat (pid_get pid) * n < n
        then r = Inl (ShortRead (pid_get pid) (length (pf_data pf) - unat (pid_get pid) * n) n)
        else as_bytes p' = slice (unat (pid_get pid) * n) n (pf_data pf) \<and> r = verify p' (Some pid))"
  proof (cases res)
    case (Inl e)
    then show ?thesis by (simp add: r)
  next
    case (Inr got)
    then have "got = min n (length (pf_data pf) - unat (pid_get pid) * n)" using io(5) slot(1) by simp
    then show ?thesis using Inr slotbytes by (simp add: r bytes' min_def)
  qed
qed

lemma read_into_not_exhausted: "PageFile_read_into pf pid p \<noteq> (Inl (BufferPoolExhausted c), p', pf')"
  by (auto simp: PageFile_read_into_def verify_def Let_def split: prod.splits sum.splits option.splits)

section \<open>Writing\<close>

lemma write_page_correct:
  assumes wr: "PageFile_write_page pf pid p = (r, p', pf')"
    and inv: "pf_inv n pf" and wf: "page_wf n p" and addr: "addressable n pid"
  shows "pf_inv n pf'" and "page_wf n p'" and "p' = stamp pid p"
    and "f_durable (pf_file pf') = f_durable (pf_file pf)"
    and "set (pf_sched pf') \<subseteq> set (pf_sched pf)"
    and "\<exists>k \<le> n. pf_data pf' = file_write (unat (pid_get pid) * n) (take k (as_bytes p')) (pf_data pf)
           \<and> (r = Inr () \<longrightarrow> k = n)"
    and "r = Inl err \<Longrightarrow> \<exists>e. err = Io e \<and> e \<noteq> Interrupted
           \<and> (e = WriteZero \<and> Transfer 0 \<in> set (pf_sched pf) \<or> Fail e \<in> set (pf_sched pf))"
proof -
  have n: "4096 \<le> n" using inv by (rule pf_inv_pos)
  note slot = addressable_slot[OF addr n]
  obtain res f' where full:
    "write_all_at (pf_file pf) (as_bytes (stamp pid p)) (byte_offset pid n) = (res, f')"
    by (metis prod.exhaust)
  have wf': "page_wf n (stamp pid p)" using wf by (rule stamp_wf)
  note io = write_all_at_correct[OF full, unfolded page_wf_length[OF wf'], OF slot(2)]
  have p': "p' = stamp pid p" and pf': "pf' = pf\<lparr>pf_file := f'\<rparr>" and r: "r = from_io res"
    using wr full page_wf_size[OF wf] pf_inv_page_size[OF inv]
    by (auto simp: PageFile_write_page_def Page_page_size_def Let_def)
  show "pf_inv n pf'" and "page_wf n p'" and "p' = stamp pid p"
    using inv wf' by (simp_all add: pf' p')
  show "f_durable (pf_file pf') = f_durable (pf_file pf)"
    and "set (pf_sched pf') \<subseteq> set (pf_sched pf)"
    using io(1,2) by (simp_all add: pf')
  show "\<exists>k \<le> n. pf_data pf' = file_write (unat (pid_get pid) * n) (take k (as_bytes p')) (pf_data pf)
           \<and> (r = Inr () \<longrightarrow> k = n)"
    using io(3) slot(1) by (simp add: pf' p' r)
  show "r = Inl err \<Longrightarrow> \<exists>e. err = Io e \<and> e \<noteq> Interrupted
           \<and> (e = WriteZero \<and> Transfer 0 \<in> set (pf_sched pf) \<or> Fail e \<in> set (pf_sched pf))"
    using io(4) by (auto simp: r from_io_def split: sum.splits)
qed

text \<open>Whatever the outcome, a write changes no byte of the file outside its slot.\<close>

lemma write_page_isolated:
  assumes wr: "PageFile_write_page pf pid p = (r, p', pf')"
    and inv: "pf_inv n pf" and wf: "page_wf n p" and addr: "addressable n pid"
    and other: "a + m \<le> unat (pid_get pid) * n \<or> (unat (pid_get pid) + 1) * n \<le> a"
    and inside: "a + m \<le> length (pf_data pf)"
  shows "slice a m (pf_data pf') = slice a m (pf_data pf)"
proof -
  obtain k where k: "k \<le> n"
    "pf_data pf' = file_write (unat (pid_get pid) * n) (take k (as_bytes p')) (pf_data pf)"
    using write_page_correct(6)[OF wr inv wf addr] by auto
  have "length (take k (as_bytes p')) \<le> n" by (simp add: k(1) min.coboundedI2)
  then show ?thesis
    using other inside unfolding k(2) by (intro slice_file_write_other) auto
qed

lemma write_page_view_other:
  assumes wr: "PageFile_write_page pf pid p = (r, p', pf')"
    and inv: "pf_inv n pf" and wf: "page_wf n p" and addr: "addressable n pid"
    and "i \<noteq> pid" and view: "pf_view n pf i = Some bs"
  shows "pf_view n pf' i = Some bs"
proof -
  let ?a = "unat (pid_get i) * n"
  have "unat (pid_get i) \<noteq> unat (pid_get pid)"
    using \<open>i \<noteq> pid\<close> by (metis page_id.expand word_unat_eq_iff)
  then have other: "?a + n \<le> unat (pid_get pid) * n \<or> (unat (pid_get pid) + 1) * n \<le> ?a"
    using slots_disjoint[of "unat (pid_get i)" "unat (pid_get pid)" n] by (simp add: add.commute)
  have bs: "length bs = n" "stamped_for i bs" "bs = slice ?a n (pf_data pf)"
    using pf_view_SomeD[OF view] by blast+
  have "n \<le> length (pf_data pf) - ?a"
    using bs(1,3) by (auto simp: slice_def min_def split: if_splits)
  then have "?a + n \<le> length (pf_data pf)"
    using pf_inv_pos[OF inv] by linarith
  then have "slice ?a n (pf_data pf') = bs"
    using write_page_isolated[OF wr inv wf addr other] bs(3) by simp
  then show ?thesis using bs by (simp add: pf_view_def Let_def)
qed

lemma write_page_view_same:
  assumes wr: "PageFile_write_page pf pid p = (Inr (), p', pf')"
    and inv: "pf_inv n pf" and wf: "page_wf n p" and addr: "addressable n pid"
  shows "pf_view n pf' pid = Some (as_bytes (stamp pid p))"
proof -
  note res = write_page_correct[OF wr inv wf addr]
  have len: "length (as_bytes p') = n" "32 \<le> n"
    using page_wf_length[OF res(2)] pf_inv_pos[OF inv] by simp_all
  then have "pf_data pf' = file_write (unat (pid_get pid) * n) (as_bytes p') (pf_data pf)"
    using res(6) by auto
  moreover have "as_bytes p' \<noteq> []" using len by auto
  ultimately have "slice (unat (pid_get pid) * n) n (pf_data pf') = as_bytes p'"
    using slice_file_write_same[of "as_bytes p'"] len by simp
  moreover have "stamped_for pid (as_bytes p')"
    using res(3) stamped_for_stamp[of "as_bytes p" pid] len page_wf_length[OF wf]
    by (simp add: as_bytes_stamp)
  ultimately show ?thesis using len res(3) by (simp add: pf_view_def Let_def)
qed

lemma sync_correct:
  assumes "PageFile_sync pf = (r, pf')"
  shows "pf_inv n pf' \<longleftrightarrow> pf_inv n pf" and "pf_data pf' = pf_data pf"
    and "pf_view n pf' = pf_view n pf"
    and "set (pf_sched pf') \<subseteq> set (pf_sched pf)"
    and "r = Inr () \<Longrightarrow> f_durable (pf_file pf') = pf_data pf"
    and "r = Inl err \<Longrightarrow> f_durable (pf_file pf') = f_durable (pf_file pf)
           \<and> (\<exists>e. err = Io e \<and> Fail e \<in> set (pf_sched pf))"
proof -
  obtain res f' where s: "sync_data (pf_file pf) = (res, f')" by (metis prod.exhaust)
  note io = sync_data_frame[OF s]
  have pf': "pf' = pf\<lparr>pf_file := f'\<rparr>" and r: "r = from_io res"
    using assms s by (auto simp: PageFile_sync_def)
  show "pf_inv n pf' \<longleftrightarrow> pf_inv n pf" and data: "pf_data pf' = pf_data pf"
    and "set (pf_sched pf') \<subseteq> set (pf_sched pf)"
    using io(1,2) by (simp_all add: pf')
  from data show "pf_view n pf' = pf_view n pf" by (intro ext) (simp add: pf_view_def)
  show "r = Inr () \<Longrightarrow> f_durable (pf_file pf') = pf_data pf"
    using io(3) by (simp add: pf' r)
  show "r = Inl err \<Longrightarrow> f_durable (pf_file pf') = f_durable (pf_file pf)
           \<and> (\<exists>e. err = Io e \<and> Fail e \<in> set (pf_sched pf))"
    using io(4) by (auto simp: pf' r from_io_def split: sum.splits)
qed

text \<open>
  A schedule without hard failures: short transfers of at least one byte and
  interruptions only.
\<close>

definition benign :: "io_outcome list \<Rightarrow> bool" where
  "benign es \<longleftrightarrow> (\<forall>x \<in> set es. x = Fail Interrupted \<or> (\<exists>k. x = Transfer (Suc k)))"

lemma benign_not_fail: "benign es \<Longrightarrow> e \<noteq> Interrupted \<Longrightarrow> Fail e \<notin> set es"
  and benign_not_zero: "benign es \<Longrightarrow> Transfer 0 \<notin> set es"
  by (auto simp: benign_def)

lemma benign_subset: "benign es \<Longrightarrow> set fs \<subseteq> set es \<Longrightarrow> benign fs"
  by (auto simp: benign_def)

lemma write_page_benign:
  assumes "pf_inv n pf" and "page_wf n p" and "addressable n pid" and "benign (pf_sched pf)"
  shows "\<exists>pf'. PageFile_write_page pf pid p = (Inr (), stamp pid p, pf') \<and> pf_inv n pf'
    \<and> benign (pf_sched pf') \<and> pf_view n pf' pid = Some (as_bytes (stamp pid p))"
proof -
  obtain r p' pf' where wr: "PageFile_write_page pf pid p = (r, p', pf')"
    by (metis prod_cases3)
  note res = write_page_correct[OF wr assms(1-3)]
  have "r = Inr ()"
    using res(7) benign_not_fail[OF assms(4)] benign_not_zero[OF assms(4)] by (cases r) fastforce+
  then show ?thesis
    using wr res(1,3) benign_subset[OF assms(4) res(5)]
      write_page_view_same[OF _ assms(1-3)] by auto
qed

lemma read_into_benign:
  assumes "pf_inv n pf" and "page_wf n p" and "addressable n pid" and "benign (pf_sched pf)"
    and "pf_view n pf pid = Some bs"
  shows "\<exists>p' pf'. PageFile_read_into pf pid p = (Inr (), p', pf') \<and> as_bytes p' = bs
    \<and> page_wf n p' \<and> pf_inv n pf' \<and> pf_data pf' = pf_data pf \<and> benign (pf_sched pf')"
proof -
  obtain r p' pf' where read: "PageFile_read_into pf pid p = (r, p', pf')"
    by (metis prod_cases3)
  note res = read_into_correct[OF read assms(1-3)]
  have "r = Inr ()"
    using res(7)[OF assms(5)] res(8) benign_not_fail[OF assms(4)] by blast
  then show ?thesis
    using read res benign_subset[OF assms(4) res(5)] assms(5) by auto
qed

section \<open>Properties\<close>

text \<open>A page file of 4 KiB pages over an empty file, for the witnesses.\<close>

definition empty_page_file :: page_file where
  "empty_page_file = \<lparr>pf_file = empty_file, pf_page_size = PageSize 4096\<rparr>"

lemma empty_page_file [simp]:
  "pf_inv 4096 empty_page_file" "benign (pf_sched empty_page_file)" "addressable 4096 (PageId 3)"
  "pf_data empty_page_file = []" "f_durable (pf_file empty_page_file) = []"
  by (simp_all add: empty_page_file_def pf_inv_def benign_def empty_file_def addressable_def)

text \<open>C30: under any schedule of short transfers and interruptions, a page written to a slot is
  read back into any buffer exactly as stamped.\<close>

theorem write_then_read:
  assumes "pf_inv n pf" and "page_wf n p" and "page_wf n q" and "addressable n pid"
    and "benign (pf_sched pf)"
  shows "\<exists>pf1 q' pf2. PageFile_write_page pf pid p = (Inr (), stamp pid p, pf1)
    \<and> PageFile_read_into pf1 pid q = (Inr (), q', pf2) \<and> q' = stamp pid p"
proof -
  obtain pf1 where w: "PageFile_write_page pf pid p = (Inr (), stamp pid p, pf1)"
    "pf_inv n pf1" "benign (pf_sched pf1)" "pf_view n pf1 pid = Some (as_bytes (stamp pid p))"
    using write_page_benign[OF assms(1,2,4,5)] by blast
  obtain q' pf2 where r: "PageFile_read_into pf1 pid q = (Inr (), q', pf2)"
    "as_bytes q' = as_bytes (stamp pid p)" "page_wf n q'"
    using read_into_benign[OF w(2) assms(3,4) w(3,4)] by blast
  then show ?thesis using w(1) page_wf_unique[OF r(3) stamp_wf[OF assms(2)] r(2)] by blast
qed

theorem write_then_read_witness:
  "\<exists>pf1 q' pf2. PageFile_read_into pf1 (PageId 3) (Page_new (PageSize 4096)) = (Inr (), q', pf2)"
  using write_then_read[OF _ Page_new_4096 Page_new_4096, of empty_page_file "PageId 3"] by auto

text \<open>C32: a write to an addressable id that fails half way, or succeeds, changes no byte of the
  file outside the slot it was given, and every other slot that held a valid page still holds it.\<close>

theorem writes_are_isolated:
  assumes "PageFile_write_page pf pid p = (r, p', pf')"
    and "pf_inv n pf" and "page_wf n p" and "addressable n pid"
  shows "(\<forall>a m. a + m \<le> unat (pid_get pid) * n \<or> (unat (pid_get pid) + 1) * n \<le> a \<longrightarrow>
        a + m \<le> length (pf_data pf) \<longrightarrow> slice a m (pf_data pf') = slice a m (pf_data pf))
    \<and> (\<forall>i bs. i \<noteq> pid \<longrightarrow> pf_view n pf i = Some bs \<longrightarrow> pf_view n pf' i = Some bs)"
  using write_page_isolated[OF assms] write_page_view_other[OF assms] by blast

text \<open>The witness: page 3 is written, and then a write to its neighbour 2 that breaks off.\<close>

theorem writes_are_isolated_witness:
  "\<exists>pf1 r p' pf2. PageFile_write_page empty_page_file (PageId 3) (Page_new (PageSize 4096))
      = (Inr (), stamp (PageId 3) (Page_new (PageSize 4096)), pf1)
    \<and> PageFile_write_page (pf1\<lparr>pf_file := (pf_file pf1)\<lparr>f_sched := [Transfer 100, Fail (OsError 5)]\<rparr>\<rparr>)
        (PageId 2) (Page_new (PageSize 4096)) = (r, p', pf2)
    \<and> pf_view 4096 pf2 (PageId 3) = Some (as_bytes (stamp (PageId 3) (Page_new (PageSize 4096))))
    \<and> slice (3 * 4096) 4096 (pf_data pf2) = slice (3 * 4096) 4096 (pf_data pf1)"
proof -
  let ?p = "Page_new (PageSize 4096)"
  have a2: "addressable 4096 (PageId 2)" by (simp add: addressable_def)
  obtain pf1 where w1: "PageFile_write_page empty_page_file (PageId 3) ?p = (Inr (), stamp (PageId 3) ?p, pf1)"
    "pf_inv 4096 pf1" "pf_view 4096 pf1 (PageId 3) = Some (as_bytes (stamp (PageId 3) ?p))"
    using write_page_benign[OF empty_page_file(1) Page_new_4096 empty_page_file(3,2)] by blast
  let ?pf = "pf1\<lparr>pf_file := (pf_file pf1)\<lparr>f_sched := [Transfer 100, Fail (OsError 5)]\<rparr>\<rparr>"
  obtain r p' pf2 where w2: "PageFile_write_page ?pf (PageId 2) ?p = (r, p', pf2)" by (metis prod_cases3)
  have inv: "pf_inv 4096 ?pf" using w1(2) by simp
  note iso = writes_are_isolated[OF w2 inv Page_new_4096 a2]
  have view: "pf_view 4096 ?pf (PageId 3) = Some (as_bytes (stamp (PageId 3) ?p))"
    using w1(3) by (simp add: pf_view_def)
  then have "length (slice (3 * 4096) 4096 (pf_data pf1)) = 4096"
    by (auto simp: pf_view_def Let_def split: if_splits)
  then have "3 * 4096 + 4096 \<le> length (pf_data pf1)" by (simp add: slice_def)
  with iso have "slice (3 * 4096) 4096 (pf_data pf2) = slice (3 * 4096) 4096 (pf_data pf1)" by simp
  moreover have "pf_view 4096 pf2 (PageId 3) = Some (as_bytes (stamp (PageId 3) ?p))"
    using iso view by simp
  ultimately show ?thesis using w1(1) w2 by blast
qed

text \<open>C31: on an addressable id, a read either reports an I/O error, and then one the system dealt
  out; or, when the file ends inside the slot, ShortRead with the id and exactly the number of
  bytes that are there; or it has filled the buffer with the bytes of the slot and answers what
  their verification for the slot answers.  It returns Ok only when the slot holds a whole page
  stamped for it, and never changes the file.\<close>

theorem reads_are_verified:
  assumes "PageFile_read_into pf pid p = (r, p', pf')"
    and "pf_inv n pf" and "page_wf n p" and "addressable n pid"
  shows "pf_data pf' = pf_data pf \<and> page_wf n p'
    \<and> ((\<exists>e. r = Inl (Io e)) \<or> (if length (pf_data pf) - unat (pid_get pid) * n < n
        then r = Inl (ShortRead (pid_get pid) (length (pf_data pf) - unat (pid_get pid) * n) n)
        else as_bytes p' = slice (unat (pid_get pid) * n) n (pf_data pf) \<and> r = verify p' (Some pid)))
    \<and> (r = Inr () \<longrightarrow> pf_view n pf pid = Some (as_bytes p'))
    \<and> (\<forall>bs. pf_view n pf pid = Some bs \<longrightarrow> r = Inr () \<or> (\<exists>e. r = Inl (Io e)))
    \<and> (\<forall>e. r = Inl (Io e) \<longrightarrow> e \<noteq> Interrupted \<and> Fail e \<in> set (pf_sched pf))
    \<and> (\<forall>i got m. r = Inl (ShortRead i got m) \<longrightarrow> i = pid_get pid \<and> m = n \<and> got < n
         \<and> got = length (pf_data pf) - unat (pid_get pid) * n)"
  using read_into_correct[OF assms] by blast

theorem reads_are_verified_witness:
  "\<exists>p' pf'. PageFile_read_into empty_page_file (PageId 3) (Page_new (PageSize 4096))
    = (Inl (ShortRead 3 0 4096), p', pf')"
proof -
  obtain r p' pf' where
    rd: "PageFile_read_into empty_page_file (PageId 3) (Page_new (PageSize 4096)) = (r, p', pf')"
    by (metis prod_cases3)
  have "pf_sched empty_page_file = []" by (simp add: empty_page_file_def empty_file_def)
  then have "r = Inl (ShortRead 3 0 4096)"
    using reads_are_verified[OF rd empty_page_file(1) Page_new_4096 empty_page_file(3)] by auto
  then show ?thesis using rd by blast
qed

text \<open>A sync that returns Ok makes exactly the current content durable; one that fails
  changes nothing; a write by itself makes nothing durable.\<close>

lemma sync_makes_durable:
  assumes "PageFile_write_page pf pid p = (w, p', pf1)"
    and "pf_inv n pf" and "page_wf n p" and "addressable n pid"
    and "PageFile_sync pf1 = (r, pf2)"
  shows "f_durable (pf_file pf1) = f_durable (pf_file pf) \<and> pf_data pf2 = pf_data pf1
    \<and> (r = Inr () \<longrightarrow> f_durable (pf_file pf2) = pf_data pf1)
    \<and> (r \<noteq> Inr () \<longrightarrow> f_durable (pf_file pf2) = f_durable (pf_file pf))"
  using write_page_correct(4)[OF assms(1-4)] sync_correct[OF assms(5)] by (cases r) auto

text \<open>C38: beyond the addressable ids the unchecked product of byte_offset wraps: on a file of
  4 KiB pages, a successful write to id 2 to the 52 lands on slot 0, and reading page 0
  afterwards answers MisdirectedPage; the write itself reports no error.\<close>

theorem offset_wrap_overwrites_slot_zero:
  assumes "pf_inv 4096 pf" and "pf_sched pf = []" and "page_wf 4096 p" and "page_wf 4096 q"
  shows "\<exists>pf1 q' pf2. PageFile_write_page pf (PageId (2 ^ 52)) p = (Inr (), stamp (PageId (2 ^ 52)) p, pf1)
    \<and> slice 0 4096 (pf_data pf1) = as_bytes (stamp (PageId (2 ^ 52)) p)
    \<and> PageFile_read_into pf1 (PageId 0) q = (Inl (MisdirectedPage 0 (2 ^ 52)), q', pf2)"
proof -
  let ?id = "PageId (2 ^ 52)"
  let ?p = "stamp ?id p"
  have off: "byte_offset ?id 4096 = 0" "byte_offset (PageId 0) 4096 = 0"
    by (simp_all add: byte_offset_def)
  have wf: "page_wf 4096 ?p" using assms(3) by (rule stamp_wf)
  note len = page_wf_length[OF wf] page_wf_length[OF assms(4)]
  obtain r f' where full: "write_all_at (pf_file pf) (as_bytes ?p) 0 = (r, f')"
    by (metis prod.exhaust)
  note io = write_all_at_correct[OF full]
  have r: "r = Inr ()" using io(4) assms(2) len by (cases r) auto
  let ?pf1 = "pf\<lparr>pf_file := f'\<rparr>"
  have w: "PageFile_write_page pf ?id p = (Inr (), ?p, ?pf1)"
    using full r off page_wf_size[OF assms(3)] pf_inv_page_size[OF assms(1)]
    by (simp add: PageFile_write_page_def Page_page_size_def from_io_def Let_def)
  have "f_data f' = file_write 0 (as_bytes ?p) (f_data (pf_file pf))"
    using io(3) r len by auto
  moreover have "as_bytes ?p \<noteq> []" using len by auto
  ultimately have data: "slice 0 4096 (f_data f') = as_bytes ?p"
    using slice_file_write_same[of "as_bytes ?p" 0] len by simp
  obtain res buf f2 where full2: "read_at_full f' (as_bytes q) 0 = (res, buf, f2)"
    by (metis prod_cases3)
  note io2 = read_at_full_correct[OF full2]
  have sched: "f_sched f' = []" using io(2) assms(2) len by auto
  have "length (slice 0 4096 (f_data f')) = 4096" using data len by simp
  then have "4096 \<le> length (f_data f')" by (simp add: slice_def)
  then have got: "res = Inr 4096" "take 4096 buf = slice 0 4096 (f_data f')"
    using io2(5,6) sched len by (cases res; fastforce)+
  then have buf: "buf = as_bytes ?p" using io2(4) len data by simp
  let ?q = "as_bytes_mut (\<lambda>_. buf) q"
  have "?q = ?p"
    by (intro page_wf_unique[of 4096]) (use wf assms(4) buf len in
        \<open>auto simp: as_bytes_as_bytes_mut intro!: page_wf_as_bytes_mut\<close>)
  then have "verify ?q (Some (PageId 0)) = Inl (MisdirectedPage 0 (2 ^ 52))"
    using verify_stamp_other[OF assms(3), of ?id "PageId 0"] by simp
  then have "PageFile_read_into ?pf1 (PageId 0) q =
      (Inl (MisdirectedPage 0 (2 ^ 52)), ?q, pf\<lparr>pf_file := f2\<rparr>)"
    using full2 got off page_wf_size[OF assms(4)] pf_inv_page_size[OF assms(1)]
    by (simp add: PageFile_read_into_def Page_page_size_def Let_def)
  with w data show ?thesis by auto
qed

theorem offset_wrap_overwrites_slot_zero_witness:
  "\<exists>pf1. PageFile_write_page empty_page_file (PageId (2 ^ 52)) (Page_new (PageSize 4096))
      = (Inr (), stamp (PageId (2 ^ 52)) (Page_new (PageSize 4096)), pf1)"
  using offset_wrap_overwrites_slot_zero[of empty_page_file "Page_new (PageSize 4096)"
      "Page_new (PageSize 4096)"] Page_new_4096
  by (auto simp: empty_page_file_def pf_inv_def empty_file_def)

end
