(* ===== verification/PageStore.thy ===== *)
theory PageStore
  imports PageFile
begin

text \<open>
  The storage seam (\<^verbatim>\<open>src/store.rs\<close>).  The trait \<^verbatim>\<open>PageStore\<close> is a record of
  operations over a store type \<open>'s\<close>, so that the pool and the allocator, generic
  over it in the source, take it as an argument.  The locale \<open>page_store\<close> is the
  contract they rely on, over an abstract view of the store (which valid page
  each slot holds); \<open>reliable_store\<close> adds that no operation fails.  Both are
  interpreted on the page file here, and on the in-memory store in its own
  theory.
\<close>

record 's store_ops =
  so_page_size :: "'s \<Rightarrow> nat"
  so_allocate_page :: "'s \<Rightarrow> page"
  so_read_into :: "'s \<Rightarrow> page_id \<Rightarrow> page \<Rightarrow> unit page_result \<times> page \<times> 's"
  so_write_page :: "'s \<Rightarrow> page_id \<Rightarrow> page \<Rightarrow> unit page_result \<times> page \<times> 's"
  so_sync :: "'s \<Rightarrow> unit page_result \<times> 's"

text \<open>\<^verbatim>\<open>impl PageStore for PageFile\<close>.\<close>

definition page_file_store :: "page_file store_ops" where
  "page_file_store =
    \<lparr>so_page_size = PageFile_page_size,
     so_allocate_page = PageFile_allocate_page,
     so_read_into = PageFile_read_into,
     so_write_page = PageFile_write_page,
     so_sync = PageFile_sync\<rparr>"

text \<open>
  \<^verbatim>\<open>impl PageStore for Arc<S>\<close>: every call goes to the one shared store.  A
  component that holds a clone of the \<^verbatim>\<open>Arc\<close> is given the current store and
  hands the changed one on.
\<close>

definition arc_store :: "'s store_ops \<Rightarrow> 's store_ops" where
  "arc_store inner =
    \<lparr>so_page_size = (\<lambda>s. so_page_size inner s),
     so_allocate_page = (\<lambda>s. so_allocate_page inner s),
     so_read_into = (\<lambda>s pid p. so_read_into inner s pid p),
     so_write_page = (\<lambda>s pid p. so_write_page inner s pid p),
     so_sync = (\<lambda>s. so_sync inner s)\<rparr>"

lemma arc_store_eq: "arc_store inner = (inner :: 's store_ops)"
  by (simp add: arc_store_def)

section \<open>The contract\<close>

locale page_store =
  fixes ops :: "'s store_ops"
    and n :: nat
    and inv :: "'s \<Rightarrow> bool"
    and ids :: "page_id \<Rightarrow> bool"
    and view :: "'s \<Rightarrow> page_id \<Rightarrow> bytes option"
  assumes allocate:
      "inv s \<Longrightarrow> page_wf n (so_allocate_page ops s) \<and> as_bytes (so_allocate_page ops s) = blank_bytes n"
    and view_stamped: "view s i = Some bs \<Longrightarrow> length bs = n \<and> stamped_for i bs"
    and read_frame:
      "inv s \<Longrightarrow> page_wf n p \<Longrightarrow> ids i \<Longrightarrow> so_read_into ops s i p = (r, p', s') \<Longrightarrow>
       inv s' \<and> page_wf n p' \<and> view s' = view s"
    and read_ok:
      "inv s \<Longrightarrow> page_wf n p \<Longrightarrow> ids i \<Longrightarrow> so_read_into ops s i p = (Inr (), p', s') \<Longrightarrow>
       view s i = Some (as_bytes p')"
    and read_view:
      "inv s \<Longrightarrow> page_wf n p \<Longrightarrow> ids i \<Longrightarrow> so_read_into ops s i p = (r, p', s') \<Longrightarrow>
       view s i = Some bs \<Longrightarrow> r = Inr () \<or> (\<exists>e. r = Inl (Io e))"
    and write_frame:
      "inv s \<Longrightarrow> page_wf n p \<Longrightarrow> ids i \<Longrightarrow> so_write_page ops s i p = (r, p', s') \<Longrightarrow>
       inv s' \<and> p' = stamp i p"
    and write_other:
      "inv s \<Longrightarrow> page_wf n p \<Longrightarrow> ids i \<Longrightarrow> so_write_page ops s i p = (r, p', s') \<Longrightarrow>
       ids j \<Longrightarrow> j \<noteq> i \<Longrightarrow> view s j = Some bs \<Longrightarrow> view s' j = Some bs"
    and write_ok:
      "inv s \<Longrightarrow> page_wf n p \<Longrightarrow> ids i \<Longrightarrow> so_write_page ops s i p = (Inr (), p', s') \<Longrightarrow>
       view s' i = Some (as_bytes (stamp i p))"
    and write_err:
      "inv s \<Longrightarrow> page_wf n p \<Longrightarrow> ids i \<Longrightarrow> so_write_page ops s i p = (Inl err, p', s') \<Longrightarrow>
       \<exists>e. err = Io e"
    and sync_frame:
      "inv s \<Longrightarrow> so_sync ops s = (r, s') \<Longrightarrow> inv s' \<and> view s' = view s"
    and sync_err: "inv s \<Longrightarrow> so_sync ops s = (Inl err, s') \<Longrightarrow> \<exists>e. err = Io e"
begin

lemma view_fixed: "view s i = Some bs \<Longrightarrow> 32 \<le> n \<Longrightarrow> stamp_bytes (pid_get i) bs = bs"
  using view_stamped[of s i bs] by (simp add: stamp_bytes_fix_iff stamped_for_def)

lemma read_ok_bytes:
  "inv s \<Longrightarrow> page_wf n p \<Longrightarrow> ids i \<Longrightarrow> so_read_into ops s i p = (Inr (), p', s') \<Longrightarrow>
   view s i = Some bs \<Longrightarrow> as_bytes p' = bs"
  using read_ok by fastforce

text \<open>A page that was read for slot \<open>i\<close> is already stamped for it.\<close>

lemma read_ok_stamp:
  assumes "inv s" and "page_wf n p" and "ids i" and "so_read_into ops s i p = (Inr (), p', s')"
  shows "stamp i p' = p'"
proof -
  have wf: "page_wf n p'" using read_frame[OF assms] by simp
  have "view s i = Some (as_bytes p')" by (rule read_ok[OF assms])
  then have "as_bytes (stamp i p') = as_bytes p'"
    using view_fixed page_wf_bounds(1)[OF wf] by (simp add: as_bytes_stamp)
  then show ?thesis using page_wf_unique[OF stamp_wf[OF wf] wf] by simp
qed

end

locale reliable_store = page_store +
  assumes read_total:
      "inv s \<Longrightarrow> page_wf n p \<Longrightarrow> ids i \<Longrightarrow> view s i = Some bs \<Longrightarrow>
       so_read_into ops s i p = (r, p', s') \<Longrightarrow> r = Inr ()"
    and write_total:
      "inv s \<Longrightarrow> page_wf n p \<Longrightarrow> ids i \<Longrightarrow> so_write_page ops s i p = (r, p', s') \<Longrightarrow> r = Inr ()"
    and sync_total: "inv s \<Longrightarrow> so_sync ops s = (r, s') \<Longrightarrow> r = Inr ()"

section \<open>Page files keep the contract\<close>

lemma as_bytes_allocate_page:
  "pf_inv n pf \<Longrightarrow> as_bytes (PageFile_allocate_page pf) = blank_bytes n"
  using as_bytes_Page_new[of "PageSize n"] by (simp add: PageFile_allocate_page_def pf_inv_def)

lemma pf_view_cong: "pf_data pf = pf_data pf' \<Longrightarrow> pf_view n pf = pf_view n pf'"
  by (intro ext) (simp add: pf_view_def)

interpretation pf: page_store page_file_store n "pf_inv n" "addressable n" "pf_view n"
  for n
proof (unfold_locales, goal_cases)
  case (1 s)
  then show ?case by (simp add: page_file_store_def allocate_page_wf as_bytes_allocate_page)
next
  case (2 s i bs)
  then show ?case using pf_view_SomeD by blast
next
  case (3 s p i r p' s')
  then show ?case using read_into_correct(1-3)[of s i p r p' s' n] pf_view_cong[of s' s]
    by (simp add: page_file_store_def)
next
  case (4 s p i p' s')
  then show ?case using read_into_correct(6)[of s i p "Inr ()" p' s' n]
    by (simp add: page_file_store_def)
next
  case (5 s p i r p' s' bs)
  then show ?case using read_into_correct(7)[of s i p r p' s' n]
    by (simp add: page_file_store_def)
next
  case (6 s p i r p' s')
  then show ?case using write_page_correct(1,3)[of s i p r p' s' n]
    by (simp add: page_file_store_def)
next
  case (7 s p i r p' s' j bs)
  then show ?case using write_page_view_other[of s i p r p' s' n j bs]
    by (simp add: page_file_store_def)
next
  case (8 s p i p' s')
  then show ?case using write_page_view_same[of s i p p' s' n]
    by (simp add: page_file_store_def)
next
  case (9 s p i err p' s')
  then show ?case using write_page_correct(7)[of s i p "Inl err" p' s' n]
    by (auto simp: page_file_store_def)
next
  case (10 s r s')
  then show ?case using sync_correct(1,3)[of s r s' n] by (simp add: page_file_store_def)
next
  case (11 s err s')
  then show ?case using sync_correct(6)[of s "Inl err" s'] by (auto simp: page_file_store_def)
qed

text \<open>A page file whose schedule holds no hard failure is a reliable store.\<close>

definition pf_good :: "nat \<Rightarrow> page_file \<Rightarrow> bool" where
  "pf_good n pf \<longleftrightarrow> pf_inv n pf \<and> benign (pf_sched pf)"

lemma sync_benign: "PageFile_sync pf = (r, pf') \<Longrightarrow> benign (pf_sched pf) \<Longrightarrow> r = Inr ()"
proof -
  assume s: "PageFile_sync pf = (r, pf')" and b: "benign (pf_sched pf)"
  have "e = Interrupted \<or> sync_outcome es \<noteq> (Some e, rest)" if "benign es" for e es rest
    using sync_outcome_sched(2)[of es e rest] benign_not_fail[OF that] by blast
  with s b show "r = Inr ()"
    using sync_outcome_sched(2)[of "pf_sched pf"]
    by (auto simp: PageFile_sync_def sync_data_def split: prod.splits option.splits)
qed

interpretation pfr: reliable_store page_file_store n "pf_good n" "addressable n" "pf_view n"
  for n
proof (unfold_locales, goal_cases)
  case (1 s)
  then show ?case using pf.allocate by (simp add: pf_good_def)
next
  case (2 s i bs)
  then show ?case using pf.view_stamped by blast
next
  case (3 s p i r p' s')
  then show ?case
    using pf.read_frame[of n s p i r p' s'] read_into_correct(5)[of s i p r p' s' n]
    by (auto simp: pf_good_def page_file_store_def intro: benign_subset)
next
  case (4 s p i p' s')
  then show ?case using pf.read_ok[of n s p i p' s'] by (simp add: pf_good_def)
next
  case (5 s p i r p' s' bs)
  then show ?case using pf.read_view[of n s p i r p' s' bs] by (simp add: pf_good_def)
next
  case (6 s p i r p' s')
  then show ?case
    using pf.write_frame[of n s p i r p' s'] write_page_correct(5)[of s i p r p' s' n]
    by (auto simp: pf_good_def page_file_store_def intro: benign_subset)
next
  case (7 s p i r p' s' j bs)
  then show ?case using pf.write_other[of n s p i r p' s' j bs] by (simp add: pf_good_def)
next
  case (8 s p i p' s')
  then show ?case using pf.write_ok[of n s p i p' s'] by (simp add: pf_good_def)
next
  case (9 s p i err p' s')
  then show ?case using pf.write_err[of n s p i err p' s'] by (simp add: pf_good_def)
next
  case (10 s r s')
  then show ?case
    using pf.sync_frame[of n s r s'] sync_correct(4)[of s r s']
    by (auto simp: pf_good_def page_file_store_def intro: benign_subset)
next
  case (11 s err s')
  then show ?case using pf.sync_err[of n s err s'] by (simp add: pf_good_def)
next
  case (12 s p i bs r p' s')
  then show ?case using read_into_benign[of n s p i bs] by (auto simp: pf_good_def page_file_store_def)
next
  case (13 s p i r p' s')
  then show ?case using write_page_benign[of n s p i] by (auto simp: pf_good_def page_file_store_def)
next
  case (14 s r s')
  then show ?case using sync_benign by (auto simp: pf_good_def page_file_store_def)
qed

end
