(* ===== verification/MemStore.thy ===== *)
theory MemStore
  imports PageStore
begin

text \<open>
  The in-memory store of the test suites (\<^verbatim>\<open>src/test_store.rs\<close>): a map from ids to
  the checksummed bytes of the pages written.  The panics of its \<^verbatim>\<open>unwrap\<close> and
  \<^verbatim>\<open>copy_from_slice\<close> are excluded by its invariant.  It is a reliable store.
\<close>

record mem_store =
  ms_page_size :: nat
  ms_pages :: "u64 \<Rightarrow> bytes option"

definition MemStore_new :: "nat \<Rightarrow> mem_store" where
  "MemStore_new psize = \<lparr>ms_page_size = psize, ms_pages = Map.empty\<rparr>"

definition MemStore_contains :: "mem_store \<Rightarrow> u64 \<Rightarrow> bool" where
  "MemStore_contains ms i \<longleftrightarrow> ms_pages ms i \<noteq> None"

definition MemStore_allocate_page :: "mem_store \<Rightarrow> page" where
  "MemStore_allocate_page ms = Page_new (projr (PageSize_new (ms_page_size ms)))"

definition MemStore_read_into ::
  "mem_store \<Rightarrow> page_id \<Rightarrow> page \<Rightarrow> unit page_result \<times> page \<times> mem_store" where
  "MemStore_read_into ms pid p =
    (case ms_pages ms (pid_get pid) of
       Some bytes \<Rightarrow>
         (let p' = as_bytes_mut (splice 0 bytes) p in (verify p' (Some pid), p', ms))
     | None \<Rightarrow> (Inl (ShortRead (pid_get pid) 0 (ms_page_size ms)), p, ms))"

definition MemStore_write_page ::
  "mem_store \<Rightarrow> page_id \<Rightarrow> page \<Rightarrow> unit page_result \<times> page \<times> mem_store" where
  "MemStore_write_page ms pid p =
    (let p' = stamp pid p
     in (Inr (), p', ms\<lparr>ms_pages := (ms_pages ms)(pid_get pid \<mapsto> as_bytes p')\<rparr>))"

definition MemStore_sync :: "mem_store \<Rightarrow> unit page_result \<times> mem_store" where
  "MemStore_sync ms = (Inr (), ms)"

definition mem_store_ops :: "mem_store store_ops" where
  "mem_store_ops =
    \<lparr>so_page_size = ms_page_size,
     so_allocate_page = MemStore_allocate_page,
     so_read_into = MemStore_read_into,
     so_write_page = MemStore_write_page,
     so_sync = MemStore_sync\<rparr>"

definition ms_inv :: "nat \<Rightarrow> mem_store \<Rightarrow> bool" where
  "ms_inv n ms \<longleftrightarrow> ms_page_size ms = n \<and> page_size_wf (PageSize n)
     \<and> (\<forall>i bs. ms_pages ms i = Some bs \<longrightarrow> length bs = n)"

definition ms_view :: "nat \<Rightarrow> mem_store \<Rightarrow> page_id \<Rightarrow> bytes option" where
  "ms_view n ms pid =
    (case ms_pages ms (pid_get pid) of
       Some bs \<Rightarrow> if length bs = n \<and> stamped_for pid bs then Some bs else None
     | None \<Rightarrow> None)"

lemma ms_view_SomeD:
  "ms_view n ms pid = Some bs \<Longrightarrow> ms_pages ms (pid_get pid) = Some bs
     \<and> length bs = n \<and> stamped_for pid bs"
  by (auto simp: ms_view_def split: option.splits if_splits)

lemma ms_inv_ge: "ms_inv n ms \<Longrightarrow> 4096 \<le> n"
  using page_size_wf_bounds(1)[of "PageSize n"] by (simp add: ms_inv_def)

lemma MemStore_new_inv: "page_size_wf (PageSize n) \<Longrightarrow> ms_inv n (MemStore_new n)"
  by (simp add: ms_inv_def MemStore_new_def)

lemma mem_allocate:
  "ms_inv n ms \<Longrightarrow> page_wf n (MemStore_allocate_page ms)
     \<and> as_bytes (MemStore_allocate_page ms) = blank_bytes n"
  using Page_new_wf[of "PageSize n"] as_bytes_Page_new[of "PageSize n"]
  by (simp add: ms_inv_def MemStore_allocate_page_def page_size_wf_def)

lemma mem_read:
  assumes "MemStore_read_into ms pid p = (r, p', ms')" and "ms_inv n ms" and "page_wf n p"
  shows "ms' = ms" and "page_wf n p'"
    and "r = Inr () \<Longrightarrow> ms_view n ms pid = Some (as_bytes p')"
    and "ms_view n ms pid = Some bs \<Longrightarrow> r = Inr ()"
proof -
  have len: "length (as_bytes p) = n" using assms(3) by (rule page_wf_length)
  show "ms' = ms" using assms(1) by (auto simp: MemStore_read_into_def Let_def split: option.splits)
  have p': "p' = as_bytes_mut (splice 0 b) p" "as_bytes p' = b" "r = verify p' (Some pid)" "length b = n"
    if "ms_pages ms (pid_get pid) = Some b" for b
    using assms that len
    by (auto simp: MemStore_read_into_def Let_def ms_inv_def as_bytes_as_bytes_mut splice_all)
  show "page_wf n p'"
    using assms len p'
    by (cases "ms_pages ms (pid_get pid)")
      (auto simp: MemStore_read_into_def Let_def length_splice intro!: page_wf_as_bytes_mut)
  show "r = Inr () \<Longrightarrow> ms_view n ms pid = Some (as_bytes p')"
    using assms(1) p'
    by (cases "ms_pages ms (pid_get pid)")
      (auto simp: MemStore_read_into_def ms_view_def verify_ok_iff stamped_for_def)
  show "ms_view n ms pid = Some bs \<Longrightarrow> r = Inr ()"
    using p' by (auto dest!: ms_view_SomeD simp: verify_ok_iff stamped_for_def)
qed

lemma mem_write:
  assumes "MemStore_write_page ms pid p = (r, p', ms')" and "ms_inv n ms" and "page_wf n p"
  shows "r = Inr ()" and "p' = stamp pid p" and "ms_inv n ms'"
    and "ms_view n ms' pid = Some (as_bytes (stamp pid p))"
    and "j \<noteq> pid \<Longrightarrow> ms_view n ms' j = ms_view n ms j"
proof -
  have ms': "ms' = ms\<lparr>ms_pages := (ms_pages ms)(pid_get pid \<mapsto> as_bytes (stamp pid p))\<rparr>"
    and "r = Inr ()" and "p' = stamp pid p"
    using assms(1) by (auto simp: MemStore_write_page_def Let_def)
  then show "r = Inr ()" and "p' = stamp pid p" by simp_all
  have len: "length (as_bytes (stamp pid p)) = n" "32 \<le> n"
    using page_wf_length[OF stamp_wf[OF assms(3)]] ms_inv_ge[OF assms(2)] by simp_all
  show "ms_inv n ms'" using assms(2) len by (auto simp: ms' ms_inv_def)
  show "ms_view n ms' pid = Some (as_bytes (stamp pid p))"
    using len stamped_for_stamp[of "as_bytes p" pid] page_wf_length[OF assms(3)]
    by (simp add: ms' ms_view_def as_bytes_stamp)
  show "j \<noteq> pid \<Longrightarrow> ms_view n ms' j = ms_view n ms j"
    by (auto simp: ms' ms_view_def page_id.expand)
qed

interpretation ms: reliable_store mem_store_ops n "ms_inv n" "\<lambda>_. True" "ms_view n"
  for n
proof (unfold_locales, goal_cases)
  case (1 s)
  then show ?case using mem_allocate by (simp add: mem_store_ops_def)
next
  case (2 s i bs)
  then show ?case using ms_view_SomeD by blast
next
  case (3 s p i r p' s')
  then show ?case using mem_read(1,2)[of s i p r p' s' n] by (simp add: mem_store_ops_def)
next
  case (4 s p i p' s')
  then show ?case using mem_read(3)[of s i p _ p' s' n] by (simp add: mem_store_ops_def)
next
  case (5 s p i r p' s' bs)
  then show ?case using mem_read(4)[of s i p r p' s' n bs] by (simp add: mem_store_ops_def)
next
  case (6 s p i r p' s')
  then show ?case using mem_write(2,3)[of s i p r p' s' n] by (simp add: mem_store_ops_def)
next
  case (7 s p i r p' s' j bs)
  then show ?case using mem_write(5)[of s i p r p' s' n j] by (simp add: mem_store_ops_def)
next
  case (8 s p i p' s')
  then show ?case using mem_write(4)[of s i p _ p' s' n] by (simp add: mem_store_ops_def)
next
  case (9 s p i err p' s')
  then show ?case using mem_write(1)[of s i p _ p' s' n] by (simp add: mem_store_ops_def)
next
  case (10 s r s')
  then show ?case by (simp add: mem_store_ops_def MemStore_sync_def)
next
  case (11 s err s')
  then show ?case by (simp add: mem_store_ops_def MemStore_sync_def)
next
  case (12 s p i bs r p' s')
  then show ?case using mem_read(4)[of s i p r p' s' n bs] by (simp add: mem_store_ops_def)
next
  case (13 s p i r p' s')
  then show ?case using mem_write(1)[of s i p r p' s' n] by (simp add: mem_store_ops_def)
next
  case (14 s r s')
  then show ?case by (simp add: mem_store_ops_def MemStore_sync_def)
qed

end
