(* ===== verification/Pool.thy ===== *)
theory Pool
  imports MemStore
begin

text \<open>
  The buffer pool (\<^verbatim>\<open>src/pool.rs\<close>).  A frame is a record of its page and its
  residency bookkeeping; a guard, which in the source shares the frame it pins, is
  the frame's slot.  Every method runs under the pool's one mutex and is one
  function from the pool and the store to the result, the pool and the store.
  Pins are natural numbers: the count is the number of guards alive, far below
  the width of \<^verbatim>\<open>usize\<close>.  The order in which \<^verbatim>\<open>flush_all\<close> meets the entries of the
  \<^verbatim>\<open>HashMap\<close> is an argument.
\<close>

record frame =
  fr_page :: page
  fr_id :: u64
  fr_pin :: nat
  fr_dirty :: bool
  fr_referenced :: bool

record pool =
  bp_frames :: "frame list"
  bp_map :: "page_id \<Rightarrow> nat option"
  bp_free :: "nat list"
  bp_hand :: nat
  bp_capacity :: nat

definition POOL_NO_PAGE :: u64 where "POOL_NO_PAGE = 0xFFFFFFFFFFFFFFFF"

definition FrameInner_new :: "page \<Rightarrow> frame" where
  "FrameInner_new p =
    \<lparr>fr_page = p, fr_id = POOL_NO_PAGE, fr_pin = 0, fr_dirty = False, fr_referenced = False\<rparr>"

definition resident_id :: "frame \<Rightarrow> page_id" where
  "resident_id fr = PageId (fr_id fr)"

definition frame_at :: "pool \<Rightarrow> nat \<Rightarrow> frame" where
  "frame_at bp slot = bp_frames bp ! slot"

definition update_frame :: "nat \<Rightarrow> (frame \<Rightarrow> frame) \<Rightarrow> pool \<Rightarrow> pool" where
  "update_frame slot f bp = bp\<lparr>bp_frames := (bp_frames bp)[slot := f (frame_at bp slot)]\<rparr>"

definition BufferPool_new :: "'s store_ops \<Rightarrow> 's \<Rightarrow> nat \<Rightarrow> pool" where
  "BufferPool_new ops s capacity =
    (let capacity = max capacity 1
     in \<lparr>bp_frames = map (\<lambda>_. FrameInner_new (so_allocate_page ops s)) [0..<capacity],
         bp_map = Map.empty, bp_free = [0..<capacity], bp_hand = 0, bp_capacity = capacity\<rparr>)"

definition BufferPool_open ::
  "file_system \<Rightarrow> string \<Rightarrow> page_size \<Rightarrow> nat \<Rightarrow> (pool \<times> page_file) page_result \<times> file_system" where
  "BufferPool_open fs path ps capacity =
    (case PageFile_open fs path ps of
       (Inl e, fs') \<Rightarrow> (Inl e, fs')
     | (Inr file, fs') \<Rightarrow> (Inr (BufferPool_new page_file_store file capacity, file), fs'))"

definition resident_len :: "pool \<Rightarrow> nat" where
  "resident_len bp = card (dom (bp_map bp))"

definition is_resident :: "pool \<Rightarrow> page_id \<Rightarrow> bool" where
  "is_resident bp pid \<longleftrightarrow> bp_map bp pid \<noteq> None"

section \<open>Eviction\<close>

definition flush_slot ::
  "'s store_ops \<Rightarrow> nat \<Rightarrow> page_id \<Rightarrow> pool \<Rightarrow> 's \<Rightarrow> unit page_result \<times> pool \<times> 's" where
  "flush_slot ops slot pid bp s =
    (if fr_dirty (frame_at bp slot) then
       (case so_write_page ops s pid (fr_page (frame_at bp slot)) of
          (Inl e, p', s') \<Rightarrow> (Inl e, update_frame slot (\<lambda>fr. fr\<lparr>fr_page := p'\<rparr>) bp, s')
        | (Inr _, p', s') \<Rightarrow>
            (Inr (), update_frame slot (\<lambda>fr. fr\<lparr>fr_page := p', fr_dirty := False\<rparr>) bp, s'))
     else (Inr (), bp, s))"

text \<open>The clock sweep; the first argument is the number of steps left, \<open>2 * n - steps\<close>.\<close>

primrec sweep :: "nat \<Rightarrow> pool \<Rightarrow> nat option \<times> pool" where
  "sweep 0 bp = (None, bp)"
| "sweep (Suc k) bp =
    (let slot = bp_hand bp;
         bp1 = bp\<lparr>bp_hand := (bp_hand bp + 1) mod bp_capacity bp\<rparr>
     in if fr_pin (frame_at bp1 slot) > 0 then sweep k bp1
        else let old = fr_referenced (frame_at bp1 slot);
                 bp2 = update_frame slot (\<lambda>fr. fr\<lparr>fr_referenced := False\<rparr>) bp1
             in if old then sweep k bp2 else (Some slot, bp2))"

definition find_victim :: "pool \<Rightarrow> nat option \<times> pool" where
  "find_victim bp = sweep (2 * bp_capacity bp) bp"

definition take_slot :: "'s store_ops \<Rightarrow> pool \<Rightarrow> 's \<Rightarrow> nat page_result \<times> pool \<times> 's" where
  "take_slot ops bp s =
    (if bp_free bp \<noteq> [] then
       (Inr (last (bp_free bp)), bp\<lparr>bp_free := butlast (bp_free bp)\<rparr>, s)
     else
       (case find_victim bp of
          (None, bp1) \<Rightarrow> (Inl (BufferPoolExhausted (bp_capacity bp)), bp1, s)
        | (Some slot, bp1) \<Rightarrow>
            let victim_id = resident_id (frame_at bp1 slot)
            in case flush_slot ops slot victim_id bp1 s of
                 (Inl e, bp2, s') \<Rightarrow> (Inl e, bp2, s')
               | (Inr _, bp2, s') \<Rightarrow>
                   (Inr slot, bp2\<lparr>bp_map := (bp_map bp2)(victim_id := None)\<rparr>, s')))"

definition install :: "nat \<Rightarrow> page_id \<Rightarrow> bool \<Rightarrow> pool \<Rightarrow> pool" where
  "install slot pid dirty bp =
    (let bp1 = update_frame slot (\<lambda>fr. fr\<lparr>fr_id := pid_get pid, fr_dirty := dirty,
                 fr_referenced := True, fr_pin := 1\<rparr>) bp
     in bp1\<lparr>bp_map := (bp_map bp1)(pid \<mapsto> slot)\<rparr>)"

section \<open>The pool's methods\<close>

definition fetch :: "'s store_ops \<Rightarrow> page_id \<Rightarrow> pool \<Rightarrow> 's \<Rightarrow> nat page_result \<times> pool \<times> 's" where
  "fetch ops pid bp s =
    (case bp_map bp pid of
       Some slot \<Rightarrow>
         (Inr slot, update_frame slot (\<lambda>fr. fr\<lparr>fr_pin := fr_pin fr + 1, fr_referenced := True\<rparr>) bp, s)
     | None \<Rightarrow>
         (case take_slot ops bp s of
            (Inl e, bp1, s1) \<Rightarrow> (Inl e, bp1, s1)
          | (Inr slot, bp1, s1) \<Rightarrow>
              let (r, p', s2) = so_read_into ops s1 pid (fr_page (frame_at bp1 slot));
                  bp2 = update_frame slot (\<lambda>fr. fr\<lparr>fr_page := p'\<rparr>) bp1
              in case r of
                   Inl e \<Rightarrow> (Inl e, bp2\<lparr>bp_free := bp_free bp2 @ [slot]\<rparr>, s2)
                 | Inr _ \<Rightarrow> (Inr slot, install slot pid False bp2, s2)))"

definition new_page :: "'s store_ops \<Rightarrow> page_id \<Rightarrow> pool \<Rightarrow> 's \<Rightarrow> nat page_result \<times> pool \<times> 's" where
  "new_page ops pid bp s =
    (case bp_map bp pid of
       Some slot \<Rightarrow>
         (Inr slot, update_frame slot (\<lambda>fr. fr\<lparr>fr_page := reset (fr_page fr), fr_pin := fr_pin fr + 1,
            fr_dirty := True, fr_referenced := True\<rparr>) bp, s)
     | None \<Rightarrow>
         (case take_slot ops bp s of
            (Inl e, bp1, s1) \<Rightarrow> (Inl e, bp1, s1)
          | (Inr slot, bp1, s1) \<Rightarrow>
              let bp2 = update_frame slot (\<lambda>fr. fr\<lparr>fr_page := reset (fr_page fr)\<rparr>) bp1
              in (Inr slot, install slot pid True bp2, s1)))"

definition flush :: "'s store_ops \<Rightarrow> page_id \<Rightarrow> pool \<Rightarrow> 's \<Rightarrow> unit page_result \<times> pool \<times> 's" where
  "flush ops pid bp s =
    (case bp_map bp pid of
       Some slot \<Rightarrow> flush_slot ops slot pid bp s
     | None \<Rightarrow> (Inr (), bp, s))"

text \<open>\<^verbatim>\<open>flush_all\<close>: over the entries of the map, in the order the map gives them.\<close>

primrec flush_entries ::
  "'s store_ops \<Rightarrow> (page_id \<times> nat) list \<Rightarrow> pool \<Rightarrow> 's \<Rightarrow> unit page_result \<times> pool \<times> 's" where
  "flush_entries ops [] bp s = (Inr (), bp, s)"
| "flush_entries ops (x # xs) bp s =
    (case flush_slot ops (snd x) (fst x) bp s of
       (Inl e, bp1, s1) \<Rightarrow> (Inl e, bp1, s1)
     | (Inr _, bp1, s1) \<Rightarrow> flush_entries ops xs bp1 s1)"

definition entry_order :: "pool \<Rightarrow> (page_id \<times> nat) list \<Rightarrow> bool" where
  "entry_order bp xs \<longleftrightarrow> distinct xs \<and> set xs = {(pid, slot). bp_map bp pid = Some slot}"

definition flush_all ::
  "'s store_ops \<Rightarrow> (page_id \<times> nat) list \<Rightarrow> pool \<Rightarrow> 's \<Rightarrow> unit page_result \<times> pool \<times> 's" where
  "flush_all ops xs bp s = flush_entries ops xs bp s"

definition pool_sync :: "'s store_ops \<Rightarrow> 's \<Rightarrow> unit page_result \<times> 's" where
  "pool_sync ops s = so_sync ops s"

definition checkpoint ::
  "'s store_ops \<Rightarrow> (page_id \<times> nat) list \<Rightarrow> pool \<Rightarrow> 's \<Rightarrow> unit page_result \<times> pool \<times> 's" where
  "checkpoint ops xs bp s =
    (case flush_all ops xs bp s of
       (Inl e, bp1, s1) \<Rightarrow> (Inl e, bp1, s1)
     | (Inr _, bp1, s1) \<Rightarrow> (let (r, s2) = pool_sync ops s1 in (r, bp1, s2)))"

section \<open>Guards\<close>

definition guard_id :: "pool \<Rightarrow> nat \<Rightarrow> page_id" where
  "guard_id bp slot = resident_id (frame_at bp slot)"

definition guard_is_dirty :: "pool \<Rightarrow> nat \<Rightarrow> bool" where
  "guard_is_dirty bp slot = fr_dirty (frame_at bp slot)"

definition guard_read :: "pool \<Rightarrow> nat \<Rightarrow> page" where
  "guard_read bp slot = fr_page (frame_at bp slot)"

text \<open>\<^verbatim>\<open>write\<close>, with what the caller does to the page while it holds the write lock.\<close>

definition guard_write :: "nat \<Rightarrow> (page \<Rightarrow> page) \<Rightarrow> pool \<Rightarrow> pool" where
  "guard_write slot f bp =
     update_frame slot (\<lambda>fr. fr\<lparr>fr_page := f (fr_page fr)\<rparr>)
       (update_frame slot (\<lambda>fr. fr\<lparr>fr_dirty := True\<rparr>) bp)"

definition guard_drop :: "nat \<Rightarrow> pool \<Rightarrow> pool" where
  "guard_drop slot bp = update_frame slot (\<lambda>fr. fr\<lparr>fr_pin := fr_pin fr - 1\<rparr>) bp"

section \<open>Frames\<close>

lemma update_frame_fields [simp]:
  "bp_map (update_frame slot f bp) = bp_map bp" "bp_free (update_frame slot f bp) = bp_free bp"
  "bp_hand (update_frame slot f bp) = bp_hand bp" "bp_capacity (update_frame slot f bp) = bp_capacity bp"
  "length (bp_frames (update_frame slot f bp)) = length (bp_frames bp)"
  by (simp_all add: update_frame_def)

lemma frame_at_update:
  "slot < length (bp_frames bp) \<Longrightarrow>
    frame_at (update_frame slot f bp) j = (if j = slot then f (frame_at bp slot) else frame_at bp j)"
  by (simp add: update_frame_def frame_at_def)

lemma frame_at_fields [simp]:
  "frame_at (bp\<lparr>bp_map := m\<rparr>) j = frame_at bp j" "frame_at (bp\<lparr>bp_free := fl\<rparr>) j = frame_at bp j"
  "frame_at (bp\<lparr>bp_hand := h\<rparr>) j = frame_at bp j"
  by (simp_all add: frame_at_def)

text \<open>
  The invariant of the pool's bookkeeping.  \<open>L\<close> are the slots a method has taken
  and not yet placed, empty between calls: every other slot is on the free list or
  holds the page the map says, and not both.
\<close>

definition slots_inv :: "nat \<Rightarrow> nat set \<Rightarrow> pool \<Rightarrow> bool" where
  "slots_inv n L bp \<longleftrightarrow> length (bp_frames bp) = bp_capacity bp \<and> 0 < bp_capacity bp
     \<and> bp_hand bp < bp_capacity bp
     \<and> (\<forall>j < bp_capacity bp. page_wf n (fr_page (frame_at bp j)))
     \<and> (\<forall>pid j. bp_map bp pid = Some j \<longrightarrow> j < bp_capacity bp
          \<and> fr_id (frame_at bp j) = pid_get pid \<and> j \<notin> set (bp_free bp) \<and> j \<notin> L)
     \<and> distinct (bp_free bp)
     \<and> (\<forall>j \<in> set (bp_free bp). j < bp_capacity bp \<and> j \<notin> L \<and> fr_pin (frame_at bp j) = 0)
     \<and> (\<forall>j < bp_capacity bp. j \<in> set (bp_free bp) \<or> j \<in> L \<or> (\<exists>pid. bp_map bp pid = Some j))"

lemma slots_inv_D:
  assumes "slots_inv n L bp"
  shows "length (bp_frames bp) = bp_capacity bp" "0 < bp_capacity bp" "bp_hand bp < bp_capacity bp"
    "j < bp_capacity bp \<Longrightarrow> page_wf n (fr_page (frame_at bp j))"
    "bp_map bp pid = Some j \<Longrightarrow> j < bp_capacity bp"
    "bp_map bp pid = Some j \<Longrightarrow> fr_id (frame_at bp j) = pid_get pid"
    "bp_map bp pid = Some j \<Longrightarrow> j \<notin> set (bp_free bp)"
    "bp_map bp pid = Some j \<Longrightarrow> j \<notin> L"
    "distinct (bp_free bp)"
    "j \<in> set (bp_free bp) \<Longrightarrow> j < bp_capacity bp"
    "j \<in> set (bp_free bp) \<Longrightarrow> j \<notin> L"
    "j \<in> set (bp_free bp) \<Longrightarrow> fr_pin (frame_at bp j) = 0"
    "j < bp_capacity bp \<Longrightarrow> j \<in> set (bp_free bp) \<or> j \<in> L \<or> (\<exists>pid. bp_map bp pid = Some j)"
  using assms unfolding slots_inv_def by blast+

lemma slots_inv_map_inj:
  "slots_inv n L bp \<Longrightarrow> bp_map bp a = Some j \<Longrightarrow> bp_map bp b = Some j \<Longrightarrow> a = b"
  by (metis page_id.expand slots_inv_D(6))

lemma slots_inv_update:
  assumes "slots_inv n L bp" and "slot < bp_capacity bp"
    and "page_wf n (fr_page (f (frame_at bp slot)))" and "fr_id (f (frame_at bp slot)) = fr_id (frame_at bp slot)"
    and "slot \<in> set (bp_free bp) \<Longrightarrow> fr_pin (f (frame_at bp slot)) = 0"
  shows "slots_inv n L (update_frame slot f bp)"
proof -
  have len: "slot < length (bp_frames bp)" using assms(2) slots_inv_D(1)[OF assms(1)] by simp
  show ?thesis
    using assms(1,3-5) unfolding slots_inv_def update_frame_fields frame_at_update[OF len]
    by (auto split: if_splits)
qed

section \<open>The clock\<close>

text \<open>What a sweep may change: the hand and reference bits.\<close>

definition clock_only :: "pool \<Rightarrow> pool \<Rightarrow> bool" where
  "clock_only bp bp' \<longleftrightarrow> bp_map bp' = bp_map bp \<and> bp_free bp' = bp_free bp
     \<and> bp_capacity bp' = bp_capacity bp \<and> length (bp_frames bp') = length (bp_frames bp)
     \<and> (\<forall>j. fr_page (frame_at bp' j) = fr_page (frame_at bp j)
          \<and> fr_id (frame_at bp' j) = fr_id (frame_at bp j)
          \<and> fr_pin (frame_at bp' j) = fr_pin (frame_at bp j)
          \<and> fr_dirty (frame_at bp' j) = fr_dirty (frame_at bp j))"

lemma clock_only_trans: "clock_only a b \<Longrightarrow> clock_only b c \<Longrightarrow> clock_only a c"
  by (simp add: clock_only_def)

text \<open>One turn of the loop that does not stop.\<close>

definition clock_turn :: "pool \<Rightarrow> pool" where
  "clock_turn bp =
    (let bp1 = bp\<lparr>bp_hand := (bp_hand bp + 1) mod bp_capacity bp\<rparr>
     in if fr_pin (frame_at bp (bp_hand bp)) > 0 then bp1
        else update_frame (bp_hand bp) (\<lambda>fr. fr\<lparr>fr_referenced := False\<rparr>) bp1)"

lemma sweep_Suc:
  "sweep (Suc k) bp =
    (if fr_pin (frame_at bp (bp_hand bp)) = 0 \<and> \<not> fr_referenced (frame_at bp (bp_hand bp))
     then (Some (bp_hand bp), clock_turn bp) else sweep k (clock_turn bp))"
  by (auto simp: clock_turn_def Let_def)

declare sweep.simps(2) [simp del]

definition hand_ok :: "pool \<Rightarrow> bool" where
  "hand_ok bp \<longleftrightarrow> bp_hand bp < bp_capacity bp \<and> length (bp_frames bp) = bp_capacity bp"

lemma clock_turn:
  assumes "hand_ok bp"
  shows "clock_only bp (clock_turn bp)" and "hand_ok (clock_turn bp)"
    and "bp_hand (clock_turn bp) = (if bp_hand bp + 1 = bp_capacity bp then 0 else bp_hand bp + 1)"
    and "j \<noteq> bp_hand bp \<Longrightarrow> fr_referenced (frame_at (clock_turn bp) j) = fr_referenced (frame_at bp j)"
    and "fr_pin (frame_at bp (bp_hand bp)) = 0 \<Longrightarrow>
      \<not> fr_referenced (frame_at (clock_turn bp) (bp_hand bp))"
proof -
  let ?h = "\<lambda>b. b\<lparr>bp_hand := (bp_hand bp + 1) mod bp_capacity bp\<rparr>"
  have "(bp_hand bp + 1) mod bp_capacity bp = (if bp_hand bp + 1 = bp_capacity bp then 0 else bp_hand bp + 1)"
    using assms by (auto simp: hand_ok_def)
  then show "clock_only bp (clock_turn bp)" and "hand_ok (clock_turn bp)"
    and "bp_hand (clock_turn bp) = (if bp_hand bp + 1 = bp_capacity bp then 0 else bp_hand bp + 1)"
    and "j \<noteq> bp_hand bp \<Longrightarrow> fr_referenced (frame_at (clock_turn bp) j) = fr_referenced (frame_at bp j)"
    and "fr_pin (frame_at bp (bp_hand bp)) = 0 \<Longrightarrow>
      \<not> fr_referenced (frame_at (clock_turn bp) (bp_hand bp))"
    using assms frame_at_update[of "bp_hand bp" "?h bp"]
    by (auto simp: clock_turn_def Let_def clock_only_def hand_ok_def)
qed

lemma sweep_clock_only:
  "sweep k bp = (r, bp') \<Longrightarrow> hand_ok bp \<Longrightarrow> clock_only bp bp' \<and> hand_ok bp'
     \<and> (\<forall>v. r = Some v \<longrightarrow> v < bp_capacity bp \<and> fr_pin (frame_at bp v) = 0)"
proof (induction k arbitrary: bp)
  case 0
  then show ?case by (simp add: clock_only_def)
next
  case (Suc k)
  note turn = clock_turn(1,2)[OF Suc.prems(2)]
  show ?case
  proof (cases "fr_pin (frame_at bp (bp_hand bp)) = 0 \<and> \<not> fr_referenced (frame_at bp (bp_hand bp))")
    case True
    then show ?thesis using Suc.prems turn unfolding sweep_Suc by (auto simp: hand_ok_def)
  next
    case False
    then have "sweep k (clock_turn bp) = (r, bp')" using Suc.prems(1) unfolding sweep_Suc by (simp only: if_False)
    from Suc.IH[OF this turn(2)] turn(1) clock_only_trans show ?thesis
      by (auto simp: clock_only_def)
  qed
qed

text \<open>How many turns until the hand reaches a slot.\<close>

definition dist :: "pool \<Rightarrow> nat \<Rightarrow> nat" where
  "dist bp u = (if bp_hand bp \<le> u then u - bp_hand bp else u + bp_capacity bp - bp_hand bp)"

lemma dist_turn:
  assumes "hand_ok bp" and "u < bp_capacity bp"
  shows "u \<noteq> bp_hand bp \<Longrightarrow> dist bp u = Suc (dist (clock_turn bp) u)"
    and "dist (clock_turn bp) (bp_hand bp) = bp_capacity bp - 1"
    and "dist bp u < bp_capacity bp"
  using assms clock_turn(1,3)[OF assms(1)]
  by (auto simp: dist_def hand_ok_def clock_only_def)

lemma sweep_finds_unreferenced:
  assumes "hand_ok bp" and "u < bp_capacity bp" and "fr_pin (frame_at bp u) = 0"
    and "\<not> fr_referenced (frame_at bp u)" and "dist bp u < k"
  shows "\<exists>v bp'. sweep k bp = (Some v, bp') \<and> dist bp v \<le> dist bp u \<and> v < bp_capacity bp
    \<and> \<not> fr_referenced (frame_at bp v)"
  using assms
proof (induction k arbitrary: bp)
  case 0
  then show ?case by simp
next
  case (Suc k)
  note turn = clock_turn[OF Suc.prems(1)]
  show ?case
  proof (cases "fr_pin (frame_at bp (bp_hand bp)) = 0 \<and> \<not> fr_referenced (frame_at bp (bp_hand bp))")
    case True
    then show ?thesis
      using Suc.prems(1) unfolding sweep_Suc by (auto simp: dist_def hand_ok_def)
  next
    case False
    then have u: "u \<noteq> bp_hand bp" using Suc.prems by auto
    note du = dist_turn(1)[OF Suc.prems(1,2) u]
    have co: "bp_capacity (clock_turn bp) = bp_capacity bp"
      "fr_pin (frame_at (clock_turn bp) u) = fr_pin (frame_at bp u)"
      using turn(1) by (simp_all add: clock_only_def)
    have "\<exists>v bp'. sweep k (clock_turn bp) = (Some v, bp') \<and> dist (clock_turn bp) v \<le> dist (clock_turn bp) u
        \<and> v < bp_capacity (clock_turn bp) \<and> \<not> fr_referenced (frame_at (clock_turn bp) v)"
      using Suc.prems u du co turn(4)[OF u] by (intro Suc.IH turn(2)) auto
    then obtain v bp' where v: "sweep k (clock_turn bp) = (Some v, bp')"
      "dist (clock_turn bp) v \<le> dist (clock_turn bp) u" "v < bp_capacity bp"
      "\<not> fr_referenced (frame_at (clock_turn bp) v)" using co by auto
    have "v \<noteq> bp_hand bp"
      using v(2) du dist_turn(2,3)[OF Suc.prems(1,2)] by auto
    then show ?thesis
      using False v du turn(4) dist_turn(1)[OF Suc.prems(1) v(3)] unfolding sweep_Suc by auto
  qed
qed

lemma sweep_finds:
  assumes "hand_ok bp" and "u < bp_capacity bp" and "fr_pin (frame_at bp u) = 0"
    and "dist bp u + bp_capacity bp \<le> k"
  shows "\<exists>v bp'. sweep (Suc k) bp = (Some v, bp')"
  using assms
proof (induction k arbitrary: bp)
  case 0
  then show ?case by (simp add: hand_ok_def)
next
  case (Suc k)
  note turn = clock_turn[OF Suc.prems(1)]
  have co: "bp_capacity (clock_turn bp) = bp_capacity bp"
    "fr_pin (frame_at (clock_turn bp) u) = fr_pin (frame_at bp u)"
    using turn(1) by (simp_all add: clock_only_def)
  show ?case
  proof (cases "fr_pin (frame_at bp (bp_hand bp)) = 0 \<and> \<not> fr_referenced (frame_at bp (bp_hand bp))")
    case True
    then show ?thesis unfolding sweep_Suc[of "Suc k"] by simp
  next
    case False
    have "\<exists>v bp'. sweep (Suc k) (clock_turn bp) = (Some v, bp')"
    proof (cases "u = bp_hand bp")
      case True
      have "dist (clock_turn bp) u < Suc k"
        using Suc.prems(2,4) True dist_turn(2)[OF Suc.prems(1,2)] by simp
      with True Suc.prems(2,3) turn(2,5) co
      have "\<exists>v bp'. sweep (Suc k) (clock_turn bp) = (Some v, bp')
          \<and> dist (clock_turn bp) v \<le> dist (clock_turn bp) u \<and> v < bp_capacity (clock_turn bp)
          \<and> \<not> fr_referenced (frame_at (clock_turn bp) v)"
        by (intro sweep_finds_unreferenced) simp_all
      then show ?thesis by blast
    next
      case False
      then show ?thesis
        using Suc.prems co dist_turn(1)[OF Suc.prems(1,2)] by (intro Suc.IH turn(2)) auto
    qed
    with False show ?thesis unfolding sweep_Suc[of "Suc k"] by auto
  qed
qed

lemma find_victim_correct:
  assumes "find_victim bp = (r, bp')" and "hand_ok bp"
  shows "clock_only bp bp'" and "hand_ok bp'"
    and "r = Some v \<Longrightarrow> v < bp_capacity bp \<and> fr_pin (frame_at bp v) = 0"
    and "r = None \<longleftrightarrow> (\<forall>u < bp_capacity bp. 0 < fr_pin (frame_at bp u))"
proof -
  note sw = assms(1)[unfolded find_victim_def]
  note co = sweep_clock_only[OF sw assms(2)]
  show "clock_only bp bp'" and "hand_ok bp'"
    and "r = Some v \<Longrightarrow> v < bp_capacity bp \<and> fr_pin (frame_at bp v) = 0"
    using co by auto
  have "r \<noteq> None" if "u < bp_capacity bp" "fr_pin (frame_at bp u) = 0" for u
  proof -
    have "dist bp u + bp_capacity bp \<le> 2 * bp_capacity bp - 1"
      using dist_turn(3)[OF assms(2) that(1)] by simp
    from sweep_finds[OF assms(2) that this] show ?thesis using sw that(1) by simp
  qed
  then show "r = None \<longleftrightarrow> (\<forall>u < bp_capacity bp. 0 < fr_pin (frame_at bp u))"
    using co by (cases r) force+
qed

end
