(* ===== verification/PoolContent.thy ===== *)
theory PoolContent
  imports Pool
begin

text \<open>
  What the pool's methods (\<^verbatim>\<open>src/pool.rs\<close>) keep, over any store with the contract of
  \<^verbatim>\<open>PageStore\<close>.  \<open>pool_inv\<close> joins the bookkeeping invariant with coherence (a clean
  frame holds what the store holds); \<open>pool_view\<close> is the content a client finds;
  \<open>kept\<close> and \<open>wrote\<close> are what holds after a call that reads and after one that
  writes a page.  One lemma per method.
\<close>

section \<open>The content of a pool over a store\<close>

text \<open>Every clean frame holds what the store holds.\<close>

definition coherent :: "(page_id \<Rightarrow> bool) \<Rightarrow> (page_id \<Rightarrow> bytes option) \<Rightarrow> pool \<Rightarrow> bool" where
  "coherent ids v bp \<longleftrightarrow> (\<forall>pid j. bp_map bp pid = Some j \<longrightarrow> ids pid
     \<and> (\<not> fr_dirty (frame_at bp j) \<longrightarrow> v pid = Some (as_bytes (fr_page (frame_at bp j)))))"

definition pool_inv ::
  "nat \<Rightarrow> (page_id \<Rightarrow> bool) \<Rightarrow> (page_id \<Rightarrow> bytes option) \<Rightarrow> nat set \<Rightarrow> pool \<Rightarrow> bool" where
  "pool_inv n ids v L bp \<longleftrightarrow> slots_inv n L bp \<and> coherent ids v bp"

text \<open>
  The page a client finds at an id: the resident one, as it would be stored, or
  else the store's.
\<close>

definition pool_view :: "(page_id \<Rightarrow> bytes option) \<Rightarrow> pool \<Rightarrow> page_id \<Rightarrow> bytes option" where
  "pool_view v bp pid =
    (case bp_map bp pid of
       Some j \<Rightarrow> Some (stamp_bytes (pid_get pid) (as_bytes (fr_page (frame_at bp j))))
     | None \<Rightarrow> v pid)"

text \<open>No page of the first content is lost or changed in the second.\<close>

definition keeps ::
  "(page_id \<Rightarrow> bool) \<Rightarrow> (page_id \<Rightarrow> bytes option) \<Rightarrow> (page_id \<Rightarrow> bytes option) \<Rightarrow> bool" where
  "keeps ids v w \<longleftrightarrow> (\<forall>i bs. ids i \<longrightarrow> v i = Some bs \<longrightarrow> w i = Some bs)"

text \<open>Pinned pages stay where they are.\<close>

definition pins_kept :: "pool \<Rightarrow> pool \<Rightarrow> bool" where
  "pins_kept bp bp' \<longleftrightarrow> (\<forall>a j. bp_map bp a = Some j \<longrightarrow> 0 < fr_pin (frame_at bp j) \<longrightarrow>
     bp_map bp' a = Some j \<and> fr_pin (frame_at bp j) \<le> fr_pin (frame_at bp' j))"

lemma keeps_refl [simp]: "keeps ids v v" and pins_kept_refl [simp]: "pins_kept bp bp"
  by (simp_all add: keeps_def pins_kept_def)

lemma keeps_trans: "keeps ids u v \<Longrightarrow> keeps ids v w \<Longrightarrow> keeps ids u w"
  by (simp add: keeps_def)

lemma pins_kept_trans: "pins_kept a b \<Longrightarrow> pins_kept b c \<Longrightarrow> pins_kept a c"
  unfolding pins_kept_def by (meson le_trans less_le_trans)

lemma pool_inv_slots: "pool_inv n ids v L bp \<Longrightarrow> slots_inv n L bp"
  and pool_inv_ids: "pool_inv n ids v L bp \<Longrightarrow> bp_map bp pid = Some j \<Longrightarrow> ids pid"
  and pool_inv_clean: "pool_inv n ids v L bp \<Longrightarrow> bp_map bp pid = Some j \<Longrightarrow>
    \<not> fr_dirty (frame_at bp j) \<Longrightarrow> v pid = Some (as_bytes (fr_page (frame_at bp j)))"
  by (simp_all add: pool_inv_def coherent_def)

lemma pool_inv_hand_ok: "pool_inv n ids v L bp \<Longrightarrow> hand_ok bp"
  using slots_inv_D[OF pool_inv_slots] by (simp add: hand_ok_def)

lemma pool_inv_cong: "w = v \<Longrightarrow> pool_inv n ids w L bp = pool_inv n ids v L bp"
  by simp

lemma clock_only_inv:
  assumes "clock_only bp bp'" and "hand_ok bp'" and "hand_ok bp"
  shows "pool_inv n ids v L bp' \<longleftrightarrow> pool_inv n ids v L bp"
    and "pool_view v bp' = pool_view v bp" and "pins_kept bp bp'"
  using assms
  by (auto simp: clock_only_def hand_ok_def pool_inv_def slots_inv_def coherent_def pins_kept_def
      pool_view_def fun_eq_iff split: option.splits)

text \<open>Changing a frame that is in no map entry.\<close>

lemma update_limbo:
  assumes "pool_inv n ids v {slot} bp" and "slot < bp_capacity bp"
    and "page_wf n (fr_page (f (frame_at bp slot)))" and "fr_id (f (frame_at bp slot)) = fr_id (frame_at bp slot)"
  shows "pool_inv n ids v {slot} (update_frame slot f bp)"
    and "pool_view v (update_frame slot f bp) = pool_view v bp"
    and "pins_kept bp (update_frame slot f bp)"
proof -
  note sl = slots_inv_D[OF pool_inv_slots[OF assms(1)]]
  have free: "slot \<notin> set (bp_free bp)" and out: "bp_map bp pid = Some j \<Longrightarrow> j \<noteq> slot" for pid j
    using sl(8)[of pid j] sl(11)[of slot] by auto
  have len: "slot < length (bp_frames bp)" using assms(2) sl(1) by simp
  show "pool_inv n ids v {slot} (update_frame slot f bp)"
    using slots_inv_update[where f = f, OF pool_inv_slots[OF assms(1)] assms(2-4)] free assms(1) out
    by (auto simp: pool_inv_def coherent_def frame_at_update[OF len])
  show "pool_view v (update_frame slot f bp) = pool_view v bp" and "pins_kept bp (update_frame slot f bp)"
    using out by (auto simp: pool_view_def pins_kept_def frame_at_update[OF len] fun_eq_iff
        split: option.splits)
qed

text \<open>Changing a mapped frame in place, keeping its id.\<close>

lemma update_mapped:
  assumes inv: "pool_inv n ids v L bp" and map: "bp_map bp pid = Some slot"
    and f: "page_wf n (fr_page (f (frame_at bp slot)))" "fr_id (f (frame_at bp slot)) = fr_id (frame_at bp slot)"
    and clean: "\<not> fr_dirty (f (frame_at bp slot)) \<longrightarrow> w pid = Some (as_bytes (fr_page (f (frame_at bp slot))))"
    and other: "\<forall>i bs. ids i \<longrightarrow> i \<noteq> pid \<longrightarrow> v i = Some bs \<longrightarrow> w i = Some bs"
  shows "pool_inv n ids w L (update_frame slot f bp)"
    and "pool_view w (update_frame slot f bp) pid
      = Some (stamp_bytes (pid_get pid) (as_bytes (fr_page (f (frame_at bp slot)))))"
    and "ids i \<Longrightarrow> i \<noteq> pid \<Longrightarrow> pool_view v bp i = Some bs \<Longrightarrow>
      pool_view w (update_frame slot f bp) i = Some bs"
proof -
  note sl = slots_inv_D[OF pool_inv_slots[OF inv]]
  have len: "slot < length (bp_frames bp)" using sl(1) sl(5)[OF map] by simp
  have inj: "a = pid" if "bp_map bp a = Some slot" for a
    using slots_inv_map_inj[OF pool_inv_slots[OF inv] that map] .
  have "slots_inv n L (update_frame slot f bp)"
    using slots_inv_update[where f = f, OF pool_inv_slots[OF inv] sl(5)[OF map] f] sl(7)[OF map] by blast
  moreover have "coherent ids w (update_frame slot f bp)"
    unfolding coherent_def update_frame_fields frame_at_update[OF len]
  proof (intro allI impI)
    fix a j assume a: "bp_map bp a = Some j"
    note c = pool_inv_ids[OF inv a] pool_inv_clean[OF inv a]
    show "ids a \<and> (\<not> fr_dirty (if j = slot then f (frame_at bp slot) else frame_at bp j) \<longrightarrow>
      w a = Some (as_bytes (fr_page (if j = slot then f (frame_at bp slot) else frame_at bp j))))"
    proof (cases "j = slot")
      case True
      then have "a = pid" using inj a by simp
      with True clean c show ?thesis by auto
    next
      case False
      then have "a \<noteq> pid" using a map by auto
      with False other c show ?thesis by auto
    qed
  qed
  ultimately show "pool_inv n ids w L (update_frame slot f bp)" by (simp add: pool_inv_def)
  show "pool_view w (update_frame slot f bp) pid
      = Some (stamp_bytes (pid_get pid) (as_bytes (fr_page (f (frame_at bp slot)))))"
    by (simp add: pool_view_def map frame_at_update[OF len])
  show "ids i \<Longrightarrow> i \<noteq> pid \<Longrightarrow> pool_view v bp i = Some bs \<Longrightarrow>
      pool_view w (update_frame slot f bp) i = Some bs"
    using inj other by (auto simp: pool_view_def frame_at_update[OF len] split: option.splits)
qed

lemma install_limbo:
  assumes inv: "pool_inv n ids v {slot} bp" and slot: "slot < bp_capacity bp"
    and map: "bp_map bp pid = None" and ids: "ids pid"
    and clean: "\<not> dirty \<longrightarrow> v pid = Some (as_bytes (fr_page (frame_at bp slot)))"
  shows "pool_inv n ids v {} (install slot pid dirty bp)"
    and "pool_view v (install slot pid dirty bp) =
      (pool_view v bp)(pid \<mapsto> stamp_bytes (pid_get pid) (as_bytes (fr_page (frame_at bp slot))))"
    and "pins_kept bp (install slot pid dirty bp)"
    and "bp_map (install slot pid dirty bp) = (bp_map bp)(pid \<mapsto> slot)"
    and "frame_at (install slot pid dirty bp) slot = (frame_at bp slot)
      \<lparr>fr_id := pid_get pid, fr_dirty := dirty, fr_referenced := True, fr_pin := 1\<rparr>"
    and "bp_capacity (install slot pid dirty bp) = bp_capacity bp"
proof -
  note sl = slots_inv_D[OF pool_inv_slots[OF inv]]
  have len: "slot < length (bp_frames bp)" using slot sl(1) by simp
  have out: "j \<noteq> slot" if "bp_map bp a = Some j" for a j using sl(8)[OF that] by simp
  have free: "slot \<notin> set (bp_free bp)" using sl(11)[of slot] by blast
  note upd = frame_at_update[OF len]
  have fields: "bp_map (install slot pid dirty bp) = (bp_map bp)(pid \<mapsto> slot)"
    "bp_free (install slot pid dirty bp) = bp_free bp" "bp_hand (install slot pid dirty bp) = bp_hand bp"
    "bp_capacity (install slot pid dirty bp) = bp_capacity bp"
    "length (bp_frames (install slot pid dirty bp)) = length (bp_frames bp)"
    "frame_at (install slot pid dirty bp) j = (if j = slot then (frame_at bp slot)
      \<lparr>fr_id := pid_get pid, fr_dirty := dirty, fr_referenced := True, fr_pin := 1\<rparr> else frame_at bp j)" for j
    by (simp_all add: install_def Let_def upd)
  then show "bp_map (install slot pid dirty bp) = (bp_map bp)(pid \<mapsto> slot)"
    and "frame_at (install slot pid dirty bp) slot = (frame_at bp slot)
      \<lparr>fr_id := pid_get pid, fr_dirty := dirty, fr_referenced := True, fr_pin := 1\<rparr>"
    and "bp_capacity (install slot pid dirty bp) = bp_capacity bp" by simp_all
  have placed: "j \<in> set (bp_free bp) \<or> (\<exists>a. ((bp_map bp)(pid \<mapsto> slot)) a = Some j)"
    if below: "j < bp_capacity bp" for j
  proof -
    consider "j \<in> set (bp_free bp)" | "j = slot" | a where "bp_map bp a = Some j"
      using sl(13)[OF below] by auto
    then show ?thesis
    proof cases
      case 2
      then show ?thesis by (intro disjI2 exI[of _ pid]) simp
    next
      case (3 a)
      then show ?thesis using map by (intro disjI2 exI[of _ a]) auto
    qed simp
  qed
  have "slots_inv n {} (install slot pid dirty bp)"
    using sl(1-4,9) placed slot free unfolding slots_inv_def fields
    by (auto simp: sl(5,6,7,10,12) out dest: sl(5,6,7,10,12,13) out split: if_splits)
  moreover have "coherent ids v (install slot pid dirty bp)"
    unfolding coherent_def fields using inv ids clean
    by (auto simp: pool_inv_def coherent_def out split: if_splits)
  ultimately show "pool_inv n ids v {} (install slot pid dirty bp)" by (simp add: pool_inv_def)
  show "pool_view v (install slot pid dirty bp) =
      (pool_view v bp)(pid \<mapsto> stamp_bytes (pid_get pid) (as_bytes (fr_page (frame_at bp slot))))"
    by (auto simp: pool_view_def fields fun_eq_iff dest: out split: option.splits)
  show "pins_kept bp (install slot pid dirty bp)"
    using map by (auto simp: pins_kept_def fields dest: out)
qed

section \<open>What every method keeps\<close>

text \<open>
  \<open>kept\<close> is what holds between the state before and after a call that is not a
  write, whatever it returns.
\<close>

definition kept ::
  "nat \<Rightarrow> (page_id \<Rightarrow> bool) \<Rightarrow> (page_id \<Rightarrow> bytes option) \<Rightarrow> pool \<Rightarrow> (page_id \<Rightarrow> bytes option) \<Rightarrow> pool
     \<Rightarrow> nat set \<Rightarrow> bool" where
  "kept n ids v bp v' bp' L \<longleftrightarrow> pool_inv n ids v' L bp' \<and> keeps ids (pool_view v bp) (pool_view v' bp')
     \<and> pins_kept bp bp' \<and> bp_capacity bp' = bp_capacity bp"

lemma kept_refl: "pool_inv n ids v L bp \<Longrightarrow> kept n ids v bp v bp L"
  by (simp add: kept_def)

lemma kept_trans:
  "kept n ids v bp v' bp' L \<Longrightarrow> kept n ids v' bp' v'' bp'' L' \<Longrightarrow> kept n ids v bp v'' bp'' L'"
  unfolding kept_def by (metis keeps_trans pins_kept_trans)

lemma kept_inv: "kept n ids v bp v' bp' L \<Longrightarrow> pool_inv n ids v' L bp'"
  by (simp add: kept_def)

context page_store begin

lemma flush_slot_kept:
  assumes fl: "flush_slot ops slot pid bp s = (r, bp', s')"
    and inv: "pool_inv n ids (view s) L bp" and sinv: "inv s" and map: "bp_map bp pid = Some slot"
  shows "kept n ids (view s) bp (view s') bp' L" and "inv s'"
    and "bp_map bp' = bp_map bp" and "bp_free bp' = bp_free bp"
    and "r = Inl e \<Longrightarrow> \<exists>e'. e = Io e'"
    and "r = Inr () \<Longrightarrow> \<not> fr_dirty (frame_at bp' slot)"
    and "\<not> fr_dirty (frame_at bp j) \<Longrightarrow> \<not> fr_dirty (frame_at bp' j)"
    and "fr_pin (frame_at bp' j) = fr_pin (frame_at bp j)"
    and "fr_id (frame_at bp' j) = fr_id (frame_at bp j)"
proof -
  note sl = slots_inv_D[OF pool_inv_slots[OF inv]]
  have slot: "slot < bp_capacity bp" "slot < length (bp_frames bp)" using sl(1) sl(5)[OF map] by simp_all
  note upd = frame_at_update[OF slot(2)]
  let ?p = "fr_page (frame_at bp slot)"
  have wf: "page_wf n ?p" using sl(4) slot(1) .
  have pid: "ids pid" using pool_inv_ids[OF inv map] .
  have all: "kept n ids (view s) bp (view s') bp' L \<and> inv s' \<and> bp_map bp' = bp_map bp
    \<and> bp_free bp' = bp_free bp \<and> (\<forall>e. r = Inl e \<longrightarrow> (\<exists>e'. e = Io e'))
    \<and> (r = Inr () \<longrightarrow> \<not> fr_dirty (frame_at bp' slot))
    \<and> (\<forall>j. (\<not> fr_dirty (frame_at bp j) \<longrightarrow> \<not> fr_dirty (frame_at bp' j))
        \<and> fr_pin (frame_at bp' j) = fr_pin (frame_at bp j) \<and> fr_id (frame_at bp' j) = fr_id (frame_at bp j))"
  proof (cases "fr_dirty (frame_at bp slot)")
    case False
    then show ?thesis using fl inv sinv kept_refl[OF inv] by (auto simp: flush_slot_def)
  next
    case True
    obtain u p1 s1 where w: "so_write_page ops s pid ?p = (u, p1, s1)" by (metis prod_cases3)
    note frame = write_frame[OF sinv wf pid w]
    have other: "\<forall>i bs. ids i \<longrightarrow> i \<noteq> pid \<longrightarrow> view s i = Some bs \<longrightarrow> view s1 i = Some bs"
      using write_other[OF sinv wf pid w] by blast
    let ?f = "\<lambda>fr. case u of Inl e \<Rightarrow> fr\<lparr>fr_page := p1\<rparr> | Inr _ \<Rightarrow> fr\<lparr>fr_page := p1, fr_dirty := False\<rparr>"
    have "flush_slot ops slot pid bp s = (u, update_frame slot ?f bp, s1)"
      unfolding flush_slot_def w using True by (cases u) simp_all
    then have res: "r = u" "bp' = update_frame slot ?f bp" "s' = s1" using fl by simp_all
    have f: "fr_page (?f (frame_at bp slot)) = stamp pid ?p" "fr_id (?f (frame_at bp slot)) = fr_id (frame_at bp slot)"
      "fr_pin (?f (frame_at bp slot)) = fr_pin (frame_at bp slot)"
      using frame by (simp_all split: sum.split)
    have clean: "\<not> fr_dirty (?f (frame_at bp slot)) \<longrightarrow>
      view s1 pid = Some (as_bytes (fr_page (?f (frame_at bp slot))))"
    proof
      assume "\<not> fr_dirty (?f (frame_at bp slot))"
      then have "u = Inr ()" using True by (cases u) auto
      then show "view s1 pid = Some (as_bytes (fr_page (?f (frame_at bp slot))))"
        using write_ok[OF sinv wf pid] w f(1) by simp
    qed
    have wf': "page_wf n (fr_page (?f (frame_at bp slot)))" unfolding f(1) using wf by (rule stamp_wf)
    note um = update_mapped[where f = ?f and w = "view s1", OF inv map wf' f(2) clean other]
    have "pool_view (view s1) (update_frame slot ?f bp) pid
        = Some (stamp_bytes (pid_get pid) (as_bytes (stamp pid ?p)))"
      using um(2) by (simp only: f(1))
    also have "\<dots> = pool_view (view s) bp pid"
      using page_wf_ge_32[OF wf] by (simp add: as_bytes_stamp stamp_bytes_idem pool_view_def map)
    finally have same: "pool_view (view s1) (update_frame slot ?f bp) pid = pool_view (view s) bp pid" .
    have "keeps ids (pool_view (view s) bp) (pool_view (view s1) (update_frame slot ?f bp))"
      unfolding keeps_def
    proof (intro allI impI)
      fix i bs assume "ids i" and v: "pool_view (view s) bp i = Some bs"
      then show "pool_view (view s1) (update_frame slot ?f bp) i = Some bs"
        using same um(3)[of i bs] by (cases "i = pid") simp_all
    qed
    moreover have "pins_kept bp (update_frame slot ?f bp)"
      using f(3) by (auto simp: pins_kept_def upd)
    moreover have "\<exists>e'. e = Io e'" if "u = Inl e" for e
      using write_err[OF sinv wf pid] w that by blast
    ultimately have "kept n ids (view s) bp (view s') bp' L \<and> (\<forall>e. r = Inl e \<longrightarrow> (\<exists>e'. e = Io e'))"
      using um(1) by (simp add: kept_def res)
    moreover have "(r = Inr () \<longrightarrow> \<not> fr_dirty (frame_at bp' slot))
      \<and> (\<forall>j. (\<not> fr_dirty (frame_at bp j) \<longrightarrow> \<not> fr_dirty (frame_at bp' j))
        \<and> fr_pin (frame_at bp' j) = fr_pin (frame_at bp j) \<and> fr_id (frame_at bp' j) = fr_id (frame_at bp j))"
      using True f(2,3) by (cases u) (simp_all add: res upd)
    moreover have "inv s' \<and> bp_map bp' = bp_map bp \<and> bp_free bp' = bp_free bp"
      using frame by (simp add: res)
    ultimately show ?thesis by blast
  qed
  then show "kept n ids (view s) bp (view s') bp' L" and "inv s'"
    and "bp_map bp' = bp_map bp" and "bp_free bp' = bp_free bp"
    and "r = Inl e \<Longrightarrow> \<exists>e'. e = Io e'"
    and "r = Inr () \<Longrightarrow> \<not> fr_dirty (frame_at bp' slot)"
    and "\<not> fr_dirty (frame_at bp j) \<Longrightarrow> \<not> fr_dirty (frame_at bp' j)"
    and "fr_pin (frame_at bp' j) = fr_pin (frame_at bp j)"
    and "fr_id (frame_at bp' j) = fr_id (frame_at bp j)" by blast+
qed

end

text \<open>Taking the last free slot, and taking a clean frame out of the map.\<close>

lemma pop_free:
  assumes inv: "pool_inv n ids v {} bp" and "bp_free bp \<noteq> []"
  defines "bp' \<equiv> bp\<lparr>bp_free := butlast (bp_free bp)\<rparr>"
  shows "kept n ids v bp v bp' {last (bp_free bp)}" and "last (bp_free bp) < bp_capacity bp"
    and "fr_pin (frame_at bp (last (bp_free bp))) = 0"
proof -
  obtain xs x where xs: "bp_free bp = xs @ [x]" using assms(2) by (cases "bp_free bp" rule: rev_cases) auto
  note sl = slots_inv_D[OF pool_inv_slots[OF inv]]
  show "last (bp_free bp) < bp_capacity bp" "fr_pin (frame_at bp (last (bp_free bp))) = 0"
    using sl(10,12)[of x] xs by auto
  have "slots_inv n {x} bp'"
    using pool_inv_slots[OF inv] xs unfolding slots_inv_def bp'_def by auto
  then have "pool_inv n ids v {x} bp'"
    using inv by (simp add: pool_inv_def coherent_def bp'_def)
  then show "kept n ids v bp v bp' {last (bp_free bp)}"
    by (auto simp: kept_def xs bp'_def pins_kept_def pool_view_def keeps_def split: option.splits)
qed

lemma slots_inv_unmap:
  assumes inv: "slots_inv n {} bp" and map: "bp_map bp pid = Some slot"
  shows "slots_inv n {slot} (bp\<lparr>bp_map := (bp_map bp)(pid := None)\<rparr>)"
proof -
  note sl = slots_inv_D[OF inv]
  have inj: "a = pid" if "bp_map bp a = Some slot" for a
    using slots_inv_map_inj[OF inv that map] .
  have placed: "j \<in> set (bp_free bp) \<or> j = slot \<or> (\<exists>a. ((bp_map bp)(pid := None)) a = Some j)"
    if below: "j < bp_capacity bp" for j
  proof -
    consider "j \<in> set (bp_free bp)" | a where "bp_map bp a = Some j" using sl(13)[OF below] by auto
    then show ?thesis
    proof cases
      case (2 a)
      then show ?thesis using map by (cases "a = pid") auto
    qed simp
  qed
  show ?thesis
    unfolding slots_inv_def using sl(1-4,9) inj placed sl(5,6,7,10,12) sl(7)[OF map]
    by (auto split: if_splits)
qed

lemma unmap_clean:
  assumes inv: "pool_inv n ids v {} bp" and map: "bp_map bp pid = Some slot"
    and clean: "\<not> fr_dirty (frame_at bp slot)" and pin: "fr_pin (frame_at bp slot) = 0"
    and fixed: "\<And>bs. v pid = Some bs \<Longrightarrow> stamp_bytes (pid_get pid) bs = bs"
  defines "bp' \<equiv> bp\<lparr>bp_map := (bp_map bp)(pid := None)\<rparr>"
  shows "kept n ids v bp v bp' {slot}"
proof -
  have "slots_inv n {slot} bp'"
    using slots_inv_unmap[OF pool_inv_slots[OF inv] map] by (simp add: bp'_def)
  moreover have "coherent ids v bp'"
    using inv by (auto simp: pool_inv_def coherent_def bp'_def)
  moreover have "pool_view v bp' pid = pool_view v bp pid"
    using pool_inv_clean[OF inv map clean] fixed map by (simp add: pool_view_def bp'_def)
  then have "pool_view v bp' = pool_view v bp"
    by (auto simp: fun_eq_iff pool_view_def bp'_def split: option.splits)
  moreover have "pins_kept bp bp'"
    using pin map by (auto simp: pins_kept_def bp'_def)
  ultimately show ?thesis by (simp add: kept_def pool_inv_def bp'_def)
qed

text \<open>A slot that comes back from a failed read.\<close>

lemma return_slot:
  assumes inv: "pool_inv n ids v {slot} bp" and slot: "slot < bp_capacity bp"
    and pin: "fr_pin (frame_at bp slot) = 0"
  shows "kept n ids v bp v (bp\<lparr>bp_free := bp_free bp @ [slot]\<rparr>) {}"
proof -
  note sl = slots_inv_D[OF pool_inv_slots[OF inv]]
  have "slots_inv n {} (bp\<lparr>bp_free := bp_free bp @ [slot]\<rparr>)"
    using pool_inv_slots[OF inv] slot pin unfolding slots_inv_def by auto
  then have "pool_inv n ids v {} (bp\<lparr>bp_free := bp_free bp @ [slot]\<rparr>)"
    using inv by (simp add: pool_inv_def coherent_def)
  then show ?thesis
    by (auto simp: kept_def pins_kept_def keeps_def pool_view_def split: option.splits)
qed

text \<open>A hit: pin the frame and set its reference bit.\<close>

lemma pin_resident:
  assumes inv: "pool_inv n ids v {} bp" and map: "bp_map bp pid = Some slot"
  defines "bp' \<equiv> update_frame slot (\<lambda>fr. fr\<lparr>fr_pin := fr_pin fr + 1, fr_referenced := True\<rparr>) bp"
  shows "kept n ids v bp v bp' {}" and "bp_map bp' pid = Some slot" and "slot < bp_capacity bp"
    and "0 < fr_pin (frame_at bp' slot)"
proof -
  note sl = slots_inv_D[OF pool_inv_slots[OF inv]]
  let ?f = "\<lambda>fr. fr\<lparr>fr_pin := fr_pin fr + 1, fr_referenced := True\<rparr>"
  show slot: "slot < bp_capacity bp" using sl(5)[OF map] .
  then have len: "slot < length (bp_frames bp)" using sl(1) by simp
  show "bp_map bp' pid = Some slot" and "0 < fr_pin (frame_at bp' slot)"
    using map by (simp_all add: bp'_def frame_at_update[OF len])
  have f: "page_wf n (fr_page (?f (frame_at bp slot)))"
    "fr_id (?f (frame_at bp slot)) = fr_id (frame_at bp slot)" using sl(4)[OF slot] by simp_all
  have clean: "\<not> fr_dirty (?f (frame_at bp slot)) \<longrightarrow>
      v pid = Some (as_bytes (fr_page (?f (frame_at bp slot))))"
    using pool_inv_clean[OF inv map] by simp
  have "pool_inv n ids v {} bp'"
    unfolding bp'_def by (rule update_mapped(1)[where f = ?f and w = v, OF inv map f clean]) simp
  moreover have "pool_view v bp' = pool_view v bp"
    by (auto simp: fun_eq_iff pool_view_def bp'_def frame_at_update[OF len] split: option.splits)
  moreover have "pins_kept bp bp'"
    by (auto simp: pins_kept_def bp'_def frame_at_update[OF len])
  ultimately show "kept n ids v bp v bp' {}" by (simp add: kept_def bp'_def)
qed

text \<open>What holds after client bytes went into one page: everything else is kept.\<close>

definition wrote ::
  "nat \<Rightarrow> (page_id \<Rightarrow> bool) \<Rightarrow> (page_id \<Rightarrow> bytes option) \<Rightarrow> pool \<Rightarrow> (page_id \<Rightarrow> bytes option) \<Rightarrow> pool
     \<Rightarrow> page_id \<Rightarrow> bytes \<Rightarrow> bool" where
  "wrote n ids v bp v' bp' pid bs \<longleftrightarrow> pool_inv n ids v' {} bp'
     \<and> pool_view v' bp' pid = Some (stamp_bytes (pid_get pid) bs)
     \<and> keeps (\<lambda>i. ids i \<and> i \<noteq> pid) (pool_view v bp) (pool_view v' bp')
     \<and> pins_kept bp bp' \<and> bp_capacity bp' = bp_capacity bp"

lemma wrote_after_kept:
  "kept n ids v bp v1 bp1 L \<Longrightarrow> wrote n ids v1 bp1 v' bp' pid bs \<Longrightarrow> wrote n ids v bp v' bp' pid bs"
  unfolding kept_def wrote_def keeps_def using pins_kept_trans by metis

lemma write_mapped:
  assumes inv: "pool_inv n ids v {} bp" and map: "bp_map bp pid = Some slot"
    and f: "page_wf n (fr_page (f (frame_at bp slot)))" "fr_id (f (frame_at bp slot)) = fr_id (frame_at bp slot)"
    and dirty: "fr_dirty (f (frame_at bp slot))" and pin: "fr_pin (frame_at bp slot) \<le> fr_pin (f (frame_at bp slot))"
  defines "bp' \<equiv> update_frame slot f bp"
  shows "wrote n ids v bp v bp' pid (as_bytes (fr_page (f (frame_at bp slot))))"
    and "bp_map bp' = bp_map bp" and "frame_at bp' slot = f (frame_at bp slot)"
proof -
  note sl = slots_inv_D[OF pool_inv_slots[OF inv]]
  have len: "slot < length (bp_frames bp)" using sl(1) sl(5)[OF map] by simp
  have clean: "\<not> fr_dirty (f (frame_at bp slot)) \<longrightarrow> v pid = Some (as_bytes (fr_page (f (frame_at bp slot))))"
    using dirty by simp
  have other: "\<forall>i bs. ids i \<longrightarrow> i \<noteq> pid \<longrightarrow> v i = Some bs \<longrightarrow> v i = Some bs" by simp
  note um = update_mapped[where f = f and w = v, OF inv map f clean other, folded bp'_def]
  show "bp_map bp' = bp_map bp" and "frame_at bp' slot = f (frame_at bp slot)"
    by (simp_all add: bp'_def frame_at_update[OF len])
  have "pins_kept bp bp'" using pin by (auto simp: pins_kept_def bp'_def frame_at_update[OF len])
  then show "wrote n ids v bp v bp' pid (as_bytes (fr_page (f (frame_at bp slot))))"
    using um by (simp add: wrote_def keeps_def bp'_def)
qed

lemma create_limbo:
  assumes inv: "pool_inv n ids v {slot} bp" and slot: "slot < bp_capacity bp"
    and map: "bp_map bp pid = None" and pid: "ids pid"
  defines "bp' \<equiv> install slot pid True (update_frame slot (\<lambda>fr. fr\<lparr>fr_page := reset (fr_page fr)\<rparr>) bp)"
  shows "wrote n ids v bp v bp' pid (blank_bytes n)" and "bp_map bp' pid = Some slot"
    and "0 < fr_pin (frame_at bp' slot)" and "as_bytes (fr_page (frame_at bp' slot)) = blank_bytes n"
proof -
  note sl = slots_inv_D[OF pool_inv_slots[OF inv]]
  have len: "slot < length (bp_frames bp)" using sl(1) slot by simp
  have wf: "page_wf n (fr_page (frame_at bp slot))" using sl(4)[OF slot] .
  let ?f = "\<lambda>fr. fr\<lparr>fr_page := reset (fr_page fr)\<rparr>"
  let ?bp2 = "update_frame slot ?f bp"
  have f: "page_wf n (fr_page (?f (frame_at bp slot)))"
    "fr_id (?f (frame_at bp slot)) = fr_id (frame_at bp slot)" using reset_wf[OF wf] by simp_all
  note ul = update_limbo[where f = ?f, OF inv slot f]
  have blank: "as_bytes (fr_page (frame_at ?bp2 slot)) = blank_bytes n"
    using as_bytes_reset[of "fr_page (frame_at bp slot)"] page_wf_length[OF wf]
    by (simp add: frame_at_update[OF len])
  have bp2: "slot < bp_capacity ?bp2" "bp_map ?bp2 pid = None"
    "\<not> True \<longrightarrow> v pid = Some (as_bytes (fr_page (frame_at ?bp2 slot)))" using slot map by simp_all
  note il = install_limbo[OF ul(1) bp2(1,2) pid bp2(3), folded bp'_def]
  show "bp_map bp' pid = Some slot" and "0 < fr_pin (frame_at bp' slot)"
    and "as_bytes (fr_page (frame_at bp' slot)) = blank_bytes n"
    using il(4,5) blank by simp_all
  show "wrote n ids v bp v bp' pid (blank_bytes n)"
    using il(1,2,6) pins_kept_trans[OF ul(3) il(3)] ul(2) blank by (simp add: wrote_def keeps_def)
qed

text \<open>A clean frame and the store agree.\<close>

lemma clean_in_store:
  assumes "pool_inv n ids v {} bp" and "bp_map bp pid = Some slot" and "\<not> fr_dirty (frame_at bp slot)"
    and "\<And>bs. v pid = Some bs \<Longrightarrow> stamp_bytes (pid_get pid) bs = bs"
  shows "v pid = pool_view v bp pid"
  using pool_inv_clean[OF assms(1-3)] assms(2,4) by (simp add: pool_view_def)

context page_store begin

lemma pool_view_fixed: "32 \<le> n \<Longrightarrow> view s pid = Some bs \<Longrightarrow> stamp_bytes (pid_get pid) bs = bs"
  by (rule view_fixed)

lemma take_slot_kept:
  assumes tk: "take_slot ops bp s = (r, bp', s')"
    and inv: "pool_inv n ids (view s) {} bp" and sinv: "inv s" and n: "32 \<le> n"
  shows "inv s'" and "r = Inr slot \<Longrightarrow> kept n ids (view s) bp (view s') bp' {slot}
      \<and> slot < bp_capacity bp \<and> fr_pin (frame_at bp' slot) = 0
      \<and> (\<forall>a. bp_map bp a = None \<longrightarrow> bp_map bp' a = None)"
    and "r = Inl e \<Longrightarrow> kept n ids (view s) bp (view s') bp' {}"
    and "r = Inl e \<Longrightarrow> (\<exists>e'. e = Io e') \<or> e = BufferPoolExhausted (bp_capacity bp) \<and> bp_free bp = []
      \<and> (\<forall>u < bp_capacity bp. 0 < fr_pin (frame_at bp u))"
    and "bp_free bp = [] \<Longrightarrow> \<forall>u < bp_capacity bp. 0 < fr_pin (frame_at bp u) \<Longrightarrow>
      r = Inl (BufferPoolExhausted (bp_capacity bp))"
proof -
  have all: "inv s' \<and> (\<forall>slot. r = Inr slot \<longrightarrow> kept n ids (view s) bp (view s') bp' {slot}
      \<and> slot < bp_capacity bp \<and> fr_pin (frame_at bp' slot) = 0
      \<and> (\<forall>a. bp_map bp a = None \<longrightarrow> bp_map bp' a = None))
    \<and> (\<forall>e. r = Inl e \<longrightarrow> kept n ids (view s) bp (view s') bp' {}
      \<and> ((\<exists>e'. e = Io e') \<or> e = BufferPoolExhausted (bp_capacity bp) \<and> bp_free bp = []
      \<and> (\<forall>u < bp_capacity bp. 0 < fr_pin (frame_at bp u))))
    \<and> (bp_free bp = [] \<longrightarrow> (\<forall>u < bp_capacity bp. 0 < fr_pin (frame_at bp u)) \<longrightarrow>
      r = Inl (BufferPoolExhausted (bp_capacity bp)))"
  proof (cases "bp_free bp = []")
    case False
    then have res: "r = Inr (last (bp_free bp))" "bp' = bp\<lparr>bp_free := butlast (bp_free bp)\<rparr>" "s' = s"
      using tk by (simp_all add: take_slot_def)
    with pop_free[OF inv False] sinv False show ?thesis by simp
  next
    case True
    obtain vic bp1 where fv: "find_victim bp = (vic, bp1)" by (metis prod.exhaust)
    note vc = find_victim_correct[OF fv pool_inv_hand_ok[OF inv]]
    note ci = clock_only_inv[OF vc(1,2) pool_inv_hand_ok[OF inv]]
    have inv1: "pool_inv n ids (view s) {} bp1" using ci(1) inv by blast
    have cap: "bp_capacity bp1 = bp_capacity bp" "bp_map bp1 = bp_map bp"
      using vc(1) by (simp_all add: clock_only_def)
    have kept1: "kept n ids (view s) bp (view s) bp1 {}"
      using inv1 ci(2)[where v = "view s"] ci(3) cap by (simp add: kept_def)
    show ?thesis
    proof (cases vic)
      case None
      then have "r = Inl (BufferPoolExhausted (bp_capacity bp))" "bp' = bp1" "s' = s"
        using tk True fv by (simp_all add: take_slot_def)
      with kept1 sinv vc(4) None True show ?thesis by simp
    next
      case (Some slot)
      note v = vc(3)[OF Some]
      have slot1: "slot < bp_capacity bp1" "fr_pin (frame_at bp1 slot) = 0"
        using v vc(1) cap by (simp_all add: clock_only_def)
      obtain a where a: "bp_map bp1 a = Some slot"
        using slots_inv_D(13)[OF pool_inv_slots[OF inv1] slot1(1)] True vc(1) by (auto simp: clock_only_def)
      have vid: "resident_id (frame_at bp1 slot) = a"
        using slots_inv_D(6)[OF pool_inv_slots[OF inv1] a] by (simp add: resident_id_def)
      obtain u bp2 s2 where fl: "flush_slot ops slot a bp1 s = (u, bp2, s2)" by (metis prod_cases3)
      note fk = flush_slot_kept[OF fl inv1 sinv a]
      have not_all: "\<not> (\<forall>u < bp_capacity bp. 0 < fr_pin (frame_at bp u))" using v by auto
      show ?thesis
      proof (cases u)
        case (Inl e)
        then have "r = Inl e" "bp' = bp2" "s' = s2"
          using tk True fv Some vid fl by (simp_all add: take_slot_def Let_def)
        with kept_trans[OF kept1 fk(1)] fk(2) fk(5)[OF Inl] not_all show ?thesis by auto
      next
        case (Inr x)
        then have res: "r = Inr slot" "bp' = bp2\<lparr>bp_map := (bp_map bp2)(a := None)\<rparr>" "s' = s2"
          using tk True fv Some vid fl by (simp_all add: take_slot_def Let_def)
        have "kept n ids (view s2) bp2 (view s2) bp' {slot}"
          unfolding res(2)
        proof (rule unmap_clean[OF kept_inv[OF fk(1)]])
          show "bp_map bp2 a = Some slot" using a fk(3) by simp
          show "\<not> fr_dirty (frame_at bp2 slot)" using fk(6) Inr by simp
          show "fr_pin (frame_at bp2 slot) = 0" using fk(8) slot1(2) by simp
          show "\<And>bs. view s2 a = Some bs \<Longrightarrow> stamp_bytes (pid_get a) bs = bs"
            using view_fixed n by blast
        qed
        from kept_trans[OF kept_trans[OF kept1 fk(1)] this] res fk(2,3,8) slot1 cap not_all
        show ?thesis by auto
      qed
    qed
  qed
  then show "inv s'" and "r = Inr slot \<Longrightarrow> kept n ids (view s) bp (view s') bp' {slot}
      \<and> slot < bp_capacity bp \<and> fr_pin (frame_at bp' slot) = 0
      \<and> (\<forall>a. bp_map bp a = None \<longrightarrow> bp_map bp' a = None)"
    and "r = Inl e \<Longrightarrow> kept n ids (view s) bp (view s') bp' {}"
    and "r = Inl e \<Longrightarrow> (\<exists>e'. e = Io e') \<or> e = BufferPoolExhausted (bp_capacity bp) \<and> bp_free bp = []
      \<and> (\<forall>u < bp_capacity bp. 0 < fr_pin (frame_at bp u))"
    and "bp_free bp = [] \<Longrightarrow> \<forall>u < bp_capacity bp. 0 < fr_pin (frame_at bp u) \<Longrightarrow>
      r = Inl (BufferPoolExhausted (bp_capacity bp))" by blast+
qed

text \<open>Reading into a taken slot: it is mapped, or it goes back to the free list.\<close>

lemma load_slot:
  assumes inv1: "pool_inv n ids (view s) {slot} bp" and sinv: "inv s" and slot: "slot < bp_capacity bp"
    and pin: "fr_pin (frame_at bp slot) = 0" and map: "bp_map bp pid = None" and pid: "ids pid"
    and n: "32 \<le> n" and rd: "so_read_into ops s pid (fr_page (frame_at bp slot)) = (u, p1, s2)"
  defines "bp2 \<equiv> update_frame slot (\<lambda>fr. fr\<lparr>fr_page := p1\<rparr>) bp"
  shows "inv s2"
    and "u = Inl e \<Longrightarrow> kept n ids (view s) bp (view s2) (bp2\<lparr>bp_free := bp_free bp2 @ [slot]\<rparr>) {}"
    and "u = Inl e \<Longrightarrow> view s pid = Some bs \<Longrightarrow> \<exists>e'. e = Io e'"
    and "u = Inr () \<Longrightarrow> kept n ids (view s) bp (view s2) (install slot pid False bp2) {}
      \<and> bp_map (install slot pid False bp2) pid = Some slot
      \<and> 0 < fr_pin (frame_at (install slot pid False bp2) slot)"
proof -
  have len: "slot < length (bp_frames bp)"
    using slot slots_inv_D(1)[OF pool_inv_slots[OF inv1]] by simp
  have wf: "page_wf n (fr_page (frame_at bp slot))"
    using slots_inv_D(4)[OF pool_inv_slots[OF inv1]] slot .
  note frame = read_frame[OF sinv wf pid rd]
  show "inv s2" using frame by simp
  let ?f = "\<lambda>fr. fr\<lparr>fr_page := p1\<rparr>"
  have f: "page_wf n (fr_page (?f (frame_at bp slot)))"
    "fr_id (?f (frame_at bp slot)) = fr_id (frame_at bp slot)" using frame by simp_all
  note ul = update_limbo[where f = ?f, OF inv1 slot f, folded bp2_def]
  have view2: "view s2 = view s" using frame by simp
  have kept2: "kept n ids (view s) bp (view s2) bp2 {slot}"
    using ul by (simp add: kept_def view2 bp2_def)
  have bp2: "fr_pin (frame_at bp2 slot) = 0" "slot < bp_capacity bp2" "bp_map bp2 pid = None"
    "fr_page (frame_at bp2 slot) = p1"
    using pin slot map by (simp_all add: bp2_def frame_at_update[OF len])
  show "u = Inl e \<Longrightarrow> kept n ids (view s) bp (view s2) (bp2\<lparr>bp_free := bp_free bp2 @ [slot]\<rparr>) {}"
    by (rule kept_trans[OF kept2 return_slot[OF kept_inv[OF kept2] bp2(2,1)]])
  show "u = Inl e \<Longrightarrow> view s pid = Some bs \<Longrightarrow> \<exists>e'. e = Io e'"
    using read_view[OF sinv wf pid rd] by auto
  show "kept n ids (view s) bp (view s2) (install slot pid False bp2) {}
      \<and> bp_map (install slot pid False bp2) pid = Some slot
      \<and> 0 < fr_pin (frame_at (install slot pid False bp2) slot)" if u: "u = Inr ()"
  proof -
    have viewp: "view s2 pid = Some (as_bytes p1)" using read_ok[OF sinv wf pid rd[unfolded u]] view2 by simp
    then have clean: "\<not> False \<longrightarrow> view s2 pid = Some (as_bytes (fr_page (frame_at bp2 slot)))"
      by (simp add: bp2)
    note il = install_limbo[OF kept_inv[OF kept2] bp2(2,3) pid clean]
    have "stamp_bytes (pid_get pid) (as_bytes p1) = as_bytes p1" using viewp n by (rule view_fixed)
    then have "pool_view (view s2) (install slot pid False bp2) = pool_view (view s2) bp2"
      using il(2) bp2 viewp by (simp add: pool_view_def fun_eq_iff)
    then have "kept n ids (view s2) bp2 (view s2) (install slot pid False bp2) {}"
      using il by (simp add: kept_def)
    from kept_trans[OF kept2 this] il(4,5) show ?thesis by simp
  qed
qed

lemma fetch_kept:
  assumes fe: "fetch ops pid bp s = (r, bp', s')"
    and inv: "pool_inv n ids (view s) {} bp" and sinv: "inv s" and pid: "ids pid" and n: "32 \<le> n"
  shows "inv s'" and "kept n ids (view s) bp (view s') bp' {}"
    and "r = Inr slot \<Longrightarrow> bp_map bp' pid = Some slot \<and> slot < bp_capacity bp
      \<and> 0 < fr_pin (frame_at bp' slot)"
    and "r = Inl e \<Longrightarrow> pool_view (view s) bp pid = Some bs \<Longrightarrow> (\<exists>e'. e = Io e')
      \<or> e = BufferPoolExhausted (bp_capacity bp) \<and> bp_map bp pid = None \<and> bp_free bp = []
        \<and> (\<forall>u < bp_capacity bp. 0 < fr_pin (frame_at bp u))"
    and "bp_map bp pid = None \<Longrightarrow> bp_free bp = [] \<Longrightarrow> \<forall>u < bp_capacity bp. 0 < fr_pin (frame_at bp u)
      \<Longrightarrow> r = Inl (BufferPoolExhausted (bp_capacity bp))"
proof -
  have all: "inv s' \<and> kept n ids (view s) bp (view s') bp' {}
    \<and> (\<forall>slot. r = Inr slot \<longrightarrow> bp_map bp' pid = Some slot \<and> slot < bp_capacity bp
        \<and> 0 < fr_pin (frame_at bp' slot))
    \<and> (\<forall>e bs. r = Inl e \<longrightarrow> pool_view (view s) bp pid = Some bs \<longrightarrow> (\<exists>e'. e = Io e')
      \<or> e = BufferPoolExhausted (bp_capacity bp) \<and> bp_map bp pid = None \<and> bp_free bp = []
        \<and> (\<forall>u < bp_capacity bp. 0 < fr_pin (frame_at bp u)))
    \<and> (bp_map bp pid = None \<longrightarrow> bp_free bp = [] \<longrightarrow> (\<forall>u < bp_capacity bp. 0 < fr_pin (frame_at bp u))
      \<longrightarrow> r = Inl (BufferPoolExhausted (bp_capacity bp)))"
  proof (cases "bp_map bp pid")
    case (Some slot)
    then have res: "r = Inr slot" "s' = s"
      "bp' = update_frame slot (\<lambda>fr. fr\<lparr>fr_pin := fr_pin fr + 1, fr_referenced := True\<rparr>) bp"
      using fe by (simp_all add: fetch_def)
    show ?thesis using sinv Some pin_resident[OF inv Some] by (simp add: res)
  next
    case None
    obtain t bp1 s1 where tk: "take_slot ops bp s = (t, bp1, s1)" by (metis prod_cases3)
    note tkk = take_slot_kept[OF tk inv sinv n]
    show ?thesis
    proof (cases t)
      case (Inl e)
      then have "r = Inl e" "bp' = bp1" "s' = s1" using fe None tk by (simp_all add: fetch_def)
      with tkk(1,3-5) Inl None show ?thesis by auto
    next
      case (Inr slot)
      note tks = tkk(2)[OF Inr]
      then have kept1: "kept n ids (view s) bp (view s1) bp1 {slot}" and pin: "fr_pin (frame_at bp1 slot) = 0"
        and slot: "slot < bp_capacity bp1" "slot < bp_capacity bp" and map1: "bp_map bp1 pid = None"
        using None by (simp_all add: kept_def)
      obtain u p1 s2 where rd: "so_read_into ops s1 pid (fr_page (frame_at bp1 slot)) = (u, p1, s2)"
        by (metis prod_cases3)
      note ld = load_slot[OF kept_inv[OF kept1] tkk(1) slot(1) pin map1 pid n rd]
      have found: "\<not> (bp_free bp = [] \<and> (\<forall>u < bp_capacity bp. 0 < fr_pin (frame_at bp u)))"
        using tkk(5) Inr by (metis sum.distinct(1))
      have stored: "view s1 pid = Some bs" if "pool_view (view s) bp pid = Some bs" for bs
      proof -
        have "pool_view (view s1) bp1 pid = Some bs" using kept1 that pid by (simp add: kept_def keeps_def)
        then show ?thesis using map1 by (simp add: pool_view_def)
      qed
      show ?thesis
      proof (cases u)
        case err: (Inl e)
        let ?bp2 = "update_frame slot (\<lambda>fr. fr\<lparr>fr_page := p1\<rparr>) bp1"
        have res: "r = Inl e" "bp' = ?bp2\<lparr>bp_free := bp_free ?bp2 @ [slot]\<rparr>" "s' = s2"
          using fe None tk Inr rd err by (simp_all add: fetch_def Let_def)
        show ?thesis
          using kept_trans[OF kept1 ld(2)[OF err]] ld(1) ld(3)[OF err] stored found
          by (auto simp: res)
      next
        case ok: (Inr x)
        then have res: "r = Inr slot" "s' = s2"
          "bp' = install slot pid False (update_frame slot (\<lambda>fr. fr\<lparr>fr_page := p1\<rparr>) bp1)"
          using fe None tk Inr rd by (simp_all add: fetch_def Let_def)
        have "u = Inr ()" using ok by simp
        note ld4 = ld(4)[OF this]
        show ?thesis
          using kept_trans[OF kept1 conjunct1[OF ld4]] conjunct2[OF ld4] ld(1) slot(2) found
          by (auto simp: res)
      qed
    qed
  qed
  then show "inv s'" and "kept n ids (view s) bp (view s') bp' {}"
    and "r = Inr slot \<Longrightarrow> bp_map bp' pid = Some slot \<and> slot < bp_capacity bp
      \<and> 0 < fr_pin (frame_at bp' slot)"
    and "r = Inl e \<Longrightarrow> pool_view (view s) bp pid = Some bs \<Longrightarrow> (\<exists>e'. e = Io e')
      \<or> e = BufferPoolExhausted (bp_capacity bp) \<and> bp_map bp pid = None \<and> bp_free bp = []
        \<and> (\<forall>u < bp_capacity bp. 0 < fr_pin (frame_at bp u))"
    and "bp_map bp pid = None \<Longrightarrow> bp_free bp = [] \<Longrightarrow> \<forall>u < bp_capacity bp. 0 < fr_pin (frame_at bp u)
      \<Longrightarrow> r = Inl (BufferPoolExhausted (bp_capacity bp))" by blast+
qed

lemma new_page_correct:
  assumes np: "new_page ops pid bp s = (r, bp', s')"
    and inv: "pool_inv n ids (view s) {} bp" and sinv: "inv s" and pid: "ids pid" and n: "32 \<le> n"
  shows "inv s'" and "r = Inl e \<Longrightarrow> kept n ids (view s) bp (view s') bp' {}"
    and "r = Inr slot \<Longrightarrow> wrote n ids (view s) bp (view s') bp' pid (blank_bytes n)
      \<and> bp_map bp' pid = Some slot \<and> 0 < fr_pin (frame_at bp' slot)
      \<and> as_bytes (fr_page (frame_at bp' slot)) = blank_bytes n"
    and "r = Inl e \<longleftrightarrow> (bp_map bp pid = None \<and> fst (take_slot ops bp s) = Inl e)"
proof -
  show "r = Inl e \<longleftrightarrow> (bp_map bp pid = None \<and> fst (take_slot ops bp s) = Inl e)"
    using np by (auto simp: new_page_def Let_def split: option.splits prod.splits sum.splits)
  have all: "inv s' \<and> (\<forall>e. r = Inl e \<longrightarrow> kept n ids (view s) bp (view s') bp' {})
    \<and> (\<forall>slot. r = Inr slot \<longrightarrow> wrote n ids (view s) bp (view s') bp' pid (blank_bytes n)
      \<and> bp_map bp' pid = Some slot \<and> 0 < fr_pin (frame_at bp' slot)
      \<and> as_bytes (fr_page (frame_at bp' slot)) = blank_bytes n)"
  proof (cases "bp_map bp pid")
    case (Some slot)
    then have res: "r = Inr slot" "s' = s"
      "bp' = update_frame slot (\<lambda>fr. fr\<lparr>fr_page := reset (fr_page fr), fr_pin := fr_pin fr + 1,
            fr_dirty := True, fr_referenced := True\<rparr>) bp"
      using np by (simp_all add: new_page_def)
    note wr = write_mapped[OF inv Some, of "\<lambda>fr. fr\<lparr>fr_page := reset (fr_page fr), fr_pin := fr_pin fr + 1,
            fr_dirty := True, fr_referenced := True\<rparr>", folded res(3)]
    note sl = slots_inv_D[OF pool_inv_slots[OF inv]]
    have wf: "page_wf n (fr_page (frame_at bp slot))" by (rule sl(4)[OF sl(5)[OF Some]])
    then show ?thesis
      using wr reset_wf[OF wf] as_bytes_reset[of "fr_page (frame_at bp slot)"] page_wf_length[OF wf]
        sinv Some by (simp add: res(1,2))
  next
    case None
    obtain t bp1 s1 where tk: "take_slot ops bp s = (t, bp1, s1)" by (metis prod_cases3)
    note tkk = take_slot_kept[OF tk inv sinv n]
    show ?thesis
    proof (cases t)
      case (Inl e)
      then have "r = Inl e" "bp' = bp1" "s' = s1" using np None tk by (simp_all add: new_page_def)
      with tkk(1,3) Inl show ?thesis by simp
    next
      case (Inr slot)
      note tks = tkk(2)[OF Inr]
      then have kept1: "kept n ids (view s) bp (view s1) bp1 {slot}"
        and slot: "slot < bp_capacity bp1" and map1: "bp_map bp1 pid = None"
        using None by (simp_all add: kept_def)
      have res: "r = Inr slot" "s' = s1"
        "bp' = install slot pid True (update_frame slot (\<lambda>fr. fr\<lparr>fr_page := reset (fr_page fr)\<rparr>) bp1)"
        using np None tk Inr by (simp_all add: new_page_def Let_def)
      note cl = create_limbo[OF kept_inv[OF kept1] slot map1 pid, folded res(3)]
      show ?thesis using wrote_after_kept[OF kept1 cl(1)] cl(2-4) tkk(1) by (simp add: res(1,2))
    qed
  qed
  then show "inv s'" and "r = Inl e \<Longrightarrow> kept n ids (view s) bp (view s') bp' {}"
    and "r = Inr slot \<Longrightarrow> wrote n ids (view s) bp (view s') bp' pid (blank_bytes n)
      \<and> bp_map bp' pid = Some slot \<and> 0 < fr_pin (frame_at bp' slot)
      \<and> as_bytes (fr_page (frame_at bp' slot)) = blank_bytes n" by blast+
qed

lemma flush_kept:
  assumes fl: "flush ops pid bp s = (r, bp', s')"
    and inv: "pool_inv n ids (view s) {} bp" and sinv: "inv s" and n: "32 \<le> n"
  shows "inv s'" and "kept n ids (view s) bp (view s') bp' {}" and "bp_map bp' = bp_map bp"
    and "r = Inl e \<Longrightarrow> \<exists>e'. e = Io e'"
    and "r = Inr () \<Longrightarrow> view s' pid = pool_view (view s') bp' pid"
proof -
  have all: "inv s' \<and> kept n ids (view s) bp (view s') bp' {} \<and> bp_map bp' = bp_map bp
    \<and> (\<forall>e. r = Inl e \<longrightarrow> (\<exists>e'. e = Io e')) \<and> (r = Inr () \<longrightarrow> view s' pid = pool_view (view s') bp' pid)"
  proof (cases "bp_map bp pid")
    case None
    then have "r = Inr ()" "bp' = bp" "s' = s" using fl by (simp_all add: flush_def)
    then show ?thesis using None inv sinv by (simp add: kept_refl pool_view_def)
  next
    case (Some slot)
    then have "flush_slot ops slot pid bp s = (r, bp', s')" using fl by (simp add: flush_def)
    note fk = flush_slot_kept[OF this inv sinv Some]
    have map': "bp_map bp' pid = Some slot" using fk(3) Some by simp
    have "view s' pid = pool_view (view s') bp' pid" if "r = Inr ()"
      by (rule clean_in_store[OF kept_inv[OF fk(1)] map' fk(6)[OF that]]) (rule view_fixed[OF _ n])
    then show ?thesis using fk(1-3,5) by blast
  qed
  then show "inv s'" and "kept n ids (view s) bp (view s') bp' {}" and "bp_map bp' = bp_map bp"
    and "r = Inl e \<Longrightarrow> \<exists>e'. e = Io e'"
    and "r = Inr () \<Longrightarrow> view s' pid = pool_view (view s') bp' pid" by blast+
qed

lemma flush_entries_kept:
  assumes "flush_entries ops xs bp s = (r, bp', s')"
    and "pool_inv n ids (view s) {} bp" and "inv s"
    and "\<forall>(pid, slot) \<in> set xs. bp_map bp pid = Some slot"
  shows "inv s' \<and> kept n ids (view s) bp (view s') bp' {} \<and> bp_map bp' = bp_map bp
    \<and> (\<forall>e. r = Inl e \<longrightarrow> (\<exists>e'. e = Io e'))
    \<and> (\<forall>j. \<not> fr_dirty (frame_at bp j) \<longrightarrow> \<not> fr_dirty (frame_at bp' j))
    \<and> (r = Inr () \<longrightarrow> (\<forall>x \<in> set xs. \<not> fr_dirty (frame_at bp' (snd x))))"
  using assms
proof (induction xs arbitrary: bp s)
  case Nil
  then show ?case by (auto simp: kept_refl)
next
  case (Cons x xs)
  have map: "bp_map bp (fst x) = Some (snd x)" using Cons.prems(4) by auto
  obtain u bp1 s1 where fl: "flush_slot ops (snd x) (fst x) bp s = (u, bp1, s1)" by (metis prod_cases3)
  note fk = flush_slot_kept[OF fl Cons.prems(2,3) map]
  show ?case
  proof (cases u)
    case (Inl e)
    then have "r = Inl e" "bp' = bp1" "s' = s1" using Cons.prems(1) fl by simp_all
    then show ?thesis using fk(1-3,7) fk(5)[OF Inl] by auto
  next
    case (Inr y)
    then have rest: "flush_entries ops xs bp1 s1 = (r, bp', s')" using Cons.prems(1) fl by simp
    have maps: "\<forall>(pid, slot) \<in> set xs. bp_map bp1 pid = Some slot" using Cons.prems(4) fk(3) by auto
    note ih = Cons.IH[OF rest kept_inv[OF fk(1)] fk(2) maps]
    have "u = Inr ()" using Inr by simp
    then have "\<not> fr_dirty (frame_at bp1 (snd x))" by (rule fk(6))
    then show ?thesis using ih kept_trans[OF fk(1)] fk(3,7) by auto
  qed
qed

lemma flush_all_kept:
  assumes fl: "flush_all ops xs bp s = (r, bp', s')" and order: "entry_order bp xs"
    and inv: "pool_inv n ids (view s) {} bp" and sinv: "inv s" and n: "32 \<le> n"
  shows "inv s'" and "kept n ids (view s) bp (view s') bp' {}" and "bp_map bp' = bp_map bp"
    and "r = Inl e \<Longrightarrow> \<exists>e'. e = Io e'"
    and "r = Inr () \<Longrightarrow> pool_view (view s') bp' = view s'"
proof -
  have maps: "\<forall>(pid, slot) \<in> set xs. bp_map bp pid = Some slot" using order by (auto simp: entry_order_def)
  note fk = flush_entries_kept[OF fl[unfolded flush_all_def] inv sinv maps]
  then show "inv s'" and "kept n ids (view s) bp (view s') bp' {}" and "bp_map bp' = bp_map bp"
    and "r = Inl e \<Longrightarrow> \<exists>e'. e = Io e'" by blast+
  show "pool_view (view s') bp' = view s'" if "r = Inr ()"
  proof
    fix pid
    show "pool_view (view s') bp' pid = view s' pid"
    proof (cases "bp_map bp' pid")
      case None
      then show ?thesis by (simp add: pool_view_def)
    next
      case (Some slot)
      then have "(pid, slot) \<in> set xs" using order fk by (simp add: entry_order_def)
      then have "\<not> fr_dirty (frame_at bp' slot)" using fk that by fastforce
      then show ?thesis
        using clean_in_store[OF kept_inv[of n ids "view s" bp] Some, of "view s'"] fk view_fixed[OF _ n] by metis
    qed
  qed
qed

end

section \<open>Guards, checkpoints and new pools\<close>

lemma guard_write_eq:
  "slot < length (bp_frames bp) \<Longrightarrow> guard_write slot f bp =
    update_frame slot (\<lambda>fr. fr\<lparr>fr_dirty := True, fr_page := f (fr_page fr)\<rparr>) bp"
  by (simp add: guard_write_def update_frame_def frame_at_def)

text \<open>A pinned slot holds the page its guard names.\<close>

lemma pinned_mapped:
  assumes "pool_inv n ids v {} bp" and "slot < bp_capacity bp" and "0 < fr_pin (frame_at bp slot)"
  shows "bp_map bp (guard_id bp slot) = Some slot"
  using slots_inv_D(13)[OF pool_inv_slots[OF assms(1)] assms(2)]
    slots_inv_D(12)[OF pool_inv_slots[OF assms(1)]] slots_inv_D(6)[OF pool_inv_slots[OF assms(1)]] assms(3)
  by (fastforce simp: guard_id_def resident_id_def)

lemma guard_write_correct:
  assumes inv: "pool_inv n ids v {} bp" and map: "bp_map bp pid = Some slot"
    and wf: "page_wf n (f (guard_read bp slot))"
  shows "wrote n ids v bp v (guard_write slot f bp) pid (as_bytes (f (guard_read bp slot)))"
    and "guard_is_dirty (guard_write slot f bp) slot"
    and "guard_read (guard_write slot f bp) slot = f (guard_read bp slot)"
proof -
  note sl = slots_inv_D[OF pool_inv_slots[OF inv]]
  have len: "slot < length (bp_frames bp)" using sl(1) sl(5)[OF map] by simp
  let ?f = "\<lambda>fr. fr\<lparr>fr_dirty := True, fr_page := f (fr_page fr)\<rparr>"
  have wm: "wrote n ids v bp v (update_frame slot ?f bp) pid (as_bytes (fr_page (?f (frame_at bp slot))))"
    using wf by (intro write_mapped(1)[OF inv map]) (simp_all add: guard_read_def)
  then show "wrote n ids v bp v (guard_write slot f bp) pid (as_bytes (f (guard_read bp slot)))"
    by (simp add: guard_write_eq[OF len] guard_read_def)
  show "guard_is_dirty (guard_write slot f bp) slot"
    and "guard_read (guard_write slot f bp) slot = f (guard_read bp slot)"
    by (simp_all add: guard_write_eq[OF len] guard_is_dirty_def guard_read_def frame_at_update[OF len])
qed

lemma guard_drop_correct:
  assumes inv: "pool_inv n ids v {} bp" and map: "bp_map bp pid = Some slot"
  shows "pool_inv n ids v {} (guard_drop slot bp)" and "pool_view v (guard_drop slot bp) = pool_view v bp"
    and "bp_map (guard_drop slot bp) = bp_map bp" and "bp_capacity (guard_drop slot bp) = bp_capacity bp"
    and "fr_pin (frame_at (guard_drop slot bp) j) =
      (if j = slot then fr_pin (frame_at bp j) - 1 else fr_pin (frame_at bp j))"
proof -
  note sl = slots_inv_D[OF pool_inv_slots[OF inv]]
  have slot: "slot < bp_capacity bp" using sl(5)[OF map] .
  then have len: "slot < length (bp_frames bp)" using sl(1) by simp
  let ?f = "\<lambda>fr. fr\<lparr>fr_pin := fr_pin fr - 1\<rparr>"
  have f: "page_wf n (fr_page (?f (frame_at bp slot)))"
    "fr_id (?f (frame_at bp slot)) = fr_id (frame_at bp slot)" using sl(4)[OF slot] by simp_all
  have clean: "\<not> fr_dirty (?f (frame_at bp slot)) \<longrightarrow>
      v pid = Some (as_bytes (fr_page (?f (frame_at bp slot))))"
    using pool_inv_clean[OF inv map] by simp
  show "pool_inv n ids v {} (guard_drop slot bp)"
    unfolding guard_drop_def by (rule update_mapped(1)[where f = ?f and w = v, OF inv map f clean]) simp
  show "pool_view v (guard_drop slot bp) = pool_view v bp"
    by (auto simp: fun_eq_iff pool_view_def guard_drop_def frame_at_update[OF len] split: option.splits)
  show "bp_map (guard_drop slot bp) = bp_map bp" and "bp_capacity (guard_drop slot bp) = bp_capacity bp"
    and "fr_pin (frame_at (guard_drop slot bp) j) =
      (if j = slot then fr_pin (frame_at bp j) - 1 else fr_pin (frame_at bp j))"
    by (simp_all add: guard_drop_def frame_at_update[OF len])
qed

context page_store begin

lemma checkpoint_kept:
  assumes cp: "checkpoint ops xs bp s = (r, bp', s')" and order: "entry_order bp xs"
    and inv: "pool_inv n ids (view s) {} bp" and sinv: "inv s" and n: "32 \<le> n"
  shows "inv s'" and "kept n ids (view s) bp (view s') bp' {}" and "r = Inl e \<Longrightarrow> \<exists>e'. e = Io e'"
    and "r = Inr () \<Longrightarrow> pool_view (view s') bp' = view s'"
proof -
  obtain u bp1 s1 where fl: "flush_all ops xs bp s = (u, bp1, s1)" by (metis prod_cases3)
  note fk = flush_all_kept[OF fl order inv sinv n]
  obtain w s2 where sy: "so_sync ops s1 = (w, s2)" by (metis prod.exhaust)
  note sf = sync_frame[OF fk(1) sy]
  have "\<exists>e'. e = Io e'" if "w = Inl e" for e using sync_err[OF fk(1)] sy that by blast
  with fk sf cp fl sy show "inv s'" and "kept n ids (view s) bp (view s') bp' {}"
    and "r = Inl e \<Longrightarrow> \<exists>e'. e = Io e'" and "r = Inr () \<Longrightarrow> pool_view (view s') bp' = view s'"
    by (cases u; auto simp: checkpoint_def pool_sync_def)+
qed

lemma BufferPool_new_inv:
  assumes "inv s"
  shows "pool_inv n ids v {} (BufferPool_new ops s c)" and "pool_view v (BufferPool_new ops s c) = v"
    and "bp_capacity (BufferPool_new ops s c) = max c 1"
proof -
  have "page_wf n (so_allocate_page ops s)" using allocate[OF assms] by simp
  then show "pool_inv n ids v {} (BufferPool_new ops s c)"
    by (auto simp: pool_inv_def slots_inv_def coherent_def BufferPool_new_def frame_at_def
        FrameInner_new_def Let_def)
  show "pool_view v (BufferPool_new ops s c) = v" and "bp_capacity (BufferPool_new ops s c) = max c 1"
    by (auto simp: pool_view_def BufferPool_new_def Let_def)
qed

end

end
