(* ===== verification/PoolRuns.thy ===== *)
theory PoolRuns
  imports PoolContent
begin

text \<open>
  Runs of the pool: sequences of calls with any outcome, the events clients observe,
  and the properties of the pool over page files (\<^verbatim>\<open>src/pool.rs\<close> on
  \<^verbatim>\<open>src/file.rs\<close>).
\<close>

section \<open>Runs\<close>

text \<open>
  What clients do and see: a page's bytes written through a guard (or blanked by
  \<^verbatim>\<open>new_page\<close>), and a page's bytes seen through a guard.  Replaying the events
  against a map from ids to pages fails when a page is seen that is not the last
  one written or seen at its id.
\<close>

datatype pool_event = Wrote page_id bytes | Saw page_id bytes

fun observe :: "(page_id \<Rightarrow> bytes option) \<Rightarrow> pool_event \<Rightarrow> (page_id \<Rightarrow> bytes option) option" where
  "observe m (Wrote i bs) = Some (m(i \<mapsto> stamp_bytes (pid_get i) bs))"
| "observe m (Saw i bs) =
    (if m i = None \<or> m i = Some (stamp_bytes (pid_get i) bs)
     then Some (m(i \<mapsto> stamp_bytes (pid_get i) bs)) else None)"

fun consistent :: "(page_id \<Rightarrow> bytes option) \<Rightarrow> pool_event list \<Rightarrow> bool" where
  "consistent m [] \<longleftrightarrow> True"
| "consistent m (e # es) \<longleftrightarrow> (case observe m e of None \<Rightarrow> False | Some m' \<Rightarrow> consistent m' es)"

text \<open>
  One call on the pool, with any outcome, failures of the store included.  Clients
  use guards they hold, and keep pages at the pool's size.
\<close>

inductive pool_step ::
  "'s store_ops \<Rightarrow> nat \<Rightarrow> (page_id \<Rightarrow> bool) \<Rightarrow> pool \<Rightarrow> 's \<Rightarrow> pool_event option \<Rightarrow> pool \<Rightarrow> 's \<Rightarrow> bool"
  for ops n ids where
  fetch_ok: "ids pid \<Longrightarrow> fetch ops pid bp s = (Inr slot, bp', s') \<Longrightarrow>
    pool_step ops n ids bp s (Some (Saw pid (as_bytes (guard_read bp' slot)))) bp' s'"
| fetch_err: "ids pid \<Longrightarrow> fetch ops pid bp s = (Inl e, bp', s') \<Longrightarrow> pool_step ops n ids bp s None bp' s'"
| new_ok: "ids pid \<Longrightarrow> new_page ops pid bp s = (Inr slot, bp', s') \<Longrightarrow>
    pool_step ops n ids bp s (Some (Wrote pid (as_bytes (guard_read bp' slot)))) bp' s'"
| new_err: "ids pid \<Longrightarrow> new_page ops pid bp s = (Inl e, bp', s') \<Longrightarrow> pool_step ops n ids bp s None bp' s'"
| seen: "slot < bp_capacity bp \<Longrightarrow> 0 < fr_pin (frame_at bp slot) \<Longrightarrow>
    pool_step ops n ids bp s (Some (Saw (guard_id bp slot) (as_bytes (guard_read bp slot)))) bp s"
| written: "slot < bp_capacity bp \<Longrightarrow> 0 < fr_pin (frame_at bp slot) \<Longrightarrow> page_wf n (f (guard_read bp slot)) \<Longrightarrow>
    pool_step ops n ids bp s (Some (Wrote (guard_id bp slot) (as_bytes (f (guard_read bp slot)))))
      (guard_write slot f bp) s"
| drop_guard: "slot < bp_capacity bp \<Longrightarrow> 0 < fr_pin (frame_at bp slot) \<Longrightarrow>
    pool_step ops n ids bp s None (guard_drop slot bp) s"
| flush_one: "flush ops pid bp s = (r, bp', s') \<Longrightarrow> pool_step ops n ids bp s None bp' s'"
| flush_every: "entry_order bp xs \<Longrightarrow> flush_all ops xs bp s = (r, bp', s') \<Longrightarrow>
    pool_step ops n ids bp s None bp' s'"
| check: "entry_order bp xs \<Longrightarrow> checkpoint ops xs bp s = (r, bp', s') \<Longrightarrow>
    pool_step ops n ids bp s None bp' s'"
| sync: "pool_sync ops s = (r, s') \<Longrightarrow> pool_step ops n ids bp s None bp s'"

inductive pool_run ::
  "'s store_ops \<Rightarrow> nat \<Rightarrow> (page_id \<Rightarrow> bool) \<Rightarrow> pool \<Rightarrow> 's \<Rightarrow> pool_event list \<Rightarrow> pool \<Rightarrow> 's \<Rightarrow> bool"
  for ops n ids where
  stop: "pool_run ops n ids bp s [] bp s"
| silent: "pool_step ops n ids bp s None bp1 s1 \<Longrightarrow> pool_run ops n ids bp1 s1 es bp2 s2 \<Longrightarrow>
    pool_run ops n ids bp s es bp2 s2"
| event: "pool_step ops n ids bp s (Some e) bp1 s1 \<Longrightarrow> pool_run ops n ids bp1 s1 es bp2 s2 \<Longrightarrow>
    pool_run ops n ids bp s (e # es) bp2 s2"

definition agrees ::
  "(page_id \<Rightarrow> bool) \<Rightarrow> (page_id \<Rightarrow> bytes option) \<Rightarrow> (page_id \<Rightarrow> bytes option) \<Rightarrow> bool" where
  "agrees ids m v \<longleftrightarrow> (\<forall>i bs. m i = Some bs \<longrightarrow> ids i \<and> v i = Some bs)"

lemma agrees_keeps: "agrees ids m v \<Longrightarrow> keeps ids v w \<Longrightarrow> agrees ids m w"
  by (simp add: agrees_def keeps_def)

lemma agrees_kept: "agrees ids m (pool_view v bp) \<Longrightarrow> kept n ids v bp v' bp' L \<Longrightarrow>
    agrees ids m (pool_view v' bp')"
  by (auto simp: kept_def intro: agrees_keeps)

lemma observe_wrote:
  assumes "agrees ids m (pool_view v bp)" and "wrote n ids v bp v' bp' pid bs" and "ids pid"
  shows "\<exists>m'. observe m (Wrote pid bs) = Some m' \<and> agrees ids m' (pool_view v' bp')"
  using assms by (auto simp: agrees_def wrote_def keeps_def)

lemma observe_saw:
  assumes "agrees ids m (pool_view v bp)" and "bp_map bp pid = Some slot" and "ids pid"
  shows "\<exists>m'. observe m (Saw pid (as_bytes (guard_read bp slot))) = Some m'
    \<and> agrees ids m' (pool_view v bp)"
proof -
  have v: "pool_view v bp pid = Some (stamp_bytes (pid_get pid) (as_bytes (guard_read bp slot)))"
    using assms(2) by (simp add: pool_view_def guard_read_def)
  then show ?thesis using assms(1,3) by (cases "m pid") (auto simp: agrees_def)
qed

context page_store begin

lemma step_keeps:
  assumes step: "pool_step ops n ids bp s eo bp' s'"
    and inv: "pool_inv n ids (view s) {} bp" and sinv: "inv s" and n: "32 \<le> n"
    and m: "agrees ids m (pool_view (view s) bp)"
  shows "inv s' \<and> pool_inv n ids (view s') {} bp'
    \<and> (case eo of None \<Rightarrow> agrees ids m (pool_view (view s') bp')
       | Some e \<Rightarrow> \<exists>m'. observe m e = Some m' \<and> agrees ids m' (pool_view (view s') bp'))"
  using step
proof cases
  case (fetch_ok pid slot)
  note fk = fetch_kept[OF fetch_ok(3) inv sinv fetch_ok(2) n]
  have "bp_map bp' pid = Some slot" using fk(3) by blast
  from observe_saw[OF agrees_kept[OF m fk(2)] this fetch_ok(2)] fk(1) kept_inv[OF fk(2)] fetch_ok(1)
  show ?thesis by simp
next
  case (fetch_err pid e)
  note fk = fetch_kept[OF fetch_err(3) inv sinv fetch_err(2) n]
  show ?thesis using fk(1) kept_inv[OF fk(2)] agrees_kept[OF m fk(2)] fetch_err(1) by simp
next
  case (new_ok pid slot)
  note nk = new_page_correct[OF new_ok(3) inv sinv new_ok(2) n]
  have w: "wrote n ids (view s) bp (view s') bp' pid (as_bytes (guard_read bp' slot))"
    using nk(3)[of slot] by (simp add: guard_read_def)
  from observe_wrote[OF m w new_ok(2)] nk(1) w new_ok(1) show ?thesis by (simp add: wrote_def)
next
  case (new_err pid e)
  note nk = new_page_correct[OF new_err(3) inv sinv new_err(2) n]
  have "kept n ids (view s) bp (view s') bp' {}" using nk(2) by blast
  then show ?thesis using nk(1) kept_inv agrees_kept[OF m] new_err(1) by auto
next
  case (seen slot)
  note map = pinned_mapped[OF inv seen(4,5)]
  show ?thesis using observe_saw[OF m map pool_inv_ids[OF inv map]] inv sinv seen(1-3) by simp
next
  case (written slot f)
  note map = pinned_mapped[OF inv written(4,5)]
  note gw = guard_write_correct[where f = f, OF inv map written(6)]
  show ?thesis
    using observe_wrote[OF m gw(1) pool_inv_ids[OF inv map]] gw(1) sinv written(1-3)
    by (simp add: wrote_def)
next
  case (drop_guard slot)
  note gd = guard_drop_correct[OF inv pinned_mapped[OF inv drop_guard(4,5)]]
  show ?thesis using gd m sinv drop_guard(1-3) by simp
next
  case (flush_one pid r)
  note fk = flush_kept[OF flush_one(2) inv sinv n]
  show ?thesis using fk(1) kept_inv[OF fk(2)] agrees_kept[OF m fk(2)] flush_one(1) by simp
next
  case (flush_every xs r)
  note fk = flush_all_kept[OF flush_every(3,2) inv sinv n]
  show ?thesis using fk(1) kept_inv[OF fk(2)] agrees_kept[OF m fk(2)] flush_every(1) by simp
next
  case (check xs r)
  note fk = checkpoint_kept[OF check(3,2) inv sinv n]
  show ?thesis using fk(1) kept_inv[OF fk(2)] agrees_kept[OF m fk(2)] check(1) by simp
next
  case (sync r)
  then show ?thesis using sync_frame[OF sinv] inv m by (simp add: pool_sync_def)
qed

text \<open>Every run sees only the last page written or seen at an id.\<close>

lemma run_consistent:
  assumes "pool_run ops n ids bp s es bp' s'" and "pool_inv n ids (view s) {} bp" and "inv s"
    and "32 \<le> n" and "agrees ids m (pool_view (view s) bp)"
  shows "consistent m es \<and> pool_inv n ids (view s') {} bp' \<and> inv s'"
  using assms
proof (induction arbitrary: m rule: pool_run.induct)
  case (stop bp s)
  then show ?case by simp
next
  case (silent bp s bp1 s1 es bp2 s2)
  have "inv s1" "pool_inv n ids (view s1) {} bp1" "agrees ids m (pool_view (view s1) bp1)"
    using step_keeps[OF silent.hyps(1) silent.prems] by simp_all
  then show ?case using silent.IH silent.prems(3) by blast
next
  case (event bp s e bp1 s1 es bp2 s2)
  obtain m' where "inv s1" "pool_inv n ids (view s1) {} bp1" "observe m e = Some m'"
    "agrees ids m' (pool_view (view s1) bp1)"
    using step_keeps[OF event.hyps(1) event.prems] by auto
  then show ?case using event.IH[of m'] event.prems(3) by simp
qed

end

section \<open>On a store that does not fail\<close>

context reliable_store begin

lemma take_slot_total:
  assumes tk: "take_slot ops bp s = (Inl e, bp', s')"
    and inv: "pool_inv n ids (view s) {} bp" and sinv: "inv s"
  shows "e = BufferPoolExhausted (bp_capacity bp)"
proof -
  have free: "bp_free bp = []" using tk by (auto simp: take_slot_def split: if_splits)
  obtain vic bp1 where fv: "find_victim bp = (vic, bp1)" by (metis prod.exhaust)
  show ?thesis
  proof (cases vic)
    case None
    then show ?thesis using tk fv free by (simp add: take_slot_def)
  next
    case (Some slot)
    note vc = find_victim_correct[OF fv pool_inv_hand_ok[OF inv]]
    have inv1: "pool_inv n ids (view s) {} bp1"
      using clock_only_inv(1)[OF vc(1,2) pool_inv_hand_ok[OF inv]] inv by blast
    note sl = slots_inv_D[OF pool_inv_slots[OF inv1]]
    have slot1: "slot < bp_capacity bp1" "bp_free bp1 = []"
      using vc(3)[OF Some] vc(1) free by (simp_all add: clock_only_def)
    obtain a where a: "bp_map bp1 a = Some slot" using sl(13)[OF slot1(1)] slot1(2) by auto
    have vid: "resident_id (frame_at bp1 slot) = a" using sl(6)[OF a] by (simp add: resident_id_def)
    have "flush_slot ops slot a bp1 s = (Inl e, bp', s')"
      using tk free fv Some vid by (auto simp: take_slot_def Let_def split: prod.splits sum.splits)
    then obtain p' where "so_write_page ops s a (fr_page (frame_at bp1 slot)) = (Inl e, p', s')"
      by (auto simp: flush_slot_def split: if_splits prod.splits sum.splits)
    from write_total[OF sinv sl(4)[OF slot1(1)] pool_inv_ids[OF inv1 a] this] show ?thesis by simp
  qed
qed

lemma fetch_total:
  assumes inv: "pool_inv n ids (view s) {} bp" and sinv: "inv s" and pid: "ids pid" and n: "32 \<le> n"
    and page: "pool_view (view s) bp pid = Some bs"
    and room: "bp_map bp pid \<noteq> None \<or> bp_free bp \<noteq> [] \<or> (\<exists>u < bp_capacity bp. fr_pin (frame_at bp u) = 0)"
  shows "\<exists>slot bp' s'. fetch ops pid bp s = (Inr slot, bp', s')
    \<and> stamp_bytes (pid_get pid) (as_bytes (guard_read bp' slot)) = bs"
proof -
  obtain r bp' s' where fe: "fetch ops pid bp s = (r, bp', s')" by (metis prod_cases3)
  note fk = fetch_kept[OF fe inv sinv pid n]
  show ?thesis
  proof (cases r)
    case (Inr slot)
    have "pool_view (view s') bp' pid = Some bs"
      using fk(2) page pid by (simp add: kept_def keeps_def)
    then have "stamp_bytes (pid_get pid) (as_bytes (guard_read bp' slot)) = bs"
      using fk(3)[OF Inr] by (simp add: pool_view_def guard_read_def)
    with fe Inr show ?thesis by blast
  next
    case (Inl e)
    have none: "bp_map bp pid = None" using fe Inl by (cases "bp_map bp pid") (auto simp: fetch_def)
    obtain t bp1 s1 where tk: "take_slot ops bp s = (t, bp1, s1)" by (metis prod_cases3)
    note tkk = take_slot_kept[OF tk inv sinv n]
    have "t \<noteq> Inl x" for x
    proof
      assume t: "t = Inl x"
      have "bp_free bp = [] \<and> (\<forall>u < bp_capacity bp. 0 < fr_pin (frame_at bp u))"
        using tkk(4)[OF t] take_slot_total[OF tk[unfolded t] inv sinv] by blast
      with room none show False by auto
    qed
    then obtain slot where t: "t = Inr slot" by (cases t) auto
    note tks = tkk(2)[OF t]
    have inv1: "pool_inv n ids (view s1) {slot} bp1" using tks kept_inv by blast
    have slot1: "slot < bp_capacity bp1" using tks by (simp add: kept_def)
    have "pool_view (view s1) bp1 pid = Some bs" using tks page pid by (simp add: kept_def keeps_def)
    then have v: "view s1 pid = Some bs" using tks none by (simp add: pool_view_def)
    obtain u p1 s2 where rd: "so_read_into ops s1 pid (fr_page (frame_at bp1 slot)) = (u, p1, s2)"
      by (metis prod_cases3)
    have "u = Inr ()"
      by (rule read_total[OF tkk(1) slots_inv_D(4)[OF pool_inv_slots[OF inv1] slot1] pid v rd])
    then have "r = Inr slot" using fe none tk t rd by (simp add: fetch_def Let_def)
    with Inl show ?thesis by simp
  qed
qed

end

text \<open>Frames are neither lost nor counted twice.\<close>

lemma slots_partition:
  assumes "slots_inv n {} bp"
  shows "resident_len bp + length (bp_free bp) = bp_capacity bp"
proof -
  note sl = slots_inv_D[OF assms]
  have "inj_on (\<lambda>pid. the (bp_map bp pid)) (dom (bp_map bp))"
    using slots_inv_map_inj[OF assms] by (fastforce simp: inj_on_def dom_def)
  then have dom: "card (dom (bp_map bp)) = card ((\<lambda>pid. the (bp_map bp pid)) ` dom (bp_map bp))"
    by (simp add: card_image)
  have img: "(\<lambda>pid. the (bp_map bp pid)) ` dom (bp_map bp) = {..<bp_capacity bp} - set (bp_free bp)"
    using sl(5,7,13) by (force simp: dom_def image_iff)
  have "set (bp_free bp) \<subseteq> {..<bp_capacity bp}" using sl(10) by auto
  then have "card ({..<bp_capacity bp} - set (bp_free bp)) + card (set (bp_free bp)) = bp_capacity bp"
    using card_Diff_subset[of "set (bp_free bp)" "{..<bp_capacity bp}"] card_mono[of "{..<bp_capacity bp}"]
    by fastforce
  then show ?thesis using dom img distinct_card[OF sl(9)] by (simp add: resident_len_def)
qed

section \<open>Properties\<close>

lemma pf_inv_32: "pf_inv n pf \<Longrightarrow> 32 \<le> n"
  using pf_inv_pos[of n pf] by simp

abbreviation pf_pool_inv :: "nat \<Rightarrow> pool \<Rightarrow> page_file \<Rightarrow> bool" where
  "pf_pool_inv n bp pf \<equiv> pf_inv n pf \<and> pool_inv n (addressable n) (pf_view n pf) {} bp"

text \<open>A new pool of two frames over an empty file, for the witnesses.\<close>

definition two_frames :: pool where
  "two_frames = BufferPool_new page_file_store empty_page_file 2"

lemma two_frames: "pf_pool_inv 4096 two_frames empty_page_file"
  "bp_map two_frames = Map.empty" "bp_capacity two_frames = 2" "bp_free two_frames = [0, 1]"
  using pf.BufferPool_new_inv(1,3)[OF empty_page_file(1), where c = 2]
  by (auto simp: two_frames_def BufferPool_new_def Let_def upt_rec)

text \<open>The same pool after \<^verbatim>\<open>new_page\<close> of one page.\<close>

definition one_page_at :: "page_id \<Rightarrow> pool" where
  "one_page_at pid = install 1 pid True
     (update_frame 1 (\<lambda>fr. fr\<lparr>fr_page := reset (fr_page fr)\<rparr>) (two_frames\<lparr>bp_free := [0]\<rparr>))"

lemma one_page_at_new: "new_page page_file_store pid two_frames empty_page_file =
    (Inr 1, one_page_at pid, empty_page_file)"
  by (simp add: one_page_at_def new_page_def take_slot_def two_frames(2,4))

lemma one_page_at:
  assumes "addressable 4096 pid"
  shows "pool_inv 4096 (addressable 4096) (pf_view 4096 empty_page_file) {} (one_page_at pid)"
    and "bp_map (one_page_at pid) = [pid \<mapsto> 1]" and "0 < fr_pin (frame_at (one_page_at pid) 1)"
    and "entry_order (one_page_at pid) [(pid, 1)]"
    and "as_bytes (fr_page (frame_at (one_page_at pid) 1)) = blank_bytes 4096"
proof -
  note nc = pf.new_page_correct(3)[OF one_page_at_new conjunct2[OF two_frames(1)] empty_page_file(1) assms]
  show "pool_inv 4096 (addressable 4096) (pf_view 4096 empty_page_file) {} (one_page_at pid)"
    and "0 < fr_pin (frame_at (one_page_at pid) 1)"
    and "as_bytes (fr_page (frame_at (one_page_at pid) 1)) = blank_bytes 4096"
    using nc by (auto simp: wrote_def)
  show map: "bp_map (one_page_at pid) = [pid \<mapsto> 1]"
    by (simp add: one_page_at_def install_def Let_def two_frames(2))
  show "entry_order (one_page_at pid) [(pid, 1)]" by (auto simp: entry_order_def map split: if_splits)
qed

abbreviation one_page :: pool where
  "one_page \<equiv> one_page_at (PageId 3)"

lemmas one_page_def = one_page_at_def
lemmas one_page_new = one_page_at_new[of "PageId 3"]
lemmas one_page = one_page_at[OF empty_page_file(3)]

text \<open>C1: over a page file with any schedule of short transfers, interruptions and failures, every
  run of a pool that starts empty shows its clients, at each id, the page that was last written
  or seen there, starting from the file's content: no eviction, flush, failed call or retry
  loses or changes a page.\<close>

theorem pool_runs_are_consistent:
  assumes "pool_run page_file_store n (addressable n) (BufferPool_new page_file_store pf c) pf es bp' pf'"
    and "pf_inv n pf"
  shows "consistent (pf_view n pf |` {i. addressable n i}) es \<and> pf_pool_inv n bp' pf'"
proof -
  note new = pf.BufferPool_new_inv(1,2)[OF assms(2), where v = "pf_view n pf" and c = c]
  have "agrees (addressable n) (pf_view n pf |` {i. addressable n i})
      (pool_view (pf_view n pf) (BufferPool_new page_file_store pf c))"
    unfolding new(2) by (auto simp: agrees_def restrict_map_def split: if_splits)
  from pf.run_consistent[OF assms(1) new(1) assms(2) pf_inv_32[OF assms(2)] this]
  show ?thesis by simp
qed

theorem pool_runs_are_consistent_witness:
  "\<exists>bs. pool_run page_file_store 4096 (addressable 4096) two_frames empty_page_file
      [Wrote (PageId 3) bs] one_page empty_page_file \<and> pf_pool_inv 4096 one_page empty_page_file"
proof -
  have run: "pool_run page_file_store 4096 (addressable 4096) two_frames empty_page_file
      [Wrote (PageId 3) (as_bytes (guard_read one_page 1))] one_page empty_page_file"
    by (rule pool_run.event[OF pool_step.new_ok[where ids = "addressable 4096", OF empty_page_file(3) one_page_new]]) (rule pool_run.stop)
  from pool_runs_are_consistent[OF this[unfolded two_frames_def] empty_page_file(1)] run
  show ?thesis by blast
qed

text \<open>C19: a fetch, whatever it returns, keeps the pool's invariant and every page; if it returns
  a guard, the page is resident and pinned, the guard names it and shows exactly the page the
  pool and the file held; if it fails although the page exists, the cause is an I/O error or
  that every frame is pinned.\<close>

theorem fetch_is_transparent:
  assumes "fetch page_file_store pid bp pf = (r, bp', pf')"
    and "pf_inv n pf" and "pool_inv n (addressable n) (pf_view n pf) {} bp" and "addressable n pid"
  shows "pf_pool_inv n bp' pf'
    \<and> keeps (addressable n) (pool_view (pf_view n pf) bp) (pool_view (pf_view n pf') bp')
    \<and> (\<forall>slot. r = Inr slot \<longrightarrow> is_resident bp' pid \<and> guard_id bp' slot = pid
        \<and> 0 < fr_pin (frame_at bp' slot)
        \<and> pool_view (pf_view n pf') bp' pid = Some (stamp_bytes (pid_get pid) (as_bytes (guard_read bp' slot))))
    \<and> (\<forall>e bs. r = Inl e \<longrightarrow> pool_view (pf_view n pf) bp pid = Some bs \<longrightarrow> (\<exists>e'. e = Io e')
        \<or> e = BufferPoolExhausted (bp_capacity bp) \<and> (\<forall>u < bp_capacity bp. 0 < fr_pin (frame_at bp u)))"
proof -
  note fk = pf.fetch_kept[OF assms(1,3,2,4) pf_inv_32[OF assms(2)]]
  have "guard_id bp' slot = pid" if "r = Inr slot" for slot
    using slots_inv_D(6)[OF pool_inv_slots[OF kept_inv[OF fk(2)]], of pid slot] fk(3)[OF that]
    by (simp add: guard_id_def resident_id_def)
  moreover have "is_resident bp' pid \<and> 0 < fr_pin (frame_at bp' slot)
      \<and> pool_view (pf_view n pf') bp' pid = Some (stamp_bytes (pid_get pid) (as_bytes (guard_read bp' slot)))"
    if "r = Inr slot" for slot
    using fk(3)[OF that] by (simp add: is_resident_def pool_view_def guard_read_def)
  ultimately show ?thesis using fk(1,2) fk(4) unfolding kept_def by blast
qed

theorem fetch_is_transparent_witness:
  "\<exists>r bp' pf'. fetch page_file_store (PageId 3) two_frames empty_page_file = (r, bp', pf')
     \<and> pf_pool_inv 4096 bp' pf'"
proof -
  obtain r bp' pf' where f: "fetch page_file_store (PageId 3) two_frames empty_page_file = (r, bp', pf')"
    by (metis prod_cases3)
  from fetch_is_transparent[OF f empty_page_file(1) conjunct2[OF two_frames(1)] empty_page_file(3)] f
  show ?thesis by blast
qed

text \<open>C20: a pinned page is never evicted: fetch and new_page of any id, flush and flush_all, with
  any outcome, leave every pinned page in its frame, with no pin lost.\<close>

theorem pinned_pages_stay:
  assumes "pf_inv n pf" and "pool_inv n (addressable n) (pf_view n pf) {} bp" and "addressable n pid"
    and "bp_map bp a = Some j" and "0 < fr_pin (frame_at bp j)" and "entry_order bp xs"
    and "bp' \<in> {fst (snd (fetch page_file_store pid bp pf)), fst (snd (new_page page_file_store pid bp pf)),
      fst (snd (flush page_file_store pid bp pf)), fst (snd (flush_all page_file_store xs bp pf))}"
  shows "bp_map bp' a = Some j \<and> fr_pin (frame_at bp j) \<le> fr_pin (frame_at bp' j) \<and> guard_id bp' j = a"
proof -
  note n = pf_inv_32[OF assms(1)]
  have "pins_kept bp bp' \<and> (\<exists>v. pool_inv n (addressable n) v {} bp')"
    using assms(7)
  proof (elim insertE emptyE)
    assume "bp' = fst (snd (fetch page_file_store pid bp pf))"
    then obtain r pf' where "fetch page_file_store pid bp pf = (r, bp', pf')" by (metis prod.collapse)
    from pf.fetch_kept(2)[OF this assms(2,1,3) n] show ?thesis by (auto simp: kept_def)
  next
    assume "bp' = fst (snd (new_page page_file_store pid bp pf))"
    then obtain r pf' where "new_page page_file_store pid bp pf = (r, bp', pf')" by (metis prod.collapse)
    from pf.new_page_correct(2,3)[OF this assms(2,1,3) n] show ?thesis
      by (cases r) (auto simp: kept_def wrote_def)
  next
    assume "bp' = fst (snd (flush page_file_store pid bp pf))"
    then obtain r pf' where "flush page_file_store pid bp pf = (r, bp', pf')" by (metis prod.collapse)
    from pf.flush_kept(2)[OF this assms(2,1) n] show ?thesis by (auto simp: kept_def)
  next
    assume "bp' = fst (snd (flush_all page_file_store xs bp pf))"
    then obtain r pf' where "flush_all page_file_store xs bp pf = (r, bp', pf')" by (metis prod.collapse)
    from pf.flush_all_kept(2)[OF this assms(6,2,1) n] show ?thesis by (auto simp: kept_def)
  qed
  then show ?thesis
    using assms(4,5) slots_inv_D(6)[OF pool_inv_slots, of n "addressable n" _ "{}" bp' a j]
    by (auto simp: pins_kept_def guard_id_def resident_id_def)
qed

theorem pinned_pages_stay_witness:
  "bp_map (fst (snd (fetch page_file_store (PageId 3) one_page empty_page_file))) (PageId 3) = Some 1"
proof -
  have map: "bp_map one_page (PageId 3) = Some 1" using one_page(2) by simp
  show ?thesis
    using pinned_pages_stay[OF empty_page_file(1) one_page(1) empty_page_file(3) map one_page(3,4) insertI1]
    by blast
qed

text \<open>C21: the pool refuses admission only when it must: take_slot, and with it fetch and new_page
  of a page that is not resident, answers BufferPoolExhausted, with the capacity, exactly when
  no frame is free and every frame is pinned (so no error of a read or a write becomes
  BufferPoolExhausted); new_page fails in no other way than this or an I/O error of the victim's
  flush.\<close>

theorem exhausted_iff_all_pinned:
  assumes "pf_inv n pf" and "pool_inv n (addressable n) (pf_view n pf) {} bp" and "addressable n pid"
    and "bp_map bp pid = None"
  shows "(fst (new_page page_file_store pid bp pf) = Inl (BufferPoolExhausted c) \<longleftrightarrow>
      c = bp_capacity bp \<and> bp_free bp = [] \<and> (\<forall>u < bp_capacity bp. 0 < fr_pin (frame_at bp u)))
    \<and> (fst (take_slot page_file_store bp pf) = Inl (BufferPoolExhausted c) \<longleftrightarrow>
      c = bp_capacity bp \<and> bp_free bp = [] \<and> (\<forall>u < bp_capacity bp. 0 < fr_pin (frame_at bp u)))
    \<and> (fst (fetch page_file_store pid bp pf) = Inl (BufferPoolExhausted c) \<longleftrightarrow>
      c = bp_capacity bp \<and> bp_free bp = [] \<and> (\<forall>u < bp_capacity bp. 0 < fr_pin (frame_at bp u)))
    \<and> (\<forall>e. fst (new_page page_file_store pid bp pf) = Inl e \<longrightarrow>
      (\<exists>e'. e = Io e') \<or> e = BufferPoolExhausted (bp_capacity bp))"
proof -
  note n = pf_inv_32[OF assms(1)]
  obtain t bp1 s1 where tk: "take_slot page_file_store bp pf = (t, bp1, s1)" by (metis prod_cases3)
  note tkk = pf.take_slot_kept(4,5)[OF tk assms(2,1) n]
  have t: "t = Inl (BufferPoolExhausted c) \<longleftrightarrow>
      c = bp_capacity bp \<and> bp_free bp = [] \<and> (\<forall>u < bp_capacity bp. 0 < fr_pin (frame_at bp u))"
    using tkk by blast
  obtain r bp2 s2 where np: "new_page page_file_store pid bp pf = (r, bp2, s2)" by (metis prod_cases3)
  have r: "r = Inl e \<longleftrightarrow> t = Inl e" for e
    using pf.new_page_correct(4)[OF np assms(2,1,3) n, of e] assms(4) tk by simp
  obtain u bp3 s3 where fe: "fetch page_file_store pid bp pf = (u, bp3, s3)" by (metis prod_cases3)
  have "u = Inl (BufferPoolExhausted c) \<longleftrightarrow> t = Inl (BufferPoolExhausted c)"
    using fe assms(4) tk read_into_not_exhausted
    by (cases t) (auto simp: fetch_def Let_def page_file_store_def split: prod.splits sum.splits)
  note f = this[unfolded t]
  have "(\<exists>e'. e = Io e') \<or> e = BufferPoolExhausted (bp_capacity bp)" if "t = Inl e" for e
    using tkk(1)[OF that] by blast
  then show ?thesis using t r f unfolding tk np fe fst_conv by blast
qed

text \<open>A pool of one frame that holds a pinned page.\<close>

definition full_pool :: pool where
  "full_pool = install 0 (PageId 3) True (update_frame 0 (\<lambda>fr. fr\<lparr>fr_page := reset (fr_page fr)\<rparr>)
     (BufferPool_new page_file_store empty_page_file 1\<lparr>bp_free := []\<rparr>))"

lemma full_pool: "bp_capacity full_pool = 1" "bp_free full_pool = []" "bp_map full_pool = [PageId 3 \<mapsto> 0]"
  "0 < fr_pin (frame_at full_pool 0)"
  by (simp_all add: full_pool_def install_def Let_def frame_at_update BufferPool_new_def)

lemma full_pool_new: "new_page page_file_store (PageId 3) (BufferPool_new page_file_store empty_page_file 1) empty_page_file
    = (Inr 0, full_pool, empty_page_file)"
  by (simp add: full_pool_def new_page_def take_slot_def BufferPool_new_def Let_def)

theorem exhausted_iff_all_pinned_witness:
  "new_page page_file_store (PageId 3) (BufferPool_new page_file_store empty_page_file 1) empty_page_file
      = (Inr 0, full_pool, empty_page_file)
    \<and> fst (new_page page_file_store (PageId 4) full_pool empty_page_file) = Inl (BufferPoolExhausted 1)
    \<and> fst (fetch page_file_store (PageId 4) full_pool empty_page_file) = Inl (BufferPoolExhausted 1)"
proof -
  note new = pf.BufferPool_new_inv(1)[OF empty_page_file(1), where c = 1 and v = "pf_view 4096 empty_page_file"]
  have inv: "pool_inv 4096 (addressable 4096) (pf_view 4096 empty_page_file) {} full_pool"
    using pf.new_page_correct(3)[OF full_pool_new new empty_page_file(1,3)] by (simp add: wrote_def)
  have "bp_map full_pool (PageId 4) = None" "addressable 4096 (PageId 4)"
    by (simp_all add: full_pool(3) addressable_def)
  from exhausted_iff_all_pinned[OF empty_page_file(1) inv this(2,1), of 1] full_pool full_pool_new
  show ?thesis by simp
qed

text \<open>C23: the clock finds a victim within its two passes exactly when some frame is unpinned; the
  victim is unpinned; and a frame that is unpinned but was referenced gets its second chance: it
  is not chosen while there is an unpinned frame that was not referenced.\<close>

theorem clock_victim:
  assumes "slots_inv n {} bp" and "find_victim bp = (r, bp')"
  shows "(r = None \<longleftrightarrow> (\<forall>u < bp_capacity bp. 0 < fr_pin (frame_at bp u)))
    \<and> (\<forall>v. r = Some v \<longrightarrow> v < bp_capacity bp \<and> fr_pin (frame_at bp v) = 0
      \<and> ((\<exists>u < bp_capacity bp. fr_pin (frame_at bp u) = 0 \<and> \<not> fr_referenced (frame_at bp u))
          \<longrightarrow> \<not> fr_referenced (frame_at bp v)))
    \<and> slots_inv n {} bp'"
proof -
  have hand: "hand_ok bp" using slots_inv_D[OF assms(1)] by (simp add: hand_ok_def)
  note fv = find_victim_correct[OF assms(2) hand]
  have "\<not> fr_referenced (frame_at bp v)"
    if "r = Some v" "u < bp_capacity bp" "fr_pin (frame_at bp u) = 0" "\<not> fr_referenced (frame_at bp u)" for u v
  proof -
    have "dist bp u < 2 * bp_capacity bp" using dist_turn(3)[OF hand that(2)] by simp
    from sweep_finds_unreferenced[OF hand that(2-4) this] show ?thesis
      using assms(2) that(1) by (auto simp: find_victim_def)
  qed
  then have chance: "(\<exists>u < bp_capacity bp. fr_pin (frame_at bp u) = 0 \<and> \<not> fr_referenced (frame_at bp u))
      \<longrightarrow> \<not> fr_referenced (frame_at bp v)" if "r = Some v" for v
    using that by blast
  have inv': "slots_inv n {} bp'"
  proof -
    define v where "v = (\<lambda>pid. map_option (\<lambda>j. as_bytes (fr_page (frame_at bp j))) (bp_map bp pid))"
    have "pool_inv n (\<lambda>_. True) v {} bp"
      using assms(1) by (simp add: pool_inv_def coherent_def v_def)
    then have "pool_inv n (\<lambda>_. True) v {} bp'"
      by (simp only: clock_only_inv(1)[OF fv(1,2) hand])
    then show ?thesis by (rule pool_inv_slots)
  qed
  show ?thesis
  proof (intro conjI allI impI)
    show "r = None \<longleftrightarrow> (\<forall>u < bp_capacity bp. 0 < fr_pin (frame_at bp u))" by (rule fv(4))
  qed (use fv(3) chance inv' in blast)+
qed

theorem clock_victim_witness:
  "\<exists>r bp'. find_victim one_page = (r, bp') \<and> slots_inv 4096 {} bp'"
proof -
  note inv = pool_inv_slots[OF one_page(1)]
  have fv: "find_victim one_page = (fst (find_victim one_page), snd (find_victim one_page))" by simp
  show ?thesis using clock_victim[OF inv fv] fv by blast
qed

text \<open>C24: no outcome of a run leaks a frame: at every point the resident pages and the free frames
  together are the capacity, each resident page is in exactly one frame, and free frames are
  unpinned.\<close>

theorem frames_never_leak:
  assumes "pool_run page_file_store n (addressable n) (BufferPool_new page_file_store pf c) pf es bp pf'"
    and "pf_inv n pf"
  shows "resident_len bp + length (bp_free bp) = bp_capacity bp \<and> 1 \<le> bp_capacity bp
    \<and> (\<forall>a b j. bp_map bp a = Some j \<longrightarrow> bp_map bp b = Some j \<longrightarrow> a = b)
    \<and> (\<forall>j \<in> set (bp_free bp). fr_pin (frame_at bp j) = 0)"
proof -
  note new = pf.BufferPool_new_inv(1,2)[OF assms(2), where v = "pf_view n pf" and c = c]
  have "agrees (addressable n) Map.empty (pool_view (pf_view n pf) (BufferPool_new page_file_store pf c))"
    by (simp add: agrees_def)
  then have inv: "slots_inv n {} bp"
    using pf.run_consistent[OF assms(1) new(1) assms(2) pf_inv_32[OF assms(2)]] pool_inv_slots by blast
  show ?thesis
    using slots_partition[OF inv] slots_inv_D(2,12)[OF inv] slots_inv_map_inj[OF inv]
    by (auto simp: Suc_le_eq)
qed

theorem frames_never_leak_witness:
  "resident_len two_frames + length (bp_free two_frames) = 2"
  using frames_never_leak[OF pool_run.stop[of page_file_store 4096 "addressable 4096"] empty_page_file(1), of 2]
    two_frames(3) by (simp add: two_frames_def)

text \<open>A flush of the whole pool, in whatever order the map lists its pages, that returns Ok
  leaves every resident page in the file and no frame dirty; one that fails at some page has
  lost nothing and may be retried.\<close>

lemma flush_all_writes_everything:
  assumes "flush_all page_file_store xs bp pf = (r, bp', pf')" and "entry_order bp xs"
    and "pf_inv n pf" and "pool_inv n (addressable n) (pf_view n pf) {} bp"
  shows "pf_pool_inv n bp' pf' \<and> bp_map bp' = bp_map bp
    \<and> keeps (addressable n) (pool_view (pf_view n pf) bp) (pool_view (pf_view n pf') bp')
    \<and> (r = Inr () \<longrightarrow> (\<forall>pid bs. addressable n pid \<longrightarrow> pool_view (pf_view n pf) bp pid = Some bs \<longrightarrow>
          pf_view n pf' pid = Some bs))
    \<and> (r \<noteq> Inr () \<longrightarrow> (\<exists>e. r = Inl (Io e)) \<and> entry_order bp' xs)"
proof -
  note fk = pf.flush_all_kept[OF assms(1,2,4,3) pf_inv_32[OF assms(3)]]
  have "entry_order bp' xs" using assms(2) fk(3) by (simp add: entry_order_def)
  moreover have "\<exists>e. r = Inl (Io e)" if "r \<noteq> Inr ()" using that fk(4) by (cases r) auto
  moreover have "pf_view n pf' pid = Some bs"
    if "r = Inr ()" "addressable n pid" "pool_view (pf_view n pf) bp pid = Some bs" for pid bs
    using fk(2) fk(5)[OF that(1)] that(2,3) by (simp add: kept_def keeps_def)
  ultimately show ?thesis using fk(1-3) unfolding kept_def by blast
qed

text \<open>C2: after a checkpoint that returned Ok, a crash loses nothing: the bytes on stable storage
  alone hold every page the pool held, each in its slot.\<close>

theorem checkpoint_is_durable:
  assumes "checkpoint page_file_store xs bp pf = (Inr (), bp', pf')" and "entry_order bp xs"
    and "pf_inv n pf" and "pool_inv n (addressable n) (pf_view n pf) {} bp"
    and "addressable n pid" and "pool_view (pf_view n pf) bp pid = Some bs"
  shows "pf_view n (pf'\<lparr>pf_file := (pf_file pf')\<lparr>f_data := f_durable (pf_file pf')\<rparr>\<rparr>) pid = Some bs"
proof -
  note ck = pf.checkpoint_kept[OF assms(1,2,4,3) pf_inv_32[OF assms(3)]]
  obtain pf1 where "flush_all page_file_store xs bp pf = (Inr (), bp', pf1)"
    and sync: "PageFile_sync pf1 = (Inr (), pf')"
    using assms(1) by (auto simp: checkpoint_def pool_sync_def page_file_store_def Let_def
        split: prod.splits sum.splits)
  have "f_durable (pf_file pf') = pf_data pf'" using sync_correct(2,5)[OF sync] by simp
  then have "pf_view n (pf'\<lparr>pf_file := (pf_file pf')\<lparr>f_data := f_durable (pf_file pf')\<rparr>\<rparr>) = pf_view n pf'"
    by (intro pf_view_cong) simp
  moreover have "pf_view n pf' pid = Some bs"
    using ck(2) ck(4)[OF refl] assms(5,6) by (simp add: kept_def keeps_def)
  ultimately show ?thesis by simp
qed

theorem checkpoint_is_durable_witness:
  "\<exists>bp' pf' bs. checkpoint page_file_store [(PageId 3, 1)] one_page empty_page_file = (Inr (), bp', pf')
     \<and> pf_view 4096 (pf'\<lparr>pf_file := (pf_file pf')\<lparr>f_data := f_durable (pf_file pf')\<rparr>\<rparr>) (PageId 3) = Some bs"
proof -
  have slot: "bp_map one_page (PageId 3) = Some 1" using one_page(2) by simp
  note sl = slots_inv_D[OF pool_inv_slots[OF one_page(1)]]
  have dirty: "fr_dirty (frame_at one_page 1)"
    by (simp add: one_page_def install_def Let_def frame_at_update two_frames_def BufferPool_new_def)
  have "page_wf 4096 (fr_page (frame_at one_page 1))" by (rule sl(4)[OF sl(5)[OF slot]])
  then obtain p' pf1 where
    w: "PageFile_write_page empty_page_file (PageId 3) (fr_page (frame_at one_page 1)) = (Inr (), p', pf1)"
    and benign: "benign (pf_sched pf1)"
    using write_page_benign[OF empty_page_file(1) _ empty_page_file(3,2)] by blast
  obtain u pf2 where y: "PageFile_sync pf1 = (u, pf2)" by (metis prod.exhaust)
  have u: "u = Inr ()" using sync_benign[OF y benign] .
  have "\<exists>bp'. checkpoint page_file_store [(PageId 3, 1)] one_page empty_page_file = (Inr (), bp', pf2)"
    using w dirty y u by (simp add: checkpoint_def flush_all_def flush_slot_def page_file_store_def pool_sync_def)
  then obtain bp' where c: "checkpoint page_file_store [(PageId 3, 1)] one_page empty_page_file = (Inr (), bp', pf2)"
    by blast
  obtain bs where "pool_view (pf_view 4096 empty_page_file) one_page (PageId 3) = Some bs"
    by (simp add: pool_view_def slot)
  from checkpoint_is_durable[OF c one_page(4) empty_page_file(1) one_page(1) empty_page_file(3) this] c
  show ?thesis by blast
qed

text \<open>C25: on a file whose schedule holds only short transfers and interruptions, a fetch of a page
  that exists succeeds as soon as it is resident, a frame is free or a frame is unpinned, and its
  guard shows that page.\<close>

theorem fetch_succeeds:
  assumes "pf_inv n pf" and "benign (pf_sched pf)"
    and "pool_inv n (addressable n) (pf_view n pf) {} bp" and "addressable n pid"
    and "pool_view (pf_view n pf) bp pid = Some bs"
    and "is_resident bp pid \<or> bp_free bp \<noteq> [] \<or> (\<exists>u < bp_capacity bp. fr_pin (frame_at bp u) = 0)"
  shows "\<exists>slot bp' pf'. fetch page_file_store pid bp pf = (Inr slot, bp', pf')
    \<and> stamp_bytes (pid_get pid) (as_bytes (guard_read bp' slot)) = bs"
  using assms pf_inv_32[OF assms(1)]
  by (intro pfr.fetch_total) (auto simp: pf_good_def is_resident_def)

theorem fetch_succeeds_witness:
  "\<exists>slot bp' pf'. fetch page_file_store (PageId 3) one_page empty_page_file = (Inr slot, bp', pf')"
proof -
  have "\<exists>bs. pool_view (pf_view 4096 empty_page_file) one_page (PageId 3) = Some bs"
    "is_resident one_page (PageId 3)"
    by (simp_all add: pool_view_def is_resident_def one_page(2))
  then show ?thesis
    using fetch_succeeds[OF empty_page_file(1,2) one_page(1) empty_page_file(3)] by blast
qed

text \<open>New_page, when it returns, holds a pinned, dirty blank page at the id, whatever was there,
  without reading the store, and every other page is kept; when it fails, all pages are.\<close>

lemma new_page_is_blank:
  assumes "new_page page_file_store pid bp pf = (r, bp', pf')"
    and "pf_inv n pf" and "pool_inv n (addressable n) (pf_view n pf) {} bp" and "addressable n pid"
  shows "pf_pool_inv n bp' pf'
    \<and> (\<forall>slot. r = Inr slot \<longrightarrow> as_bytes (guard_read bp' slot) = blank_bytes n
        \<and> 0 < fr_pin (frame_at bp' slot) \<and> guard_id bp' slot = pid
        \<and> keeps (\<lambda>i. addressable n i \<and> i \<noteq> pid) (pool_view (pf_view n pf) bp) (pool_view (pf_view n pf') bp'))
    \<and> (\<forall>e. r = Inl e \<longrightarrow>
        keeps (addressable n) (pool_view (pf_view n pf) bp) (pool_view (pf_view n pf') bp'))"
proof -
  note nk = pf.new_page_correct(1-3)[OF assms(1,3,2,4) pf_inv_32[OF assms(2)]]
  have inv: "pool_inv n (addressable n) (pf_view n pf') {} bp'"
    using nk(2,3) by (cases r) (auto simp: kept_def wrote_def)
  have "guard_id bp' slot = pid" if "r = Inr slot" for slot
    using slots_inv_D(6)[OF pool_inv_slots[OF inv], of pid slot] nk(3)[OF that]
    by (simp add: guard_id_def resident_id_def)
  then show ?thesis
    using nk inv by (auto simp: kept_def wrote_def guard_read_def)
qed

end
