(* ===== verification/FrameRace.thy ===== *)
theory FrameRace
  imports PoolRuns
begin

text \<open>
  One frame of the pool under several threads (\<^verbatim>\<open>src/pool.rs\<close> over the locks of
  \<^verbatim>\<open>src/sync.rs\<close>).  \<open>Pool\<close> runs each method in one step; here the methods that
  meet on a frame, \<^verbatim>\<open>PageGuard::write\<close>, \<^verbatim>\<open>PageGuard::read\<close> and \<^verbatim>\<open>flush\<close> with its
  \<^verbatim>\<open>flush_slot\<close>, are split at every access to an atomic and at every lock, and any
  number of agents interleave them.  \<open>atomic_frame_operations\<close> shows that an
  undisturbed run is the one step of \<open>Pool\<close>; \<open>page_lock_excludes\<close> and
  \<open>frame_runs_never_block\<close> hold of all runs; \<open>quiet_runs_stay_coherent\<close> says which
  runs keep the pool's invariant, and \<open>flush_forgets_waiting_write\<close> that the others
  can lose a write.
\<close>

section \<open>The locks\<close>

text \<open>
  The locks of the standard library, as \<^verbatim>\<open>src/sync.rs\<close> uses them: acquiring gives the
  guard or the guard inside a poison error, \<^verbatim>\<open>None\<close> here is a call that blocks.
  A \<^verbatim>\<open>RwLock\<close> is poisoned when a thread panics while it holds the write lock.
\<close>

datatype 'g lock_result = Locked 'g | Poisoned 'g

record mutex =
  mx_holder :: "nat option"
  mx_poisoned :: bool

record page_lock =
  pl_writer :: "nat option"
  pl_readers :: "nat set"
  pl_poisoned :: bool

definition mutex_lock :: "nat \<Rightarrow> mutex \<Rightarrow> mutex lock_result option" where
  "mutex_lock t m =
    (if mx_holder m = None
     then Some ((if mx_poisoned m then Poisoned else Locked) (m\<lparr>mx_holder := Some t\<rparr>))
     else None)"

definition rwlock_write :: "nat \<Rightarrow> page_lock \<Rightarrow> page_lock lock_result option" where
  "rwlock_write t l =
    (if pl_writer l = None \<and> pl_readers l = {}
     then Some ((if pl_poisoned l then Poisoned else Locked) (l\<lparr>pl_writer := Some t\<rparr>))
     else None)"

definition rwlock_read :: "nat \<Rightarrow> page_lock \<Rightarrow> page_lock lock_result option" where
  "rwlock_read t l =
    (if pl_writer l = None
     then Some ((if pl_poisoned l then Poisoned else Locked) (l\<lparr>pl_readers := insert t (pl_readers l)\<rparr>))
     else None)"

text \<open>\<^verbatim>\<open>lock\<close>, \<^verbatim>\<open>read\<close> and \<^verbatim>\<open>write\<close> of \<^verbatim>\<open>src/sync.rs\<close>: a poisoned lock is taken all the same.\<close>

definition sync_lock :: "'g lock_result \<Rightarrow> 'g" where
  "sync_lock r = (case r of Locked g \<Rightarrow> g | Poisoned g \<Rightarrow> g)"

definition sync_read :: "'g lock_result \<Rightarrow> 'g" where
  "sync_read r = (case r of Locked g \<Rightarrow> g | Poisoned g \<Rightarrow> g)"

definition sync_write :: "'g lock_result \<Rightarrow> 'g" where
  "sync_write r = (case r of Locked g \<Rightarrow> g | Poisoned g \<Rightarrow> g)"

section \<open>The steps\<close>

text \<open>
  Where an agent stands.  An agent is one borrow or one call of \<^verbatim>\<open>flush\<close>: \<open>Marked\<close> has
  set the dirty flag and waits for the lock, \<open>Writing\<close> and \<open>Reading\<close> hold a
  \<^verbatim>\<open>PageMut\<close> or a \<^verbatim>\<open>PageRef\<close>; a flush holds the pool's mutex from \<open>InCore\<close> to \<open>Done\<close>
  and the page's write lock from \<open>Flushing\<close> to \<open>Unlocking\<close>.
\<close>

datatype agent_pc =
    Idle | Marked | Writing | Reading
  | InCore | Loaded | Flushing | Written | Unlocking "unit page_result" | Done "unit page_result"

datatype write_action = MarkDirty | LockWrite | Mutate "page \<Rightarrow> page" | UnlockWrite | Panic
datatype read_action = LockRead | UnlockRead
datatype flush_action =
  EnterFlush | LoadDirty | LockFlush | WriteOut | ClearDirty | UnlockFlush | LeaveFlush

datatype action = W write_action | R read_action | F flush_action

record 's race =
  ra_pool :: pool
  ra_store :: 's
  ra_core :: mutex
  ra_lock :: page_lock
  ra_pc :: "nat \<Rightarrow> agent_pc"

definition goto :: "nat \<Rightarrow> agent_pc \<Rightarrow> 's race \<Rightarrow> 's race" where
  "goto t pc st = st\<lparr>ra_pc := (ra_pc st)(t := pc)\<rparr>"

definition set_dirty :: "nat \<Rightarrow> bool \<Rightarrow> 's race \<Rightarrow> 's race" where
  "set_dirty slot d st = st\<lparr>ra_pool := update_frame slot (\<lambda>fr. fr\<lparr>fr_dirty := d\<rparr>) (ra_pool st)\<rparr>"

definition set_page :: "nat \<Rightarrow> page \<Rightarrow> 's race \<Rightarrow> 's race" where
  "set_page slot p st = st\<lparr>ra_pool := update_frame slot (\<lambda>fr. fr\<lparr>fr_page := p\<rparr>) (ra_pool st)\<rparr>"

definition unlock_write :: "'s race \<Rightarrow> 's race" where
  "unlock_write st = st\<lparr>ra_lock := (ra_lock st)\<lparr>pl_writer := None\<rparr>\<rparr>"

text \<open>\<^verbatim>\<open>PageGuard::write\<close>, the use of its borrow and the drop of the borrow.\<close>

fun write_act :: "nat \<Rightarrow> nat \<Rightarrow> write_action \<Rightarrow> 's race \<Rightarrow> 's race option" where
  "write_act slot t MarkDirty st =
    (if ra_pc st t = Idle then Some (goto t Marked (set_dirty slot True st)) else None)"
| "write_act slot t LockWrite st =
    (if ra_pc st t = Marked
     then map_option (\<lambda>r. goto t Writing (st\<lparr>ra_lock := sync_write r\<rparr>)) (rwlock_write t (ra_lock st))
     else None)"
| "write_act slot t (Mutate f) st =
    (if ra_pc st t = Writing then Some (set_page slot (f (fr_page (frame_at (ra_pool st) slot))) st)
     else None)"
| "write_act slot t UnlockWrite st =
    (if ra_pc st t = Writing then Some (goto t Idle (unlock_write st)) else None)"
| "write_act slot t Panic st =
    (if ra_pc st t = Writing
     then Some (goto t Idle (unlock_write (st\<lparr>ra_lock := (ra_lock st)\<lparr>pl_poisoned := True\<rparr>\<rparr>)))
     else None)"

text \<open>\<^verbatim>\<open>PageGuard::read\<close>.\<close>

fun read_act :: "nat \<Rightarrow> read_action \<Rightarrow> 's race \<Rightarrow> 's race option" where
  "read_act t LockRead st =
    (if ra_pc st t = Idle
     then map_option (\<lambda>r. goto t Reading (st\<lparr>ra_lock := sync_read r\<rparr>)) (rwlock_read t (ra_lock st))
     else None)"
| "read_act t UnlockRead st =
    (if ra_pc st t = Reading
     then Some (goto t Idle (st\<lparr>ra_lock := (ra_lock st)\<lparr>pl_readers := pl_readers (ra_lock st) - {t}\<rparr>\<rparr>))
     else None)"

text \<open>\<^verbatim>\<open>flush\<close> of the page \<open>pid\<close>, resident in the frame \<open>slot\<close>, with \<^verbatim>\<open>flush_slot\<close>.\<close>

fun flush_act :: "'s store_ops \<Rightarrow> page_id \<Rightarrow> nat \<Rightarrow> nat \<Rightarrow> flush_action \<Rightarrow> 's race \<Rightarrow> 's race option" where
  "flush_act ops pid slot t EnterFlush st =
    (if ra_pc st t = Idle
     then map_option (\<lambda>r. goto t (if bp_map (ra_pool st) pid = Some slot then InCore else Done (Inr ()))
            (st\<lparr>ra_core := sync_lock r\<rparr>)) (mutex_lock t (ra_core st))
     else None)"
| "flush_act ops pid slot t LoadDirty st =
    (if ra_pc st t = InCore
     then Some (goto t (if fr_dirty (frame_at (ra_pool st) slot) then Loaded else Done (Inr ())) st)
     else None)"
| "flush_act ops pid slot t LockFlush st =
    (if ra_pc st t = Loaded
     then map_option (\<lambda>r. goto t Flushing (st\<lparr>ra_lock := sync_write r\<rparr>)) (rwlock_write t (ra_lock st))
     else None)"
| "flush_act ops pid slot t WriteOut st =
    (if ra_pc st t = Flushing
     then (case so_write_page ops (ra_store st) pid (fr_page (frame_at (ra_pool st) slot)) of
             (r, p', s') \<Rightarrow> Some (goto t (case r of Inr _ \<Rightarrow> Written | Inl e \<Rightarrow> Unlocking (Inl e))
               (set_page slot p' (st\<lparr>ra_store := s'\<rparr>))))
     else None)"
| "flush_act ops pid slot t ClearDirty st =
    (if ra_pc st t = Written then Some (goto t (Unlocking (Inr ())) (set_dirty slot False st)) else None)"
| "flush_act ops pid slot t UnlockFlush st =
    (case ra_pc st t of Unlocking r \<Rightarrow> Some (goto t (Done r) (unlock_write st)) | _ \<Rightarrow> None)"
| "flush_act ops pid slot t LeaveFlush st =
    (case ra_pc st t of
       Done r \<Rightarrow> Some (goto t Idle (st\<lparr>ra_core := (ra_core st)\<lparr>mx_holder := None\<rparr>\<rparr>))
     | _ \<Rightarrow> None)"

fun act :: "'s store_ops \<Rightarrow> page_id \<Rightarrow> nat \<Rightarrow> nat \<Rightarrow> action \<Rightarrow> 's race \<Rightarrow> 's race option" where
  "act ops pid slot t (W a) st = write_act slot t a st"
| "act ops pid slot t (R a) st = read_act t a st"
| "act ops pid slot t (F a) st = flush_act ops pid slot t a st"

text \<open>A schedule runs if every step of it can be taken.\<close>

primrec exec :: "'s store_ops \<Rightarrow> page_id \<Rightarrow> nat \<Rightarrow> (nat \<times> action) list \<Rightarrow> 's race \<Rightarrow> 's race option" where
  "exec ops pid slot [] st = Some st"
| "exec ops pid slot (x # xs) st =
    (case act ops pid slot (fst x) (snd x) st of
       None \<Rightarrow> None
     | Some st' \<Rightarrow> exec ops pid slot xs st')"

text \<open>
  The states a run can reach from \<open>st0\<close>, when \<open>allowed\<close> holds of each step.  What
  the borrowers do to the page keeps it a page.
\<close>

inductive race_reach ::
  "'s store_ops \<Rightarrow> nat \<Rightarrow> page_id \<Rightarrow> nat \<Rightarrow> (action \<Rightarrow> 's race \<Rightarrow> bool) \<Rightarrow> 's race \<Rightarrow> 's race \<Rightarrow> bool"
  for ops n pid slot allowed st0 where
  start: "race_reach ops n pid slot allowed st0 st0"
| step: "race_reach ops n pid slot allowed st0 st \<Longrightarrow> allowed a st \<Longrightarrow>
    (\<And>f p. a = W (Mutate f) \<Longrightarrow> page_wf n p \<Longrightarrow> page_wf n (f p)) \<Longrightarrow>
    act ops pid slot t a st = Some st' \<Longrightarrow> race_reach ops n pid slot allowed st0 st'"

definition any_step :: "action \<Rightarrow> 's race \<Rightarrow> bool" where
  "any_step a st = True"

text \<open>No flush clears the dirty flag while a writer has set it and not yet taken the lock.\<close>

definition quiet_step :: "action \<Rightarrow> 's race \<Rightarrow> bool" where
  "quiet_step a st \<longleftrightarrow> (a = F ClearDirty \<longrightarrow> (\<forall>u. ra_pc st u \<noteq> Marked))"

definition race_start :: "pool \<Rightarrow> 's \<Rightarrow> 's race" where
  "race_start bp s =
    \<lparr>ra_pool = bp, ra_store = s, ra_core = \<lparr>mx_holder = None, mx_poisoned = False\<rparr>,
     ra_lock = \<lparr>pl_writer = None, pl_readers = {}, pl_poisoned = False\<rparr>, ra_pc = (\<lambda>_. Idle)\<rparr>"

lemmas race_defs = goto_def set_dirty_def set_page_def unlock_write_def
  mutex_lock_def rwlock_write_def rwlock_read_def

lemma sync_simps [simp]:
  "sync_lock (Locked g) = g" "sync_lock (Poisoned g) = g" "sync_read (Locked g) = g"
  "sync_read (Poisoned g) = g" "sync_write (Locked g) = g" "sync_write (Poisoned g) = g"
  by (simp_all add: sync_lock_def sync_read_def sync_write_def)

lemma sync_any [simp]:
  "sync_lock ((if b then Poisoned else Locked) g) = g"
  "sync_read ((if b then Poisoned else Locked) g) = g"
  "sync_write ((if b then Poisoned else Locked) g) = g"
  by simp_all

section \<open>The locks exclude each other\<close>

fun holds_write :: "agent_pc \<Rightarrow> bool" where
  "holds_write Writing = True" | "holds_write Flushing = True" | "holds_write Written = True"
| "holds_write (Unlocking r) = True" | "holds_write _ = False"

fun in_core :: "agent_pc \<Rightarrow> bool" where
  "in_core InCore = True" | "in_core Loaded = True" | "in_core Flushing = True"
| "in_core Written = True" | "in_core (Unlocking r) = True" | "in_core (Done r) = True"
| "in_core _ = False"

definition lock_inv :: "'s race \<Rightarrow> bool" where
  "lock_inv st \<longleftrightarrow> (\<forall>t. pl_writer (ra_lock st) = Some t \<longleftrightarrow> holds_write (ra_pc st t))
     \<and> (\<forall>t. t \<in> pl_readers (ra_lock st) \<longleftrightarrow> ra_pc st t = Reading)
     \<and> (pl_writer (ra_lock st) \<noteq> None \<longrightarrow> pl_readers (ra_lock st) = {})
     \<and> (\<forall>t. mx_holder (ra_core st) = Some t \<longleftrightarrow> in_core (ra_pc st t))"

lemma lock_inv_unique:
  assumes "lock_inv st"
  shows "holds_write (ra_pc st t) \<longrightarrow> (\<forall>u. u \<noteq> t \<longrightarrow> \<not> holds_write (ra_pc st u))"
    and "in_core (ra_pc st t) \<longrightarrow> (\<forall>u. u \<noteq> t \<longrightarrow> \<not> in_core (ra_pc st u))"
    and "holds_write (ra_pc st t) \<Longrightarrow> ra_pc st u \<noteq> Reading"
  using assms unfolding lock_inv_def by (metis option.inject, metis option.inject, metis empty_iff option.distinct(1))

lemma act_lock_inv:
  assumes "act ops pid slot t a st = Some st'" and "lock_inv st"
  shows "lock_inv st'"
proof (cases a)
  case (W w)
  then show ?thesis using assms lock_inv_unique(1,2)[OF assms(2), of t]
    by (cases w) (auto simp: lock_inv_def race_defs split: if_splits)
next
  case (R r)
  then show ?thesis using assms
    by (cases r) (auto simp: lock_inv_def race_defs split: if_splits)
next
  case (F f)
  then show ?thesis using assms lock_inv_unique(1,2)[OF assms(2), of t]
    by (cases f) (auto simp: lock_inv_def race_defs split: if_splits prod.splits sum.splits agent_pc.splits)
qed

lemma race_reach_lock_inv: "race_reach ops n pid slot allowed st0 st \<Longrightarrow> lock_inv st0 \<Longrightarrow> lock_inv st"
  by (induction rule: race_reach.induct) (auto intro: act_lock_inv)

lemma race_start_lock_inv [simp]: "lock_inv (race_start bp s)"
  by (simp add: lock_inv_def race_start_def)

section \<open>Undisturbed runs\<close>

definition write_schedule :: "nat \<Rightarrow> (page \<Rightarrow> page) \<Rightarrow> (nat \<times> action) list" where
  "write_schedule t f = [(t, W MarkDirty), (t, W LockWrite), (t, W (Mutate f)), (t, W UnlockWrite)]"

text \<open>The steps a flush takes, by whether the page is dirty and whether it could be written.\<close>

definition flush_schedule :: "nat \<Rightarrow> bool \<Rightarrow> bool \<Rightarrow> (nat \<times> action) list" where
  "flush_schedule t dirty ok =
    map (\<lambda>a. (t, F a)) ([EnterFlush, LoadDirty]
      @ (if dirty then [LockFlush, WriteOut] @ (if ok then [ClearDirty] else []) @ [UnlockFlush] else [])
      @ [LeaveFlush])"

definition unlocked :: "'s race \<Rightarrow> bool" where
  "unlocked st \<longleftrightarrow> mx_holder (ra_core st) = None \<and> pl_writer (ra_lock st) = None
     \<and> pl_readers (ra_lock st) = {}"

lemma race_eqI:
  "ra_pool a = ra_pool b \<Longrightarrow> ra_store a = ra_store b \<Longrightarrow> ra_core a = ra_core b \<Longrightarrow> ra_lock a = ra_lock b \<Longrightarrow>
   ra_pc a = ra_pc b \<Longrightarrow> a = (b :: 's race)"
  by (cases a; cases b) simp

lemma lock_released [simp]:
  "mx_holder m = None \<Longrightarrow> m\<lparr>mx_holder := None\<rparr> = m" "pl_writer l = None \<Longrightarrow> l\<lparr>pl_writer := None\<rparr> = l"
  by simp_all

lemma exec_write_schedule:
  assumes "unlocked st" and "ra_pc st t = Idle" and "slot < length (bp_frames (ra_pool st))"
  shows "exec ops pid slot (write_schedule t f) st = Some (st\<lparr>ra_pool := guard_write slot f (ra_pool st)\<rparr>)"
  using assms
  by (auto intro!: race_eqI simp: write_schedule_def unlocked_def race_defs guard_write_def
      frame_at_update update_frame_def frame_at_def)

lemma exec_flush_schedule:
  assumes "unlocked st" and "ra_pc st t = Idle" and "slot < length (bp_frames (ra_pool st))"
    and "bp_map (ra_pool st) pid = Some slot"
    and fl: "flush ops pid (ra_pool st) (ra_store st) = (r, bp', s')"
  shows "exec ops pid slot (flush_schedule t (fr_dirty (frame_at (ra_pool st) slot)) (r = Inr ())) st =
    Some (st\<lparr>ra_pool := bp', ra_store := s'\<rparr>)"
proof (cases "fr_dirty (frame_at (ra_pool st) slot)")
  case False
  then show ?thesis using assms
    by (auto intro!: race_eqI simp: flush_schedule_def unlocked_def race_defs flush_def flush_slot_def)
next
  case True
  obtain u p1 s1 where w: "so_write_page ops (ra_store st) pid (fr_page (frame_at (ra_pool st) slot)) = (u, p1, s1)"
    by (metis prod_cases3)
  have res: "r = u \<and> s' = s1 \<and> bp' = (case u of
      Inl e \<Rightarrow> update_frame slot (\<lambda>fr. fr\<lparr>fr_page := p1\<rparr>) (ra_pool st)
    | Inr _ \<Rightarrow> update_frame slot (\<lambda>fr. fr\<lparr>fr_page := p1, fr_dirty := False\<rparr>) (ra_pool st))"
    using fl unfolding flush_def flush_slot_def assms(4) option.case w prod.case if_P[OF True]
    by (cases u) auto
  note flags = assms(1)[unfolded unlocked_def] assms(2,3,4) True w
  show ?thesis
  proof (cases u)
    case (Inl e)
    show ?thesis
      using flags using res unfolding Inl
      by (simp add: flush_schedule_def race_defs, intro race_eqI)
        (simp_all add: fun_upd_idem)
  next
    case (Inr v)
    show ?thesis
      using flags using res unfolding Inr
      by (simp add: flush_schedule_def race_defs, intro race_eqI)
        (simp_all add: fun_upd_idem update_frame_def frame_at_def)
  qed
qed

section \<open>Progress\<close>

lemma non_idle_step:
  assumes "lock_inv st" and "ra_pc st t \<noteq> Idle"
  shows "\<exists>u a st'. ra_pc st u \<noteq> Idle \<and> act ops pid slot u a st = Some st' \<and> ra_pc st' u \<noteq> ra_pc st u
    \<and> a \<noteq> W Panic"
proof (cases "pl_writer (ra_lock st)")
  case (Some u)
  then have u: "holds_write (ra_pc st u)" using assms(1) unfolding lock_inv_def by blast
  obtain r p' s' where w: "so_write_page ops (ra_store st) pid (fr_page (frame_at (ra_pool st) slot)) = (r, p', s')"
    by (metis prod_cases3)
  show ?thesis
  proof (cases "ra_pc st u")
    case Writing
    then show ?thesis by (intro exI[of _ u] exI[of _ "W UnlockWrite"]) (simp add: race_defs)
  next
    case Flushing
    then show ?thesis using w
      by (intro exI[of _ u] exI[of _ "F WriteOut"]) (simp add: race_defs split: sum.splits)
  next
    case Written
    then show ?thesis by (intro exI[of _ u] exI[of _ "F ClearDirty"]) (simp add: race_defs)
  next
    case (Unlocking v)
    then show ?thesis by (intro exI[of _ u] exI[of _ "F UnlockFlush"]) (simp add: race_defs)
  qed (use u in simp_all)
next
  case free: None
  show ?thesis
  proof (cases "pl_readers (ra_lock st) = {}")
    case False
    then obtain u where "ra_pc st u = Reading" using assms(1) by (auto simp: lock_inv_def)
    then show ?thesis by (intro exI[of _ u] exI[of _ "R UnlockRead"]) (simp add: race_defs)
  next
    case True
    have t: "\<not> holds_write (ra_pc st t)" "ra_pc st t \<noteq> Reading"
      using assms(1) free True by (auto simp: lock_inv_def)
    show ?thesis
    proof (cases "ra_pc st t")
      case Marked
      then show ?thesis using free True
        by (intro exI[of _ t] exI[of _ "W LockWrite"]) (simp add: race_defs)
    next
      case InCore
      then show ?thesis by (intro exI[of _ t] exI[of _ "F LoadDirty"]) (simp add: race_defs)
    next
      case Loaded
      then show ?thesis using free True
        by (intro exI[of _ t] exI[of _ "F LockFlush"]) (simp add: race_defs)
    next
      case (Done v)
      then show ?thesis by (intro exI[of _ t] exI[of _ "F LeaveFlush"]) (simp add: race_defs)
    qed (use t assms(2) in simp_all)
  qed
qed

section \<open>Quiet runs\<close>

fun needs_dirty :: "agent_pc \<Rightarrow> bool" where
  "needs_dirty Marked = True" | "needs_dirty Writing = True" | "needs_dirty Loaded = True"
| "needs_dirty Flushing = True" | "needs_dirty Written = True" | "needs_dirty _ = False"

definition race_sound ::
  "nat \<Rightarrow> (page_id \<Rightarrow> bool) \<Rightarrow> (page_id \<Rightarrow> bytes option) \<Rightarrow> page_id \<Rightarrow> nat \<Rightarrow> 's race \<Rightarrow> bool" where
  "race_sound n ids v pid slot st \<longleftrightarrow> pool_inv n ids v {} (ra_pool st) \<and> bp_map (ra_pool st) pid = Some slot
     \<and> (\<forall>t. needs_dirty (ra_pc st t) \<longrightarrow> fr_dirty (frame_at (ra_pool st) slot))
     \<and> (\<forall>t. ra_pc st t = Written \<longrightarrow> v pid = Some (as_bytes (fr_page (frame_at (ra_pool st) slot))))"

lemma race_sound_update:
  assumes "race_sound n ids v pid slot st"
    and "page_wf n (fr_page (f (frame_at (ra_pool st) slot)))"
    and "fr_id (f (frame_at (ra_pool st) slot)) = fr_id (frame_at (ra_pool st) slot)"
    and "\<not> fr_dirty (f (frame_at (ra_pool st) slot)) \<longrightarrow>
      w pid = Some (as_bytes (fr_page (f (frame_at (ra_pool st) slot))))"
    and "\<forall>i bs. ids i \<longrightarrow> i \<noteq> pid \<longrightarrow> v i = Some bs \<longrightarrow> w i = Some bs"
  shows "pool_inv n ids w {} (update_frame slot f (ra_pool st))"
    and "frame_at (update_frame slot f (ra_pool st)) slot = f (frame_at (ra_pool st) slot)"
proof -
  have s: "pool_inv n ids v {} (ra_pool st)" "bp_map (ra_pool st) pid = Some slot"
    using assms(1) by (simp_all add: race_sound_def)
  show "pool_inv n ids w {} (update_frame slot f (ra_pool st))"
    by (rule update_mapped(1)[where f = f and w = w, OF s assms(2-5)])
  have "slot < length (bp_frames (ra_pool st))"
    using slots_inv_D(1)[OF pool_inv_slots[OF s(1)]] slots_inv_D(5)[OF pool_inv_slots[OF s(1)] s(2)] by simp
  then show "frame_at (update_frame slot f (ra_pool st)) slot = f (frame_at (ra_pool st) slot)"
    by (simp add: frame_at_update)
qed

lemma race_sound_page:
  assumes "race_sound n ids v pid slot st"
  shows "page_wf n (fr_page (frame_at (ra_pool st) slot))"
proof -
  have s: "pool_inv n ids v {} (ra_pool st)" "bp_map (ra_pool st) pid = Some slot"
    using assms(1) by (simp_all add: race_sound_def)
  show ?thesis
    using slots_inv_D(4)[OF pool_inv_slots[OF s(1)]] slots_inv_D(5)[OF pool_inv_slots[OF s(1)] s(2)] by blast
qed

text \<open>Steps that touch neither the pool nor the store.\<close>

definition still :: "nat \<Rightarrow> nat \<Rightarrow> 's race \<Rightarrow> 's race \<Rightarrow> bool" where
  "still slot t st st' \<longleftrightarrow> ra_pool st' = ra_pool st \<and> ra_store st' = ra_store st
     \<and> (\<forall>u. u \<noteq> t \<longrightarrow> ra_pc st' u = ra_pc st u) \<and> ra_pc st' t \<noteq> Written
     \<and> (needs_dirty (ra_pc st' t) \<longrightarrow> needs_dirty (ra_pc st t) \<or> fr_dirty (frame_at (ra_pool st) slot))"

lemma race_sound_still: "race_sound n ids v pid slot st \<Longrightarrow> still slot t st st' \<Longrightarrow> race_sound n ids v pid slot st'"
  unfolding race_sound_def still_def by metis

text \<open>Steps that change the frame.\<close>

lemma race_sound_frame:
  assumes "race_sound n ids v pid slot st" and "ra_pool st' = update_frame slot f (ra_pool st)"
    and "page_wf n (fr_page (f (frame_at (ra_pool st) slot)))"
    and "fr_id (f (frame_at (ra_pool st) slot)) = fr_id (frame_at (ra_pool st) slot)"
    and "\<not> fr_dirty (f (frame_at (ra_pool st) slot)) \<longrightarrow>
      w pid = Some (as_bytes (fr_page (f (frame_at (ra_pool st) slot))))"
    and "\<forall>i bs. ids i \<longrightarrow> i \<noteq> pid \<longrightarrow> v i = Some bs \<longrightarrow> w i = Some bs"
    and "fr_dirty (f (frame_at (ra_pool st) slot)) \<or> (\<forall>u. \<not> needs_dirty (ra_pc st' u))"
    and "\<And>u. ra_pc st' u = Written \<Longrightarrow> w pid = Some (as_bytes (fr_page (f (frame_at (ra_pool st) slot))))"
  shows "race_sound n ids w pid slot st'"
  using race_sound_update[where f = f and w = w, OF assms(1,3-6)] assms(1,2,7,8)
  unfolding race_sound_def by (metis update_frame_fields(1))

context page_store begin

lemma write_act_sound:
  assumes act: "write_act slot t a st = Some st'" and lock: "lock_inv st"
    and f: "\<And>f p. a = Mutate f \<Longrightarrow> page_wf n p \<Longrightarrow> page_wf n (f p)"
    and snd: "race_sound n ids (view (ra_store st)) pid slot st" and sinv: "inv (ra_store st)"
  shows "race_sound n ids (view (ra_store st')) pid slot st' \<and> inv (ra_store st')"
proof -
  note wf = race_sound_page[OF snd]
  note upd = race_sound_frame[where w = "view (ra_store st)", OF snd]
  show ?thesis
  proof (cases a)
    case MarkDirty
    then have "st' = goto t Marked (set_dirty slot True st)" using act by (simp split: if_splits)
    then have pool: "ra_pool st' = update_frame slot (\<lambda>fr. fr\<lparr>fr_dirty := True\<rparr>) (ra_pool st)"
      and same: "ra_store st' = ra_store st" and pcs: "\<And>u. ra_pc st' u = Written \<Longrightarrow> ra_pc st u = Written"
      by (auto simp: race_defs split: if_splits)
    have "view (ra_store st) pid = Some (as_bytes (fr_page (frame_at (ra_pool st) slot)))"
      if "ra_pc st' u = Written" for u
      using snd pcs[OF that] unfolding race_sound_def by blast
    then have "race_sound n ids (view (ra_store st)) pid slot st'"
      using wf by (intro race_sound_frame[OF snd pool]) simp_all
    then show ?thesis using same sinv by simp
  next
    case LockWrite
    then show ?thesis using act race_sound_still[OF snd, of t st'] sinv
      by (auto simp: still_def race_defs split: if_splits)
  next
    case (Mutate g)
    then have pc: "ra_pc st t = Writing"
      and st': "st' = set_page slot (g (fr_page (frame_at (ra_pool st) slot))) st"
      using act by (simp_all split: if_splits)
    have dirty: "fr_dirty (frame_at (ra_pool st) slot)"
      using snd pc unfolding race_sound_def by (metis needs_dirty.simps(2))
    have "ra_pc st u \<noteq> Written" for u
      using lock_inv_unique(1)[OF lock, of t] pc by (cases "u = t") fastforce+
    then show ?thesis
      using upd[of st' "\<lambda>fr. fr\<lparr>fr_page := g (fr_page fr)\<rparr>"] f[OF Mutate wf] dirty sinv st'
      by (simp add: race_defs update_frame_def)
  next
    case UnlockWrite
    then show ?thesis using act race_sound_still[OF snd, of t st'] sinv
      by (auto simp: still_def race_defs split: if_splits)
  next
    case Panic
    then show ?thesis using act race_sound_still[OF snd, of t st'] sinv
      by (auto simp: still_def race_defs split: if_splits)
  qed
qed

lemma flush_act_sound:
  assumes act: "flush_act ops pid slot t a st = Some st'" and lock: "lock_inv st"
    and quiet: "quiet_step (F a) st"
    and snd: "race_sound n ids (view (ra_store st)) pid slot st" and sinv: "inv (ra_store st)"
  shows "race_sound n ids (view (ra_store st')) pid slot st' \<and> inv (ra_store st')"
proof -
  note wf = race_sound_page[OF snd]
  have pid: "ids pid" using snd pool_inv_ids by (auto simp: race_sound_def)
  show ?thesis
  proof (cases a)
    case WriteOut
    then have pc: "ra_pc st t = Flushing" using act by (simp split: if_splits)
    obtain r p1 s1 where w: "so_write_page ops (ra_store st) pid (fr_page (frame_at (ra_pool st) slot)) = (r, p1, s1)"
      by (metis prod_cases3)
    note frame = write_frame[OF sinv wf pid w]
    have st': "ra_pool st' = update_frame slot (\<lambda>fr. fr\<lparr>fr_page := p1\<rparr>) (ra_pool st)" "ra_store st' = s1"
      and pcs: "ra_pc st' u = (if u = t then (case r of Inr _ \<Rightarrow> Written | Inl e \<Rightarrow> Unlocking (Inl e)) else ra_pc st u)" for u
      using act WriteOut pc w by (auto simp: race_defs)
    have other: "\<forall>i bs. ids i \<longrightarrow> i \<noteq> pid \<longrightarrow> view (ra_store st) i = Some bs \<longrightarrow> view s1 i = Some bs"
      using write_other[OF sinv wf pid w] by blast
    have dirty: "fr_dirty (frame_at (ra_pool st) slot)"
      using snd pc unfolding race_sound_def by (metis needs_dirty.simps(4))
    have solo: "ra_pc st u \<noteq> Written" for u
      using lock_inv_unique(1)[OF lock, of t] pc by (cases "u = t") fastforce+
    have "view s1 pid = Some (as_bytes p1)" if "ra_pc st' u = Written" for u
    proof -
      have "r = Inr ()" using that pcs[of u] solo[of u] by (cases r) (auto split: if_splits)
      then show ?thesis using write_ok[OF sinv wf pid] w frame by simp
    qed
    then have "race_sound n ids (view s1) pid slot st'"
      using frame wf dirty
      by (intro race_sound_frame[OF snd st'(1) _ _ _ other]) (auto intro: stamp_wf)
    then show ?thesis using st'(2) frame by simp
  next
    case ClearDirty
    then have pc: "ra_pc st t = Written" and st': "st' = goto t (Unlocking (Inr ())) (set_dirty slot False st)"
      using act by (simp_all split: if_splits)
    have saved: "view (ra_store st) pid = Some (as_bytes (fr_page (frame_at (ra_pool st) slot)))"
      using snd pc by (auto simp: race_sound_def)
    have others: "\<not> needs_dirty (ra_pc st' u)" for u
    proof (cases "u = t")
      case False
      have "ra_pc st u \<noteq> Marked" using quiet ClearDirty by (simp add: quiet_step_def)
      moreover have "\<not> holds_write (ra_pc st u)" "\<not> in_core (ra_pc st u)"
        using lock_inv_unique(1,2)[OF lock, of t] pc False by simp_all
      ultimately show ?thesis using False by (cases "ra_pc st u") (simp_all add: st' race_defs)
    qed (simp add: st' race_defs)
    then have "ra_pc st' u \<noteq> Written" for u by (metis needs_dirty.simps(5))
    moreover have pool: "ra_pool st' = update_frame slot (\<lambda>fr. fr\<lparr>fr_dirty := False\<rparr>) (ra_pool st)"
      and same: "ra_store st' = ra_store st"
      by (simp_all add: st' race_defs)
    ultimately have "race_sound n ids (view (ra_store st)) pid slot st'"
      using saved others wf by (intro race_sound_frame[OF snd pool]) simp_all
    then show ?thesis using sinv same by simp
  qed (use act sinv race_sound_still[OF snd, of t st'] in
        \<open>auto simp: still_def race_defs split: if_splits agent_pc.splits\<close>)
qed

lemma act_sound:
  assumes act: "act ops pid slot t a st = Some st'" and lock: "lock_inv st" and quiet: "quiet_step a st"
    and f: "\<And>f p. a = W (Mutate f) \<Longrightarrow> page_wf n p \<Longrightarrow> page_wf n (f p)"
    and snd: "race_sound n ids (view (ra_store st)) pid slot st" and sinv: "inv (ra_store st)"
  shows "race_sound n ids (view (ra_store st')) pid slot st' \<and> inv (ra_store st')"
proof (cases a)
  case (W w)
  then show ?thesis using act f by (intro write_act_sound[OF _ lock _ snd sinv, of t w]) auto
next
  case (R r)
  then have "still slot t st st'"
    using act by (cases r) (auto simp: still_def race_defs split: if_splits)
  then show ?thesis using race_sound_still[OF snd] sinv by (simp add: still_def)
next
  case (F a)
  then show ?thesis using act quiet by (intro flush_act_sound[OF _ lock _ snd sinv]) auto
qed

lemma quiet_reach_sound:
  assumes "race_reach ops n pid slot quiet_step st0 st" and "lock_inv st0"
    and "race_sound n ids (view (ra_store st0)) pid slot st0" and "inv (ra_store st0)"
  shows "race_sound n ids (view (ra_store st)) pid slot st \<and> inv (ra_store st)"
  using assms
proof (induction rule: race_reach.induct)
  case (step st a t st')
  show ?case
    by (intro act_sound[OF step(4) race_reach_lock_inv[OF step(1,6)] step(2)])
      (use step(3,5-8) in blast)+
qed simp

end

text \<open>The steps add up to the methods: from a state where no lock is held, an agent that runs
  alone through write, or through a flush of the page, leaves exactly what guard_write and
  flush of the sequential model give, pool and store.\<close>

lemma atomic_frame_operations:
  assumes "unlocked st" and "ra_pc st t = Idle" and "slot < length (bp_frames (ra_pool st))"
    and "bp_map (ra_pool st) pid = Some slot"
    and "flush ops pid (ra_pool st) (ra_store st) = (r, bp', s')"
  shows "exec ops pid slot (write_schedule t f) st = Some (st\<lparr>ra_pool := guard_write slot f (ra_pool st)\<rparr>)
    \<and> exec ops pid slot (flush_schedule t (fr_dirty (frame_at (ra_pool st) slot)) (r = Inr ())) st =
      Some (st\<lparr>ra_pool := bp', ra_store := s'\<rparr>)"
  using exec_write_schedule[OF assms(1-3)] exec_flush_schedule[OF assms] by blast

section \<open>Properties\<close>

lemma one_page_frame: "1 < length (bp_frames one_page)" "fr_dirty (frame_at one_page 1)"
  using slots_inv_D(1)[OF pool_inv_slots[OF one_page(1)]]
    slots_inv_D(5)[OF pool_inv_slots[OF one_page(1)], of "PageId 3" 1] one_page(2)
  by (simp_all add: one_page_def install_def Let_def frame_at_update two_frames_def BufferPool_new_def)

text \<open>C22: in every reachable state, whatever the interleaving and even after writers have panicked, at
  most one agent holds the page for writing, flushes included, nobody reads it meanwhile, and at
  most one flush is inside the pool's mutex: no flush writes out a page that is being changed.\<close>

theorem page_lock_excludes:
  assumes "race_reach ops n pid slot any_step (race_start bp s) st"
  shows "(holds_write (ra_pc st t) \<longrightarrow> (\<forall>u. u \<noteq> t \<longrightarrow> \<not> holds_write (ra_pc st u) \<and> ra_pc st u \<noteq> Reading))
    \<and> (in_core (ra_pc st t) \<longrightarrow> (\<forall>u. u \<noteq> t \<longrightarrow> \<not> in_core (ra_pc st u)))"
  using lock_inv_unique[OF race_reach_lock_inv[OF assms race_start_lock_inv], of t] by blast

text \<open>A state in which agent 1 writes the page while agent 2 has marked it and waits.\<close>

definition writer_and_waiter :: "page_file race" where
  "writer_and_waiter = the (exec page_file_store (PageId 3) 1
     [(1, W MarkDirty), (1, W LockWrite), (2, W MarkDirty)] (race_start one_page empty_page_file))"

lemma writer_and_waiter:
  "race_reach page_file_store 4096 (PageId 3) 1 any_step (race_start one_page empty_page_file) writer_and_waiter"
  "ra_pc writer_and_waiter 1 = Writing" "ra_pc writer_and_waiter 2 = Marked"
proof -
  let ?st0 = "race_start one_page empty_page_file"
  let ?act = "act page_file_store (PageId 3) 1"
  obtain st1 where one: "?act 1 (W MarkDirty) ?st0 = Some st1" and pc1: "ra_pc st1 = (\<lambda>_. Idle)(1 := Marked)"
    and free: "ra_lock st1 = ra_lock ?st0"
    by (simp add: race_start_def race_defs)
  obtain st2 where two: "?act 1 (W LockWrite) st1 = Some st2" and pc2: "ra_pc st2 = (ra_pc st1)(1 := Writing)"
    using pc1 free by (simp add: race_start_def race_defs)
  obtain st3 where three: "?act 2 (W MarkDirty) st2 = Some st3" and pc3: "ra_pc st3 = (ra_pc st2)(2 := Marked)"
    by (simp add: pc1 pc2 race_defs)
  have st3: "writer_and_waiter = st3" using one two three by (simp add: writer_and_waiter_def)
  show "ra_pc writer_and_waiter 1 = Writing" "ra_pc writer_and_waiter 2 = Marked"
    using pc1 pc2 pc3 by (simp_all add: st3)
  show "race_reach page_file_store 4096 (PageId 3) 1 any_step ?st0 writer_and_waiter"
    unfolding st3
    by (rule race_reach.step[OF race_reach.step[OF race_reach.step[OF race_reach.start _ _ one] _ _ two] _ _ three])
      (simp_all add: any_step_def)
qed

theorem page_lock_excludes_witness:
  "\<not> holds_write (ra_pc writer_and_waiter 2) \<and> ra_pc writer_and_waiter 2 \<noteq> Reading"
  using page_lock_excludes[OF writer_and_waiter(1), of 1] writer_and_waiter(2) by simp

text \<open>The frame never deadlocks: in every reachable state where some agent is inside write, read
  or flush, some agent can take a step that moves it on, without anyone panicking.\<close>

lemma frame_runs_never_block:
  assumes "race_reach ops n pid slot any_step (race_start bp s) st" and "ra_pc st t \<noteq> Idle"
  shows "\<exists>u a st'. ra_pc st u \<noteq> Idle \<and> act ops pid slot u a st = Some st' \<and> ra_pc st' u \<noteq> ra_pc st u
    \<and> a \<noteq> W Panic"
  using non_idle_step[OF race_reach_lock_inv[OF assms(1) race_start_lock_inv] assms(2)] .

text \<open>C15: as long as no flush clears the dirty flag of the page between a writer's marking it and the
  writer's taking of the lock, every interleaving keeps the pool's invariant: a clean frame holds
  what the file holds, so the steps of the sequential model are sound.\<close>

theorem quiet_runs_stay_coherent:
  assumes "race_reach page_file_store n pid slot quiet_step (race_start bp pf) st"
    and "pf_inv n pf" and "pool_inv n (addressable n) (pf_view n pf) {} bp" and "bp_map bp pid = Some slot"
  shows "pf_inv n (ra_store st)
    \<and> pool_inv n (addressable n) (pf_view n (ra_store st)) {} (ra_pool st)
    \<and> (fr_dirty (frame_at (ra_pool st) slot)
      \<or> pf_view n (ra_store st) pid = Some (as_bytes (fr_page (frame_at (ra_pool st) slot))))"
proof -
  have "race_sound n (addressable n) (pf_view n (ra_store (race_start bp pf))) pid slot (race_start bp pf)"
    using assms(3,4) by (simp add: race_sound_def race_start_def)
  then have "race_sound n (addressable n) (pf_view n (ra_store st)) pid slot st" and "pf_inv n (ra_store st)"
    using pf.quiet_reach_sound[OF assms(1) race_start_lock_inv] assms(2) by (simp_all add: race_start_def)
  then show ?thesis by (auto simp: race_sound_def dest: pool_inv_clean)
qed

theorem quiet_runs_stay_coherent_witness:
  "\<exists>st. exec page_file_store (PageId 3) 1 [(1, W MarkDirty)] (race_start one_page empty_page_file) = Some st
     \<and> pool_inv 4096 (addressable 4096) (pf_view 4096 (ra_store st)) {} (ra_pool st)"
proof -
  let ?st0 = "race_start one_page empty_page_file"
  obtain st where one: "act page_file_store (PageId 3) 1 1 (W MarkDirty) ?st0 = Some st"
    by (simp add: race_start_def)
  have "race_reach page_file_store 4096 (PageId 3) 1 quiet_step ?st0 st"
    by (rule race_reach.step[OF race_reach.start _ _ one]) (simp_all add: quiet_step_def)
  from quiet_runs_stay_coherent[OF this empty_page_file(1) one_page(1)] one one_page(2)
  show ?thesis by simp
qed

text \<open>A flush by agent 0 that overtakes a write by agent 1.\<close>

definition lost_schedule :: "(page \<Rightarrow> page) \<Rightarrow> (nat \<times> action) list" where
  "lost_schedule f =
    [(0, F EnterFlush), (0, F LoadDirty), (1, W MarkDirty), (0, F LockFlush), (0, F WriteOut),
     (0, F ClearDirty), (0, F UnlockFlush), (0, F LeaveFlush),
     (1, W LockWrite), (1, W (Mutate f)), (1, W UnlockWrite)]"

lemma lost_schedule_runs:
  assumes slot: "slot < length (bp_frames bp)" and map: "bp_map bp pid = Some slot"
    and dirty: "fr_dirty (frame_at bp slot)"
    and w: "so_write_page ops s pid (fr_page (frame_at bp slot)) = (Inr (), p', s')"
  shows "\<exists>st. exec ops pid slot (lost_schedule f) (race_start bp s) = Some st \<and> unlocked st
    \<and> (\<forall>t. ra_pc st t = Idle) \<and> ra_store st = s' \<and> bp_map (ra_pool st) = bp_map bp
    \<and> frame_at (ra_pool st) slot = (frame_at bp slot)\<lparr>fr_page := f p', fr_dirty := False\<rparr>"
  using assms
  by (simp add: lost_schedule_def race_start_def race_defs frame_at_update unlocked_def)

text \<open>C16: a flush that runs between a writer's marking the page and its taking the lock clears the
  mark: from any dirty page, the flush reports Ok, the writer then changes the page, and
  everything ends unlocked with the frame clean, the change only in memory, and later flushes
  (and evictions) writing nothing.\<close>

theorem flush_forgets_waiting_write:
  assumes "pf_inv n pf" and "benign (pf_sched pf)" and "pool_inv n (addressable n) (pf_view n pf) {} bp"
    and "bp_map bp pid = Some slot" and "fr_dirty (frame_at bp slot)"
  shows "\<exists>st. exec page_file_store pid slot (lost_schedule f) (race_start bp pf) = Some st \<and> unlocked st
    \<and> (\<forall>t. ra_pc st t = Idle)
    \<and> fr_page (frame_at (ra_pool st) slot) = f (stamp pid (fr_page (frame_at bp slot)))
    \<and> pf_view n (ra_store st) pid = Some (as_bytes (stamp pid (fr_page (frame_at bp slot))))
    \<and> flush page_file_store pid (ra_pool st) (ra_store st) = (Inr (), ra_pool st, ra_store st)"
proof -
  note sl = slots_inv_D[OF pool_inv_slots[OF assms(3)]]
  have slot: "slot < length (bp_frames bp)" using sl(1) sl(5)[OF assms(4)] by simp
  have wf: "page_wf n (fr_page (frame_at bp slot))" by (rule sl(4)[OF sl(5)[OF assms(4)]])
  have pid: "addressable n pid" by (rule pool_inv_ids[OF assms(3,4)])
  obtain p' pf' where w: "PageFile_write_page pf pid (fr_page (frame_at bp slot)) = (Inr (), p', pf')"
    using write_page_benign[OF assms(1) wf pid assms(2)] by blast
  then have so: "so_write_page page_file_store pf pid (fr_page (frame_at bp slot)) = (Inr (), p', pf')"
    by (simp add: page_file_store_def)
  have "p' = stamp pid (fr_page (frame_at bp slot))"
    and "pf_view n pf' pid = Some (as_bytes (stamp pid (fr_page (frame_at bp slot))))"
    using pf.write_frame[OF assms(1) wf pid so] pf.write_ok[OF assms(1) wf pid so] by simp_all
  with lost_schedule_runs[OF slot assms(4,5) so, of f] assms(4) show ?thesis
    by (fastforce simp: flush_def flush_slot_def)
qed

theorem flush_forgets_waiting_write_witness:
  "\<exists>st. exec page_file_store (PageId 3) 1 (lost_schedule (payload_mut (write_u64 0 7)))
       (race_start one_page empty_page_file) = Some st
     \<and> flush page_file_store (PageId 3) (ra_pool st) (ra_store st) = (Inr (), ra_pool st, ra_store st)"
proof -
  have "bp_map one_page (PageId 3) = Some 1" using one_page(2) by simp
  from flush_forgets_waiting_write[OF empty_page_file(1,2) one_page(1) this one_page_frame(2)]
  show ?thesis by blast
qed

end
