(* ===== verification/PageTypes.thy ===== *)
theory PageTypes
  imports PageFile
begin

text \<open>
  The type invariant of \<^verbatim>\<open>Page\<close> over the whole public interface: which pages a client of
  \<^verbatim>\<open>src/page.rs\<close> and \<^verbatim>\<open>src/file.rs\<close> can hold, and what they have in common.
\<close>

section \<open>Pages a client can hold\<close>

text \<open>
  One rule per function that makes or changes a page; the caller of \<^verbatim>\<open>payload_mut\<close> has a
  slice and cannot change its length.  The file, its content and schedule, its page size and
  the id are arbitrary in \<open>read_into\<close> and \<open>write_page\<close>, and so is their outcome.
\<close>

inductive held_page :: "page_size \<Rightarrow> page \<Rightarrow> bool" where
  held_new: "PageSize_new k = Inr ps \<Longrightarrow> held_page ps (Page_new ps)"
| held_from_bytes: "PageSize_new k = Inr ps \<Longrightarrow> Page_from_bytes ps bs = Inr p \<Longrightarrow> held_page ps p"
| held_clone: "held_page ps p \<Longrightarrow> held_page ps (Page_clone p)"
| held_set_lsn: "held_page ps p \<Longrightarrow> held_page ps (set_lsn l p)"
| held_payload_mut: "held_page ps p \<Longrightarrow> length (f (payload p)) = length (payload p)
    \<Longrightarrow> held_page ps (payload_mut f p)"
| held_read_into: "held_page ps p \<Longrightarrow> PageFile_read_into pf pid p = (r, p', pf') \<Longrightarrow> held_page ps p'"
| held_write_page: "held_page ps p \<Longrightarrow> PageFile_write_page pf pid p = (r, p', pf') \<Longrightarrow> held_page ps p'"

lemma PageSize_new_wf: "PageSize_new k = Inr ps \<Longrightarrow> page_size_wf ps"
  by (auto simp: PageSize_new_def page_size_wf_def split: if_splits)

text \<open>At any offset, even one that wrapped, a read keeps the length of its buffer.\<close>

lemma read_loop_length:
  assumes "read_loop f offset buf nread = (r, buf', f')"
  shows "length buf' = length buf"
  using assms
proof (induction f offset buf nread arbitrary: r buf' f' rule: read_loop.induct)
  case (1 f offset buf nread)
  show ?case
  proof (cases "nread < length buf")
    case False
    then show ?thesis using "1.prems" by (simp add: read_loop.simps[of f])
  next
    case True
    obtain res g where turn: "pread f (length buf - nread) (offset + of_nat nread) = (res, g)"
      by (metis prod.exhaust)
    show ?thesis
    proof (cases res)
      case (Inl e)
      then show ?thesis
        using "1.IH"(1)[OF True turn[symmetric] Inl] "1.prems" True turn
        by (cases "e = Interrupted") (auto simp: read_loop.simps[of f])
    next
      case (Inr got)
      then have "length (splice nread got buf) = length buf"
        using length_pread[of f] turn True by (fastforce simp: length_splice)
      then show ?thesis
        using "1.IH"(2)[OF True turn[symmetric] Inr] "1.prems" True turn Inr
        by (cases "got = []") (auto simp: read_loop.simps[of f])
    qed
  qed
qed

lemma read_into_typed:
  assumes "PageFile_read_into pf pid p = (r, p', pf')" and "page_wf n p"
  shows "page_wf n p'"
proof (cases "Page_page_size p = ps_get (pf_page_size pf)")
  case False
  then show ?thesis using assms by (simp add: PageFile_read_into_def Let_def)
next
  case True
  obtain res buf f' where rd: "read_at_full (pf_file pf) (as_bytes p)
      (byte_offset pid (ps_get (pf_page_size pf))) = (res, buf, f')"
    by (metis prod_cases3)
  then have "length buf = length (as_bytes p)"
    unfolding read_at_full_def by (rule read_loop_length)
  moreover have "p' = as_bytes_mut (\<lambda>_. buf) p"
    using assms(1) True rd by (auto simp: PageFile_read_into_def Let_def split: sum.splits if_splits)
  ultimately show ?thesis using assms(2) by (simp add: page_wf_as_bytes_mut)
qed

lemma write_page_typed:
  "PageFile_write_page pf pid p = (r, p', pf') \<Longrightarrow> page_wf n p \<Longrightarrow> page_wf n p'"
  by (auto simp: PageFile_write_page_def Let_def stamp_wf split: prod.splits if_splits)

lemma held_page_typed: "held_page ps p \<Longrightarrow> page_size_wf ps \<and> page_wf (ps_get ps) p"
proof (induction rule: held_page.induct)
  case (held_new k ps)
  then show ?case using PageSize_new_wf Page_new_wf by blast
next
  case (held_from_bytes k ps bs p)
  have ps: "page_size_wf ps" using held_from_bytes(1) by (rule PageSize_new_wf)
  then show ?case using Page_from_bytes_ok_iff[OF ps] held_from_bytes(2) by blast
next
  case (held_clone ps p)
  then show ?case using buffer_clone_wf[of "page_buf p"] by (simp add: page_wf_def Page_clone_def)
next
  case (held_set_lsn ps p l)
  then show ?case by (simp add: set_lsn_wf)
next
  case (held_payload_mut ps p f)
  then show ?case by (simp add: payload_mut_wf)
qed (blast intro: read_into_typed write_page_typed)+

section \<open>Property\<close>

text \<open>C36: every page a client can hold, whatever sequence of constructors, mutations, reads and
  writes it went through, failed ones and wrapped offsets included, keeps its type: a legal
  page size, a buffer of exactly that size aligned to it, the header inside the buffer and the
  rest the payload; a clone of it equals it.\<close>

theorem held_pages_are_typed:
  assumes "held_page ps p"
  shows "PageSize_new (ps_get ps) = Inr ps \<and> Page_page_size p = ps_get ps
    \<and> length (as_bytes p) = ps_get ps \<and> lay_align (buf_layout (page_buf p)) = ps_get ps
    \<and> length (payload p) = payload_len ps \<and> payload_len ps + PAGE_HEADER_SIZE = ps_get ps
    \<and> Page_clone p = p"
proof -
  have ps: "page_size_wf ps" and wf: "page_wf (ps_get ps) p" using held_page_typed[OF assms] by auto
  note bounds = page_size_wf_bounds[OF ps] page_wf_bounds[OF wf]
  have "PageSize_new (ps_get ps) = Inr ps"
    using ps by (simp add: PageSize_new_def page_size_wf_def)
  moreover have "Page_clone p = p"
    using wf buffer_clone_wf[of "page_buf p"] by (simp add: page_wf_def Page_clone_def)
  ultimately show ?thesis
    using wf bounds page_wf_length[OF wf]
    by (simp add: page_wf_def Page_page_size_def payload_def payload_len_def PAGE_HEADER_SIZE_def)
qed

theorem held_pages_are_typed_witness:
  "length (payload (set_lsn (Lsn 7) (Page_new (PageSize 4096)))) = 4064"
proof -
  have "PageSize_new 4096 = Inr (PageSize 4096)"
    using page_size_wf_4096 by (simp add: PageSize_new_def page_size_wf_def)
  then have "held_page (PageSize 4096) (set_lsn (Lsn 7) (Page_new (PageSize 4096)))"
    by (intro held_set_lsn held_new)
  from held_pages_are_typed[OF this] show ?thesis by (simp add: payload_len_def PAGE_HEADER_SIZE_def)
qed

end
