(* ===== verification/PoolSlots.thy ===== *)
theory PoolSlots
  imports PoolRuns PageTypes
begin

text \<open>
  What the pool's methods (\<^verbatim>\<open>src/pool.rs\<close>) keep when nothing is known of the store but that
  pages stay pages, so also when clean frames and the store have come apart: the
  bookkeeping, and pinned frames with their ids.
\<close>

section \<open>Stores that keep pages pages\<close>

locale typed_store =
  fixes ops :: "'s store_ops" and n :: nat
  assumes read_typed: "so_read_into ops s pid p = (r, p', s') \<Longrightarrow> page_wf n p \<Longrightarrow> page_wf n p'"
    and write_typed: "so_write_page ops s pid p = (r, p', s') \<Longrightarrow> page_wf n p \<Longrightarrow> page_wf n p'"

interpretation pft: typed_store page_file_store n for n
  by unfold_locales (auto simp: page_file_store_def intro: read_into_typed write_page_typed)

definition pins_stay :: "pool \<Rightarrow> pool \<Rightarrow> bool" where
  "pins_stay bp bp' \<longleftrightarrow> bp_capacity bp' = bp_capacity bp
     \<and> (\<forall>j < bp_capacity bp. 0 < fr_pin (frame_at bp j) \<longrightarrow>
          fr_id (frame_at bp' j) = fr_id (frame_at bp j)
          \<and> fr_pin (frame_at bp j) \<le> fr_pin (frame_at bp' j))"

lemma pins_stay_refl [simp]: "pins_stay bp bp"
  by (simp add: pins_stay_def)

lemma pins_stay_trans: "pins_stay a b \<Longrightarrow> pins_stay b c \<Longrightarrow> pins_stay a c"
  unfolding pins_stay_def by (metis less_le_trans le_trans)

lemma pins_stay_update:
  assumes "slots_inv n L bp" and "slot < bp_capacity bp"
    and "0 < fr_pin (frame_at bp slot) \<Longrightarrow> fr_id (f (frame_at bp slot)) = fr_id (frame_at bp slot)
      \<and> fr_pin (frame_at bp slot) \<le> fr_pin (f (frame_at bp slot))"
  shows "pins_stay bp (update_frame slot f bp)"
  using assms slots_inv_D(1)[OF assms(1)] by (auto simp: pins_stay_def frame_at_update)

lemma clock_only_slots:
  assumes "clock_only bp bp'" and "hand_ok bp'" and "slots_inv n L bp"
  shows "slots_inv n L bp'" and "pins_stay bp bp'"
  using assms unfolding slots_inv_def clock_only_def hand_ok_def pins_stay_def by simp_all

text \<open>A frame taken and not yet placed may be given any page.\<close>

lemma slots_inv_limbo:
  assumes "slots_inv n {slot} bp" and "slot < bp_capacity bp" and "page_wf n (fr_page (f (frame_at bp slot)))"
  shows "slots_inv n {slot} (update_frame slot f bp)"
proof -
  note sl = slots_inv_D[OF assms(1)]
  have len: "slot < length (bp_frames bp)" using assms(2) sl(1) by simp
  show ?thesis
    using assms(1,3) unfolding slots_inv_def update_frame_fields frame_at_update[OF len]
    by (auto split: if_splits)
qed

lemma slots_inv_return:
  assumes "slots_inv n {slot} bp" and "slot < bp_capacity bp" and "fr_pin (frame_at bp slot) = 0"
  shows "slots_inv n {} (bp\<lparr>bp_free := bp_free bp @ [slot]\<rparr>)"
  using assms unfolding slots_inv_def by auto

lemma slots_inv_install:
  assumes "slots_inv n {slot} bp" and "slot < bp_capacity bp" and "bp_map bp pid = None"
  shows "slots_inv n {} (install slot pid d bp)"
proof -
  note sl = slots_inv_D[OF assms(1)]
  have len: "slot < length (bp_frames bp)" using assms(2) sl(1) by simp
  have "\<exists>a. ((bp_map bp)(pid \<mapsto> slot)) a = Some j"
    if j: "j < bp_capacity bp" "j \<notin> set (bp_free bp)" for j
  proof (cases "j = slot")
    case False
    then obtain a where "bp_map bp a = Some j" using sl(13)[OF j(1)] j(2) by auto
    then show ?thesis using assms(3) by (intro exI[of _ a]) auto
  qed auto
  then have placed: "\<forall>j < bp_capacity bp. j \<in> set (bp_free bp) \<or> (\<exists>a. ((bp_map bp)(pid \<mapsto> slot)) a = Some j)"
    by blast
  show ?thesis
    using assms(1,2) placed unfolding slots_inv_def install_def Let_def
    by (auto simp: frame_at_update[OF len])
qed

section \<open>The methods\<close>

context typed_store
begin

lemma flush_slot_slots:
  assumes "flush_slot ops slot pid bp s = (r, bp', s')" and "slots_inv n L bp" and "slot < bp_capacity bp"
  shows "slots_inv n L bp'" and "pins_stay bp bp'" and "bp_map bp' = bp_map bp" and "bp_free bp' = bp_free bp"
    and "fr_pin (frame_at bp' j) = fr_pin (frame_at bp j)"
proof -
  note sl = slots_inv_D[OF assms(2)]
  have len: "slot < length (bp_frames bp)" using assms(3) sl(1) by simp
  obtain f where bp': "bp' = bp \<or> bp' = update_frame slot f bp"
    and f: "page_wf n (fr_page (f (frame_at bp slot)))" "fr_id (f (frame_at bp slot)) = fr_id (frame_at bp slot)"
      "fr_pin (f (frame_at bp slot)) = fr_pin (frame_at bp slot)"
  proof (cases "fr_dirty (frame_at bp slot)")
    case False
    then show ?thesis using assms(1) sl(4)[OF assms(3)] that[of id] by (simp add: flush_slot_def)
  next
    case True
    obtain u p' s1 where w: "so_write_page ops s pid (fr_page (frame_at bp slot)) = (u, p', s1)" by (metis prod_cases3)
    have "page_wf n p'" by (rule write_typed[OF w sl(4)[OF assms(3)]])
    then show ?thesis
      using assms(1) True w that[of "\<lambda>fr. fr\<lparr>fr_page := p'\<rparr>"] that[of "\<lambda>fr. fr\<lparr>fr_page := p', fr_dirty := False\<rparr>"]
      by (cases u) (auto simp: flush_slot_def)
  qed
  show "slots_inv n L bp'"
    using bp' assms(2) slots_inv_update[where f = f, OF assms(2,3)] f sl(12)[of slot] by auto
  show "pins_stay bp bp'" using bp' pins_stay_update[where f = f, OF assms(2,3)] f(2,3) by auto
  show "bp_map bp' = bp_map bp" and "bp_free bp' = bp_free bp" using bp' by auto
  show "fr_pin (frame_at bp' j) = fr_pin (frame_at bp j)" using bp' f(3) by (auto simp: frame_at_update[OF len])
qed

lemma take_slot_slots:
  assumes "take_slot ops bp s = (r, bp', s')" and "slots_inv n {} bp" and "bp_map bp pid = None"
  shows "case r of Inl e \<Rightarrow> slots_inv n {} bp' \<and> pins_stay bp bp'
    | Inr slot \<Rightarrow> slots_inv n {slot} bp' \<and> pins_stay bp bp' \<and> slot < bp_capacity bp'
        \<and> fr_pin (frame_at bp slot) = 0 \<and> fr_pin (frame_at bp' slot) = 0 \<and> bp_map bp' pid = None"
proof (cases "bp_free bp = []")
  case False
  note sl = slots_inv_D[OF assms(2)]
  let ?slot = "last (bp_free bp)"
  have free: "bp_free bp = butlast (bp_free bp) @ [?slot]" using False by simp
  then have mem: "?slot \<in> set (bp_free bp)" "distinct (butlast (bp_free bp) @ [?slot])"
    "set (bp_free bp) = insert ?slot (set (butlast (bp_free bp)))"
    using False sl(9) by (simp, metis, metis Un_insert_right append_Nil2 list.set(2) set_append list.set(1) sup_bot_right)
  have "slots_inv n {?slot} (bp\<lparr>bp_free := butlast (bp_free bp)\<rparr>)"
    using assms(2) mem unfolding slots_inv_def by (auto simp: in_set_butlastD)
  then show ?thesis
    using assms(1,3) False mem sl(10,12)[OF mem(1)] by (auto simp: take_slot_def pins_stay_def)
next
  case True
  obtain v bp1 where fv: "find_victim bp = (v, bp1)" by (metis prod.exhaust)
  note sl = slots_inv_D[OF assms(2)]
  have hand: "hand_ok bp" using sl(1,3) by (simp add: hand_ok_def)
  note fvc = find_victim_correct[OF fv hand]
  note c1 = clock_only_slots[OF fvc(1,2) assms(2)]
  have same1: "bp_map bp1 = bp_map bp" "bp_free bp1 = []" "bp_capacity bp1 = bp_capacity bp"
    "fr_pin (frame_at bp1 j) = fr_pin (frame_at bp j)" for j
    using fvc(1) True by (simp_all add: clock_only_def)
  show ?thesis
  proof (cases v)
    case None
    then show ?thesis using assms(1) True fv c1 by (auto simp: take_slot_def)
  next
    case (Some slot)
    note v = fvc(3)[OF Some]
    let ?vid = "resident_id (frame_at bp1 slot)"
    obtain u bp2 s2 where fs: "flush_slot ops slot ?vid bp1 s = (u, bp2, s2)" by (metis prod_cases3)
    have slot1: "slot < bp_capacity bp1" using v same1(3) by simp
    note f = flush_slot_slots[OF fs c1(1) slot1]
    have stay: "pins_stay bp bp2" using pins_stay_trans[OF c1(2) f(2)] .
    have cap: "bp_capacity bp2 = bp_capacity bp" using stay by (simp add: pins_stay_def)
    show ?thesis
    proof (cases u)
      case (Inl e)
      then have "r = Inl e" "bp' = bp2" using assms(1) True fv Some fs by (auto simp: take_slot_def Let_def)
      then show ?thesis using f(1) stay by simp
    next
      case (Inr w)
      have r: "r = Inr slot" "bp' = bp2\<lparr>bp_map := (bp_map bp2)(?vid := None)\<rparr>"
        using assms(1) True fv Some fs Inr by (simp_all add: take_slot_def Let_def)
      note sl1 = slots_inv_D[OF c1(1)]
      obtain a where a: "bp_map bp1 a = Some slot" using sl1(13)[OF slot1] same1(2) by auto
      have vid: "?vid = a" using sl1(6)[OF a] by (simp add: resident_id_def)
      have "slots_inv n {slot} bp'" using slots_inv_unmap[OF f(1), of a slot] a f(3) by (simp add: r(2) vid)
      moreover have "pins_stay bp bp'" using stay by (simp add: r(2) pins_stay_def)
      ultimately show ?thesis
        using r v cap f(3,5) same1 assms(3) by simp
    qed
  qed
qed

lemma fetch_slots:
  assumes "fetch ops pid bp s = (r, bp', s')" and "slots_inv n {} bp"
  shows "slots_inv n {} bp' \<and> pins_stay bp bp'"
proof (cases "bp_map bp pid")
  case (Some slot)
  note sl = slots_inv_D[OF assms(2)]
  note slot = sl(5,7)[OF Some]
  show ?thesis
    using assms Some slot sl(4)[OF slot(1)] slots_inv_update[OF assms(2) slot(1)] pins_stay_update[OF assms(2) slot(1)]
    by (auto simp: fetch_def)
next
  case None
  obtain t bp1 s1 where tk: "take_slot ops bp s = (t, bp1, s1)" by (metis prod_cases3)
  note tks = take_slot_slots[OF tk assms(2) None]
  show ?thesis
  proof (cases t)
    case (Inl e)
    then have "slots_inv n {} bp1 \<and> pins_stay bp bp1" using tks by simp
    moreover have "bp' = bp1" using assms(1) None tk Inl by (simp add: fetch_def)
    ultimately show ?thesis by simp
  next
    case (Inr slot)
    have t: "slots_inv n {slot} bp1" "pins_stay bp bp1" "slot < bp_capacity bp1"
      "fr_pin (frame_at bp slot) = 0" "fr_pin (frame_at bp1 slot) = 0" "bp_map bp1 pid = None"
      using tks Inr by simp_all
    obtain u p' s2 where rd: "so_read_into ops s1 pid (fr_page (frame_at bp1 slot)) = (u, p', s2)" by (metis prod_cases3)
    let ?bp2 = "update_frame slot (\<lambda>fr. fr\<lparr>fr_page := p'\<rparr>) bp1"
    note sl1 = slots_inv_D[OF t(1)]
    have len: "slot < length (bp_frames bp1)" using t(3) sl1(1) by simp
    have wf: "page_wf n p'" by (rule read_typed[OF rd sl1(4)[OF t(3)]])
    have two: "slots_inv n {slot} ?bp2" using slots_inv_limbo[OF t(1,3)] wf by simp
    have bp': "bp' = (case u of Inl e \<Rightarrow> ?bp2\<lparr>bp_free := bp_free ?bp2 @ [slot]\<rparr> | Inr _ \<Rightarrow> install slot pid False ?bp2)"
      using assms(1) None tk Inr rd by (auto simp: fetch_def Let_def split: sum.splits)
    have "slots_inv n {} bp'"
      using two t(3,5,6) slots_inv_return[OF two] slots_inv_install[OF two] len
      by (auto simp: bp' frame_at_update split: sum.split)
    moreover have "pins_stay bp bp'"
      using t(2,4) len by (auto simp: bp' pins_stay_def install_def Let_def frame_at_update split: sum.split)
    ultimately show ?thesis ..
  qed
qed

lemma new_page_slots:
  assumes "new_page ops pid bp s = (r, bp', s')" and "slots_inv n {} bp"
  shows "slots_inv n {} bp' \<and> pins_stay bp bp'"
proof (cases "bp_map bp pid")
  case (Some slot)
  note sl = slots_inv_D[OF assms(2)]
  note slot = sl(5,7)[OF Some]
  show ?thesis
    using assms Some slot reset_wf[OF sl(4)[OF slot(1)]] slots_inv_update[OF assms(2) slot(1)]
      pins_stay_update[OF assms(2) slot(1)]
    by (auto simp: new_page_def)
next
  case None
  obtain t bp1 s1 where tk: "take_slot ops bp s = (t, bp1, s1)" by (metis prod_cases3)
  note tks = take_slot_slots[OF tk assms(2) None]
  show ?thesis
  proof (cases t)
    case (Inl e)
    then have "slots_inv n {} bp1 \<and> pins_stay bp bp1" using tks by simp
    moreover have "bp' = bp1" using assms(1) None tk Inl by (simp add: new_page_def)
    ultimately show ?thesis by simp
  next
    case (Inr slot)
    have t: "slots_inv n {slot} bp1" "pins_stay bp bp1" "slot < bp_capacity bp1"
      "fr_pin (frame_at bp slot) = 0" "fr_pin (frame_at bp1 slot) = 0" "bp_map bp1 pid = None"
      using tks Inr by simp_all
    let ?bp2 = "update_frame slot (\<lambda>fr. fr\<lparr>fr_page := reset (fr_page fr)\<rparr>) bp1"
    note sl1 = slots_inv_D[OF t(1)]
    have len: "slot < length (bp_frames bp1)" using t(3) sl1(1) by simp
    have two: "slots_inv n {slot} ?bp2" using slots_inv_limbo[OF t(1,3)] reset_wf[OF sl1(4)[OF t(3)]] by simp
    have bp': "bp' = install slot pid True ?bp2"
      using assms(1) None tk Inr by (auto simp: new_page_def Let_def)
    have "slots_inv n {} bp'" using slots_inv_install[OF two] t(3,6) by (simp add: bp')
    moreover have "pins_stay bp bp'"
      using t(2,4) len by (auto simp: bp' pins_stay_def install_def Let_def frame_at_update)
    ultimately show ?thesis ..
  qed
qed

end

text \<open>A map of residents has finitely many entries, so it can be gone through in some order.\<close>

lemma entry_order_exists:
  assumes "slots_inv n L bp"
  shows "\<exists>xs. entry_order bp xs"
proof -
  have "inj_on snd {(pid, slot). bp_map bp pid = Some slot}"
    using slots_inv_map_inj[OF assms] by (auto simp: inj_on_def)
  moreover have "snd ` {(pid, slot). bp_map bp pid = Some slot} \<subseteq> {..<bp_capacity bp}"
    using slots_inv_D(5)[OF assms] by auto
  ultimately have "finite {(pid, slot). bp_map bp pid = Some slot}"
    by (meson finite_imageD finite_lessThan finite_subset)
  then show ?thesis using finite_distinct_list unfolding entry_order_def by metis
qed

end
