(* ===== verification/LockOrder.thy ===== *)
theory LockOrder
  imports FrameRace PoolSlots
begin

text \<open>
  The locks of a whole pool under many threads (\<^verbatim>\<open>src/pool.rs\<close>): the mutex that every call
  but a borrow takes, and one lock per frame that a borrow holds and that some calls take
  while they hold the mutex.  Who waits for whom, which use of the pool cannot deadlock,
  and that a checkpoint beside a thread that fetches with a borrow in hand can.
\<close>

section \<open>Threads\<close>

datatype borrow_mode = Shared | Exclusive

datatype pool_call = FetchCall page_id | NewCall page_id | FlushCall page_id | FlushAllCall

text \<open>
  Where a thread stands.  A \<open>Client\<close> runs the client's code, perhaps with borrows in hand;
  \<open>Borrowing\<close> waits in \<^verbatim>\<open>PageGuard::read\<close> or \<^verbatim>\<open>write\<close>; \<open>Calling\<close> waits for the mutex.  From
  there on a thread holds the mutex: \<open>Admitting\<close> in \<^verbatim>\<open>fetch\<close> or \<^verbatim>\<open>new_page\<close>, \<open>Visiting\<close> in a
  flush with the entries still to come, \<open>Waiting\<close> in \<^verbatim>\<open>flush_slot\<close> of a dirty page before and
  \<open>Cleaning\<close> after it has taken the page's lock.
\<close>

datatype thread_pc =
    Client | Borrowing nat borrow_mode | Calling pool_call
  | Admitting pool_call | Visiting "(page_id \<times> nat) list"
  | Waiting page_id nat "(page_id \<times> nat) list" | Cleaning page_id nat "(page_id \<times> nat) list"
  | Returning

record 's threads =
  th_pool :: pool
  th_store :: 's
  th_core :: mutex
  th_lock :: "nat \<Rightarrow> page_lock"
  th_pc :: "nat \<Rightarrow> thread_pc"

abbreviation th_frame :: "'s threads \<Rightarrow> nat \<Rightarrow> frame" where
  "th_frame st slot \<equiv> frame_at (th_pool st) slot"

definition go :: "nat \<Rightarrow> thread_pc \<Rightarrow> 's threads \<Rightarrow> 's threads" where
  "go t pc st = st\<lparr>th_pc := (th_pc st)(t := pc)\<rparr>"

definition put_lock :: "nat \<Rightarrow> page_lock \<Rightarrow> 's threads \<Rightarrow> 's threads" where
  "put_lock slot l st = st\<lparr>th_lock := (th_lock st)(slot := l)\<rparr>"

definition change_frame :: "nat \<Rightarrow> (frame \<Rightarrow> frame) \<Rightarrow> 's threads \<Rightarrow> 's threads" where
  "change_frame slot f st = st\<lparr>th_pool := update_frame slot f (th_pool st)\<rparr>"

text \<open>The frames a thread has borrowed; a flush gives up the lock it takes by itself.\<close>

definition borrows :: "'s threads \<Rightarrow> nat \<Rightarrow> nat set" where
  "borrows st t = {slot. t \<in> pl_readers (th_lock st slot)
     \<or> pl_writer (th_lock st slot) = Some t \<and> (\<forall>pid rest. th_pc st t \<noteq> Cleaning pid slot rest)}"

definition lock_free :: "page_lock \<Rightarrow> bool" where
  "lock_free l \<longleftrightarrow> pl_writer l = None \<and> pl_readers l = {}"

section \<open>Steps\<close>

text \<open>
  Guards and borrows.  A guard may be used by any thread, a frame is borrowed only while
  some guard pins it, and a guard that others still borrow from is not dropped (lifetimes).
  A thread borrows a page for reading once at a time.
\<close>

inductive borrow_step :: "nat \<Rightarrow> nat \<Rightarrow> 's threads \<Rightarrow> 's threads \<Rightarrow> bool" for n t st where
  ask_read: "th_pc st t = Client \<Longrightarrow> slot < bp_capacity (th_pool st) \<Longrightarrow> 0 < fr_pin (th_frame st slot) \<Longrightarrow>
    t \<notin> pl_readers (th_lock st slot) \<Longrightarrow> borrow_step n t st (go t (Borrowing slot Shared) st)"
| ask_write: "th_pc st t = Client \<Longrightarrow> slot < bp_capacity (th_pool st) \<Longrightarrow> 0 < fr_pin (th_frame st slot) \<Longrightarrow>
    borrow_step n t st (go t (Borrowing slot Exclusive) (change_frame slot (\<lambda>fr. fr\<lparr>fr_dirty := True\<rparr>) st))"
| take_read: "th_pc st t = Borrowing slot Shared \<Longrightarrow> rwlock_read t (th_lock st slot) = Some r \<Longrightarrow>
    borrow_step n t st (go t Client (put_lock slot (sync_read r) st))"
| take_write: "th_pc st t = Borrowing slot Exclusive \<Longrightarrow> rwlock_write t (th_lock st slot) = Some r \<Longrightarrow>
    borrow_step n t st (go t Client (put_lock slot (sync_write r) st))"
| change: "th_pc st t = Client \<Longrightarrow> pl_writer (th_lock st slot) = Some t \<Longrightarrow>
    (\<And>p. page_wf n p \<Longrightarrow> page_wf n (f p)) \<Longrightarrow>
    borrow_step n t st (change_frame slot (\<lambda>fr. fr\<lparr>fr_page := f (fr_page fr)\<rparr>) st)"
| release_read: "th_pc st t = Client \<Longrightarrow> t \<in> pl_readers l \<Longrightarrow> l = th_lock st slot \<Longrightarrow>
    borrow_step n t st (put_lock slot (l\<lparr>pl_readers := pl_readers l - {t}\<rparr>) st)"
| release_write: "th_pc st t = Client \<Longrightarrow> pl_writer l = Some t \<Longrightarrow> l = th_lock st slot \<Longrightarrow>
    borrow_step n t st (put_lock slot (l\<lparr>pl_writer := None\<rparr>) st)"
| drop_guard: "th_pc st t = Client \<Longrightarrow> slot < bp_capacity (th_pool st) \<Longrightarrow> 0 < fr_pin (th_frame st slot) \<Longrightarrow>
    (\<And>u m. slot \<in> borrows st u \<or> th_pc st u = Borrowing slot m \<Longrightarrow> 1 < fr_pin (th_frame st slot)) \<Longrightarrow>
    borrow_step n t st (st\<lparr>th_pool := guard_drop slot (th_pool st)\<rparr>)"

text \<open>
  The frames whose lock \<^verbatim>\<open>fetch\<close> and \<^verbatim>\<open>new_page\<close> take inside the mutex: the resident frame that
  \<^verbatim>\<open>new_page\<close> blanks; on a miss the frame they find, which is one that nobody pins.
\<close>

definition admits_into :: "pool \<Rightarrow> pool_call \<Rightarrow> nat set" where
  "admits_into bp c =
    (case c of
       FetchCall pid \<Rightarrow> (if bp_map bp pid = None then {slot. slot < bp_capacity bp \<and> fr_pin (frame_at bp slot) = 0} else {})
     | NewCall pid \<Rightarrow> (case bp_map bp pid of
         None \<Rightarrow> {slot. slot < bp_capacity bp \<and> fr_pin (frame_at bp slot) = 0} | Some slot \<Rightarrow> {slot})
     | _ \<Rightarrow> {})"

fun admit :: "'s store_ops \<Rightarrow> pool_call \<Rightarrow> pool \<Rightarrow> 's \<Rightarrow> pool \<times> 's" where
  "admit ops (FetchCall pid) bp s = snd (fetch ops pid bp s)"
| "admit ops (NewCall pid) bp s = snd (new_page ops pid bp s)"
| "admit ops _ bp s = (bp, s)"

text \<open>What a call does first inside the mutex; \<open>xs\<close> is the order of the map's entries.\<close>

fun inside :: "pool \<Rightarrow> (page_id \<times> nat) list \<Rightarrow> pool_call \<Rightarrow> thread_pc" where
  "inside bp xs (FlushCall pid) = Visiting (case bp_map bp pid of None \<Rightarrow> [] | Some slot \<Rightarrow> [(pid, slot)])"
| "inside bp xs FlushAllCall = Visiting xs"
| "inside bp xs c = Admitting c"

text \<open>
  The calls.  \<^verbatim>\<open>checkpoint\<close> is \<^verbatim>\<open>flush_all\<close> and a sync, which takes no lock.
\<close>

inductive call_step :: "'s store_ops \<Rightarrow> nat \<Rightarrow> 's threads \<Rightarrow> 's threads \<Rightarrow> bool" for ops t st where
  invoke: "th_pc st t = Client \<Longrightarrow> call_step ops t st (go t (Calling c) st)"
| enter: "th_pc st t = Calling c \<Longrightarrow> mutex_lock t (th_core st) = Some r \<Longrightarrow> entry_order (th_pool st) xs \<Longrightarrow>
    call_step ops t st (go t (inside (th_pool st) xs c) (st\<lparr>th_core := sync_lock r\<rparr>))"
| admit: "th_pc st t = Admitting c \<Longrightarrow> \<forall>slot \<in> admits_into (th_pool st) c. lock_free (th_lock st slot) \<Longrightarrow>
    admit ops c (th_pool st) (th_store st) = (bp', s') \<Longrightarrow>
    call_step ops t st (go t Returning (st\<lparr>th_pool := bp', th_store := s'\<rparr>))"
| visit_clean: "th_pc st t = Visiting ((pid, slot) # rest) \<Longrightarrow> \<not> fr_dirty (th_frame st slot) \<Longrightarrow>
    call_step ops t st (go t (Visiting rest) st)"
| visit_dirty: "th_pc st t = Visiting ((pid, slot) # rest) \<Longrightarrow> fr_dirty (th_frame st slot) \<Longrightarrow>
    call_step ops t st (go t (Waiting pid slot rest) st)"
| visited: "th_pc st t = Visiting [] \<Longrightarrow> call_step ops t st (go t Returning st)"
| lock_page: "th_pc st t = Waiting pid slot rest \<Longrightarrow> rwlock_write t (th_lock st slot) = Some r \<Longrightarrow>
    call_step ops t st (go t (Cleaning pid slot rest) (put_lock slot (sync_write r) st))"
| cleaned: "th_pc st t = Cleaning pid slot rest \<Longrightarrow>
    so_write_page ops (th_store st) pid (fr_page (th_frame st slot)) = (Inr (), p', s') \<Longrightarrow>
    call_step ops t st (go t (Visiting rest) (put_lock slot ((th_lock st slot)\<lparr>pl_writer := None\<rparr>)
      (change_frame slot (\<lambda>fr. fr\<lparr>fr_page := p', fr_dirty := False\<rparr>) (st\<lparr>th_store := s'\<rparr>))))"
| not_cleaned: "th_pc st t = Cleaning pid slot rest \<Longrightarrow>
    so_write_page ops (th_store st) pid (fr_page (th_frame st slot)) = (Inl e, p', s') \<Longrightarrow>
    call_step ops t st (go t Returning (put_lock slot ((th_lock st slot)\<lparr>pl_writer := None\<rparr>)
      (change_frame slot (\<lambda>fr. fr\<lparr>fr_page := p'\<rparr>) (st\<lparr>th_store := s'\<rparr>))))"
| leave: "th_pc st t = Returning \<Longrightarrow>
    call_step ops t st (go t Client (st\<lparr>th_core := (th_core st)\<lparr>mx_holder := None\<rparr>\<rparr>))"

definition thread_step :: "'s store_ops \<Rightarrow> nat \<Rightarrow> nat \<Rightarrow> 's threads \<Rightarrow> 's threads \<Rightarrow> bool" where
  "thread_step ops n t st st' \<longleftrightarrow> borrow_step n t st st' \<or> call_step ops t st st'"

text \<open>Runs, in which every step is one that \<open>allowed\<close> lets its thread take.\<close>

inductive thread_run ::
  "'s store_ops \<Rightarrow> nat \<Rightarrow> (nat \<Rightarrow> 's threads \<Rightarrow> 's threads \<Rightarrow> bool) \<Rightarrow> 's threads \<Rightarrow> 's threads \<Rightarrow> bool"
  for ops n allowed st0 where
  run_start: "thread_run ops n allowed st0 st0"
| run_step: "thread_run ops n allowed st0 st \<Longrightarrow> thread_step ops n t st st' \<Longrightarrow> allowed t st st' \<Longrightarrow>
    thread_run ops n allowed st0 st'"

definition any_use :: "nat \<Rightarrow> 's threads \<Rightarrow> 's threads \<Rightarrow> bool" where
  "any_use t st st' \<longleftrightarrow> True"

lemma call_run: "thread_run ops n any_use st0 st \<Longrightarrow> call_step ops t st st' \<Longrightarrow> thread_run ops n any_use st0 st'"
  using thread_run.run_step[of ops n any_use st0 st t st'] unfolding thread_step_def any_use_def by blast

lemma any_use_run: "thread_run ops n allowed st0 st \<Longrightarrow> thread_run ops n any_use st0 st"
  by (induction rule: thread_run.induct) (auto intro: thread_run.intros simp: any_use_def)

text \<open>
  A use of the pool that is safe: pages are borrowed in the order of their ids, and no
  method of the pool is called with a borrow in hand.
\<close>

definition tidy_use :: "nat \<Rightarrow> 's threads \<Rightarrow> 's threads \<Rightarrow> bool" where
  "tidy_use t st st' \<longleftrightarrow> th_pc st t = Client \<longrightarrow>
     (\<forall>slot m. th_pc st' t = Borrowing slot m \<longrightarrow>
        (\<forall>x \<in> borrows st t. fr_id (th_frame st x) < fr_id (th_frame st slot)))
     \<and> (\<forall>c. th_pc st' t = Calling c \<longrightarrow> borrows st t = {})"

definition threads_start :: "pool \<Rightarrow> 's \<Rightarrow> 's threads" where
  "threads_start bp s =
    \<lparr>th_pool = bp, th_store = s, th_core = \<lparr>mx_holder = None, mx_poisoned = False\<rparr>,
     th_lock = (\<lambda>_. \<lparr>pl_writer = None, pl_readers = {}, pl_poisoned = False\<rparr>), th_pc = (\<lambda>_. Client)\<rparr>"

lemma threads_simps [simp]:
  "th_pool (go t pc st) = th_pool st" "th_store (go t pc st) = th_store st" "th_core (go t pc st) = th_core st"
  "th_lock (go t pc st) = th_lock st" "th_pc (go t pc st) = (th_pc st)(t := pc)"
  "th_pool (put_lock slot l st) = th_pool st" "th_core (put_lock slot l st) = th_core st"
  "th_lock (put_lock slot l st) = (th_lock st)(slot := l)" "th_pc (put_lock slot l st) = th_pc st"
  "th_pool (change_frame slot f st) = update_frame slot f (th_pool st)"
  "th_core (change_frame slot f st) = th_core st" "th_lock (change_frame slot f st) = th_lock st"
  "th_pc (change_frame slot f st) = th_pc st"
  by (simp_all add: go_def put_lock_def change_frame_def)

lemmas thread_lock_defs = rwlock_write_def rwlock_read_def mutex_lock_def

section \<open>What every step keeps\<close>

fun in_mutex :: "thread_pc \<Rightarrow> bool" where
  "in_mutex Client = False" | "in_mutex (Borrowing slot m) = False" | "in_mutex (Calling c) = False"
| "in_mutex _ = True"

fun visits :: "thread_pc \<Rightarrow> nat set" where
  "visits (Visiting xs) = snd ` set xs"
| "visits (Waiting pid slot xs) = insert slot (snd ` set xs)"
| "visits (Cleaning pid slot xs) = insert slot (snd ` set xs)"
| "visits _ = {}"

definition in_use :: "'s threads \<Rightarrow> nat \<Rightarrow> nat \<Rightarrow> bool" where
  "in_use st t slot \<longleftrightarrow> slot \<in> borrows st t \<or> (\<exists>m. th_pc st t = Borrowing slot m)"

definition threads_ok :: "nat \<Rightarrow> 's threads \<Rightarrow> bool" where
  "threads_ok n st \<longleftrightarrow> slots_inv n {} (th_pool st)
     \<and> (\<forall>t. mx_holder (th_core st) = Some t \<longleftrightarrow> in_mutex (th_pc st t))
     \<and> (\<forall>t slot. in_use st t slot \<longrightarrow> slot < bp_capacity (th_pool st) \<and> 0 < fr_pin (th_frame st slot))
     \<and> (\<forall>t. visits (th_pc st t) \<subseteq> {..<bp_capacity (th_pool st)})"

definition tidy :: "'s threads \<Rightarrow> bool" where
  "tidy st \<longleftrightarrow> (\<forall>t. (\<forall>slot m x. th_pc st t = Borrowing slot m \<longrightarrow> x \<in> borrows st t \<longrightarrow>
       fr_id (th_frame st x) < fr_id (th_frame st slot))
     \<and> (borrows st t \<noteq> {} \<longrightarrow> th_pc st t = Client \<or> (\<exists>slot m. th_pc st t = Borrowing slot m)))"

lemma inside_simps:
  "inside bp xs c = Visiting ys \<Longrightarrow> entry_order bp xs \<Longrightarrow> set ys \<subseteq> {(pid, slot). bp_map bp pid = Some slot}"
  "in_mutex (inside bp xs c)" "inside bp xs c \<noteq> Client" "inside bp xs c \<noteq> Borrowing slot m"
  "inside bp xs c \<noteq> Cleaning pid slot rest" "inside bp xs c \<noteq> Waiting pid slot rest" "inside bp xs c \<noteq> Calling c'"
  by (cases c; auto simp: entry_order_def split: option.splits)+

lemma visits_inside:
  assumes "slots_inv n {} bp" and "entry_order bp xs"
  shows "visits (inside bp xs c) \<subseteq> {..<bp_capacity bp}"
  using inside_simps(1)[OF _ assms(2), of c] slots_inv_D(5)[OF assms(1)] inside_simps(5,6)[of bp xs c]
  by (cases "inside bp xs c") fastforce+

text \<open>A step changes the place and the borrows of its own thread only.\<close>

lemma step_others:
  assumes "thread_step ops n t st st'" and "u \<noteq> t"
  shows "th_pc st' u = th_pc st u" and "borrows st' u \<subseteq> borrows st u"
  using assms
  by (auto simp: thread_step_def borrows_def thread_lock_defs elim!: borrow_step.cases call_step.cases split: if_splits)

lemma step_own:
  assumes "thread_step ops n t st st'"
  shows "borrows st' t \<subseteq> borrows st t \<union> {slot. \<exists>m. th_pc st t = Borrowing slot m \<and> th_pc st' t = Client}"
  using assms
  by (auto simp: thread_step_def borrows_def thread_lock_defs inside_simps elim!: borrow_step.cases call_step.cases split: if_splits)

lemma step_mutex:
  assumes "thread_step ops n t st st'" and "\<forall>u. mx_holder (th_core st) = Some u \<longleftrightarrow> in_mutex (th_pc st u)"
  shows "mx_holder (th_core st') = Some u \<longleftrightarrow> in_mutex (th_pc st' u)"
proof -
  have "mx_holder (th_core st) = Some u \<longleftrightarrow> in_mutex (th_pc st u)" "mx_holder (th_core st) = Some t \<longleftrightarrow> in_mutex (th_pc st t)"
    using assms(2) by auto
  then show ?thesis
    using assms(1)
    by (auto simp: thread_step_def thread_lock_defs inside_simps elim!: borrow_step.cases call_step.cases split: if_splits)
qed

lemma step_visits:
  assumes "thread_step ops n t st st'" and "slots_inv n {} (th_pool st)"
    and "visits (th_pc st t) \<subseteq> {..<bp_capacity (th_pool st)}"
  shows "visits (th_pc st' t) \<subseteq> {..<bp_capacity (th_pool st)}"
proof -
  have "visits (th_pc st' t) \<subseteq> {..<bp_capacity (th_pool st)}" if "call_step ops t st st'"
    using that
  proof cases
    case (enter c r xs)
    then show ?thesis using visits_inside[OF assms(2) enter(4)] by simp
  qed (use assms(3) in auto)
  moreover have "visits (th_pc st' t) \<subseteq> {..<bp_capacity (th_pool st)}" if "borrow_step n t st st'"
    using that by cases (use assms(3) in auto)
  ultimately show ?thesis using assms(1) by (auto simp: thread_step_def)
qed

context typed_store
begin

text \<open>The pool keeps its bookkeeping, and frames in use keep their ids and stay pinned.\<close>

lemma admit_slots:
  "admit ops c bp s = (bp', s') \<Longrightarrow> slots_inv n {} bp \<Longrightarrow> slots_inv n {} bp' \<and> pins_stay bp bp'"
  by (cases c; cases "fetch ops (case c of FetchCall pid \<Rightarrow> pid) bp s"; cases "new_page ops (case c of NewCall pid \<Rightarrow> pid) bp s")
    (auto dest: fetch_slots new_page_slots)

lemma clean_slots:
  assumes "slots_inv n {} bp" and "slot < bp_capacity bp"
    and "so_write_page ops s pid (fr_page (frame_at bp slot)) = (r, p', s')"
  shows "slots_inv n {} (update_frame slot (\<lambda>fr. fr\<lparr>fr_page := p', fr_dirty := d\<rparr>) bp)
      \<and> pins_stay bp (update_frame slot (\<lambda>fr. fr\<lparr>fr_page := p', fr_dirty := d\<rparr>) bp)"
    and "slots_inv n {} (update_frame slot (\<lambda>fr. fr\<lparr>fr_page := p'\<rparr>) bp)
      \<and> pins_stay bp (update_frame slot (\<lambda>fr. fr\<lparr>fr_page := p'\<rparr>) bp)"
  using write_typed[OF assms(3) slots_inv_D(4)[OF assms(1,2)]] slots_inv_D(12)[OF assms(1), of slot] assms(1,2)
  by (auto intro!: slots_inv_update pins_stay_update)

lemma step_pool:
  assumes "thread_step ops n t st st'" and "threads_ok n st"
  shows "slots_inv n {} (th_pool st')" and "bp_capacity (th_pool st') = bp_capacity (th_pool st)"
    and "in_use st u slot \<Longrightarrow> fr_id (th_frame st' slot) = fr_id (th_frame st slot) \<and> 0 < fr_pin (th_frame st' slot)"
proof -
  have inv: "slots_inv n {} (th_pool st)"
    and used: "\<And>u slot. in_use st u slot \<Longrightarrow> slot < bp_capacity (th_pool st) \<and> 0 < fr_pin (th_frame st slot)"
    and vis: "visits (th_pc st t) \<subseteq> {..<bp_capacity (th_pool st)}"
    using assms(2) by (auto simp: threads_ok_def)
  note sl = slots_inv_D[OF inv]
  let ?ok = "\<lambda>bp'. slots_inv n {} bp' \<and> bp_capacity bp' = bp_capacity (th_pool st)
    \<and> (\<forall>u slot. in_use st u slot \<longrightarrow> fr_id (frame_at bp' slot) = fr_id (th_frame st slot) \<and> 0 < fr_pin (frame_at bp' slot))"
  have stay: "?ok bp'" if "slots_inv n {} bp' \<and> pins_stay (th_pool st) bp'" for bp'
    using that used unfolding pins_stay_def by (metis less_le_trans)
  have here: "?ok (th_pool st)" using inv used by simp
  have "?ok (th_pool st')" if "borrow_step n t st st'"
    using that
  proof cases
    case (ask_write slot)
    then show ?thesis
      by (intro stay) (auto intro!: slots_inv_update[OF inv] pins_stay_update[OF inv] sl(4) dest: sl(12))
  next
    case (change slot f)
    then have slot: "slot < bp_capacity (th_pool st)"
      using used[of t slot] by (auto simp: in_use_def borrows_def)
    moreover have "page_wf n (f (fr_page (th_frame st slot)))" using change sl(4)[OF slot] by blast
    ultimately show ?thesis using change
      by (intro stay) (auto intro!: slots_inv_update[OF inv] pins_stay_update[OF inv] dest: sl(12))
  next
    case (drop_guard slot)
    have len: "slot < length (bp_frames (th_pool st))" using drop_guard sl(1) by simp
    have "1 < fr_pin (th_frame st slot)" if "in_use st u slot" for u
      using drop_guard that by (auto simp: in_use_def)
    moreover have "slots_inv n {} (guard_drop slot (th_pool st))"
      using drop_guard unfolding guard_drop_def
      by (intro slots_inv_update[OF inv]) (auto intro: sl(4) dest: sl(12))
    ultimately show ?thesis using drop_guard used by (auto simp: guard_drop_def frame_at_update[OF len])
  qed (use here in auto)
  moreover have "?ok (th_pool st')" if "call_step ops t st st'"
    using that
  proof cases
    case (admit c bp' s')
    then show ?thesis using admit_slots[OF _ inv] by (intro stay) auto
  next
    case (cleaned pid slot rest p' s')
    then show ?thesis using clean_slots(1)[OF inv] vis by (intro stay) auto
  next
    case (not_cleaned pid slot rest e p' s')
    then show ?thesis using clean_slots(2)[OF inv] vis by (intro stay) auto
  qed (use here in auto)
  ultimately have "?ok (th_pool st')" using assms(1) by (auto simp: thread_step_def)
  then show "slots_inv n {} (th_pool st')" and "bp_capacity (th_pool st') = bp_capacity (th_pool st)"
    and "in_use st u slot \<Longrightarrow> fr_id (th_frame st' slot) = fr_id (th_frame st slot) \<and> 0 < fr_pin (th_frame st' slot)"
    by auto
qed

lemma step_ok:
  assumes "thread_step ops n t st st'" and "threads_ok n st"
  shows "threads_ok n st'"
proof -
  note pool = step_pool[OF assms]
  have inv: "slots_inv n {} (th_pool st)" using assms(2) by (simp add: threads_ok_def)
  have used: "slot < bp_capacity (th_pool st') \<and> 0 < fr_pin (th_frame st' slot)" if u: "in_use st' u slot" for u slot
  proof (cases "in_use st u slot")
    case True
    then show ?thesis using pool(2,3) assms(2) by (auto simp: threads_ok_def)
  next
    case False
    have "u = t"
    proof (rule ccontr)
      assume "u \<noteq> t"
      from step_others[OF assms(1) this] False u show "False" by (auto simp: in_use_def)
    qed
    with False u step_own[OF assms(1)] obtain m where m: "th_pc st' t = Borrowing slot m" "th_pc st t \<noteq> Borrowing slot m"
      by (auto simp: in_use_def)
    then have "slot < bp_capacity (th_pool st) \<and> 0 < fr_pin (th_frame st slot) \<and>
        (th_pool st' = th_pool st \<or> th_pool st' = update_frame slot (\<lambda>fr. fr\<lparr>fr_dirty := True\<rparr>) (th_pool st))"
      using assms(1) by (auto simp: thread_step_def inside_simps elim!: borrow_step.cases call_step.cases)
    then show ?thesis using slots_inv_D(1)[OF inv] by (auto simp: frame_at_update)
  qed
  have "visits (th_pc st' u) \<subseteq> {..<bp_capacity (th_pool st)}" for u
    using step_others(1)[OF assms(1), of u] step_visits[OF assms(1) inv] assms(2)
    by (cases "u = t") (simp_all add: threads_ok_def)
  then show ?thesis
    using pool(1,2) used step_mutex[OF assms(1)] assms(2) by (simp add: threads_ok_def)
qed

lemma run_ok: "thread_run ops n allowed st0 st \<Longrightarrow> threads_ok n st0 \<Longrightarrow> threads_ok n st"
  by (induction rule: thread_run.induct) (auto intro: step_ok)

lemma step_client:
  assumes "thread_step ops n t st st'" and "threads_ok n st"
  shows "th_pc st t = Borrowing slot m \<Longrightarrow> th_pc st' t = Client"
    and "th_pc st t = Client \<Longrightarrow> th_pc st' t = Client \<or> (\<exists>c. th_pc st' t = Calling c)
      \<or> (\<exists>slot m. th_pc st' t = Borrowing slot m \<and> fr_id (th_frame st' slot) = fr_id (th_frame st slot))"
proof -
  have len: "slot < bp_capacity (th_pool st) \<Longrightarrow> slot < length (bp_frames (th_pool st))" for slot
    using assms(2) slots_inv_D(1) by (simp add: threads_ok_def) metis
  show "th_pc st t = Borrowing slot m \<Longrightarrow> th_pc st' t = Client"
    and "th_pc st t = Client \<Longrightarrow> th_pc st' t = Client \<or> (\<exists>c. th_pc st' t = Calling c)
      \<or> (\<exists>slot m. th_pc st' t = Borrowing slot m \<and> fr_id (th_frame st' slot) = fr_id (th_frame st slot))"
    using assms(1) len
    by (auto simp: thread_step_def frame_at_update elim!: borrow_step.cases call_step.cases)
qed

lemma step_tidy:
  assumes "thread_step ops n t st st'" and "threads_ok n st" and "tidy st" and "tidy_use t st st'"
  shows "tidy st'"
proof -
  let ?tidy = "\<lambda>u. (\<forall>slot m x. th_pc st' u = Borrowing slot m \<longrightarrow> x \<in> borrows st' u \<longrightarrow>
       fr_id (th_frame st' x) < fr_id (th_frame st' slot))
     \<and> (borrows st' u \<noteq> {} \<longrightarrow> th_pc st' u = Client \<or> (\<exists>slot m. th_pc st' u = Borrowing slot m))"
  have ids: "fr_id (th_frame st' x) = fr_id (th_frame st x)" if "in_use st u x" for u x
    using step_pool(3)[OF assms(1,2) that] by simp
  have "?tidy u" if "u \<noteq> t" for u
    using step_others[OF assms(1) that] assms(3) ids[of u] by (fastforce simp: tidy_def in_use_def)
  note others = this
  have own: "?tidy t"
  proof (cases "\<exists>slot m. th_pc st t = Borrowing slot m")
    case True
    then show ?thesis using step_client(1)[OF assms(1,2)] by auto
  next
    case False
    then have sub: "borrows st' t \<subseteq> borrows st t" using step_own[OF assms(1)] by auto
    show ?thesis
    proof (cases "th_pc st t = Client")
      case True
      show ?thesis
        using step_client(2)[OF assms(1,2) True] assms(4)[unfolded tidy_use_def, rule_format, OF True] sub ids[of t]
        by (auto simp: in_use_def)
    next
      case other: False
      then have "borrows st t = {}" using False assms(3) by (auto simp: tidy_def)
      then show ?thesis using sub by simp
    qed
  qed
  have "?tidy u" for u using own others[of u] by (cases "u = t") simp_all
  then show ?thesis unfolding tidy_def by blast
qed

lemma tidy_run_ok:
  assumes "thread_run ops n tidy_use st0 st" and "threads_ok n st0" and "tidy st0"
  shows "threads_ok n st \<and> tidy st"
  using assms by induction (auto intro: step_ok step_tidy)

end

lemma threads_start_ok:
  "slots_inv n {} bp \<Longrightarrow> threads_ok n (threads_start bp s)" "tidy (threads_start bp s)"
  by (auto simp: threads_ok_def tidy_def threads_start_def in_use_def borrows_def)

section \<open>Progress\<close>

text \<open>
  A thread that is inside a borrow or a call, or has a borrow in hand.  A lock may prefer
  writers: a \<open>polite\<close> thread does not take a lock for reading that another waits to take
  for writing.
\<close>

definition engaged :: "'s threads \<Rightarrow> nat \<Rightarrow> bool" where
  "engaged st t \<longleftrightarrow> th_pc st t \<noteq> Client \<or> borrows st t \<noteq> {}"

definition wants_write :: "'s threads \<Rightarrow> nat \<Rightarrow> nat \<Rightarrow> bool" where
  "wants_write st u slot \<longleftrightarrow> th_pc st u = Borrowing slot Exclusive
     \<or> (\<exists>pid rest. th_pc st u = Waiting pid slot rest)
     \<or> (\<exists>c. th_pc st u = Admitting c \<and> slot \<in> admits_into (th_pool st) c)"

definition polite :: "'s threads \<Rightarrow> nat \<Rightarrow> bool" where
  "polite st u \<longleftrightarrow> (\<forall>slot. th_pc st u = Borrowing slot Shared \<longrightarrow> (\<forall>v. \<not> wants_write st v slot))"

lemma taken_lock:
  "\<not> lock_free (th_lock st slot) \<Longrightarrow>
    \<exists>u. slot \<in> borrows st u \<or> (\<exists>pid rest. th_pc st u = Cleaning pid slot rest)"
  by (auto simp: lock_free_def borrows_def)

text \<open>The moves of each kind of thread.\<close>

lemma mutex_moves:
  assumes "in_mutex (th_pc st u)" and "\<forall>slot. wants_write st u slot \<longrightarrow> lock_free (th_lock st slot)"
  shows "\<exists>st'. call_step ops u st st'"
proof (cases "th_pc st u")
  case (Admitting c)
  obtain bp' s' where "admit ops c (th_pool st) (th_store st) = (bp', s')" by (metis prod.exhaust)
  with Admitting assms(2) show ?thesis by (auto simp: wants_write_def intro: call_step.admit)
next
  case (Visiting xs)
  then show ?thesis
    by (cases xs) (use call_step.visited call_step.visit_clean call_step.visit_dirty in \<open>fastforce+\<close>)
next
  case (Waiting pid slot rest)
  then obtain r where "rwlock_write u (th_lock st slot) = Some r"
    using assms(2) by (auto simp: wants_write_def lock_free_def rwlock_write_def)
  with Waiting show ?thesis by (blast intro: call_step.lock_page)
next
  case (Cleaning pid slot rest)
  obtain w p' s' where "so_write_page ops (th_store st) pid (fr_page (th_frame st slot)) = (w, p', s')"
    by (metis prod_cases3)
  with Cleaning show ?thesis by (cases w) (auto intro: call_step.cleaned call_step.not_cleaned)
next
  case Returning
  then show ?thesis by (blast intro: call_step.leave)
qed (use assms(1) in auto)

lemma borrower_moves:
  assumes "th_pc st u = Borrowing slot m" and "lock_free (th_lock st slot)"
  shows "\<exists>st'. borrow_step n u st st'"
proof -
  obtain r r' where "rwlock_read u (th_lock st slot) = Some r" "rwlock_write u (th_lock st slot) = Some r'"
    using assms(2) by (auto simp: lock_free_def rwlock_read_def rwlock_write_def)
  with assms(1) show ?thesis
    by (cases m) (auto intro: borrow_step.take_read borrow_step.take_write)
qed

lemma caller_moves:
  assumes "th_pc st u = Calling c" and "mx_holder (th_core st) = None" and "slots_inv n {} (th_pool st)"
  shows "\<exists>st'. call_step ops u st st'"
proof -
  obtain xs where "entry_order (th_pool st) xs" using entry_order_exists[OF assms(3)] ..
  moreover obtain r where "mutex_lock u (th_core st) = Some r" using assms(2) by (auto simp: mutex_lock_def)
  ultimately show ?thesis using assms(1) by (blast intro: call_step.enter)
qed

lemma holder_moves:
  assumes "th_pc st u = Client" and "borrows st u \<noteq> {}"
  shows "\<exists>st'. borrow_step n u st st' \<and> th_pc st' u = Client"
  using assms borrow_step.release_read[OF assms(1) _ refl] borrow_step.release_write[OF assms(1) _ refl]
  by (fastforce simp: borrows_def)

definition can_move :: "'s store_ops \<Rightarrow> nat \<Rightarrow> 's threads \<Rightarrow> nat \<Rightarrow> bool" where
  "can_move ops n st u \<longleftrightarrow> engaged st u \<and> polite st u
     \<and> (\<exists>st'. thread_step ops n u st st' \<and> tidy_use u st st')"

lemma can_moveI:
  assumes "thread_step ops n u st st'" and "engaged st u" and "polite st u"
    and "th_pc st u = Client \<Longrightarrow> th_pc st' u = Client"
  shows "can_move ops n st u"
  using assms unfolding can_move_def tidy_use_def by force

lemma mutex_can_move:
  "in_mutex (th_pc st u) \<Longrightarrow> \<forall>slot. wants_write st u slot \<longrightarrow> lock_free (th_lock st slot) \<Longrightarrow> can_move ops n st u"
  using mutex_moves[of st u ops] by (fastforce intro!: can_moveI simp: thread_step_def engaged_def polite_def)

text \<open>Where a lock is free that somebody waits for, somebody can move.\<close>

lemma free_lock_moves:
  assumes "threads_ok n st" and "th_pc st u = Borrowing slot m" and "lock_free (th_lock st slot)"
  shows "\<exists>v. can_move ops n st v"
proof -
  have takes: "can_move ops n st v" if "th_pc st v = Borrowing slot m'" "polite st v" for v m'
    using borrower_moves[OF that(1) assms(3), of n] that
    by (auto intro!: can_moveI simp: thread_step_def engaged_def)
  show ?thesis
  proof (cases "polite st u")
    case True
    then show ?thesis using takes assms(2) by blast
  next
    case False
    then obtain v where v: "wants_write st v slot" using assms(2) by (auto simp: polite_def)
    consider "th_pc st v = Borrowing slot Exclusive" | pid rest where "th_pc st v = Waiting pid slot rest"
      | c where "th_pc st v = Admitting c" "slot \<in> admits_into (th_pool st) c"
      using v by (auto simp: wants_write_def)
    then show ?thesis
    proof cases
      case 1
      then show ?thesis using takes[of v] by (auto simp: polite_def)
    next
      case 2
      then show ?thesis using assms(3) by (intro exI[of _ v] mutex_can_move) (auto simp: wants_write_def)
    next
      case (3 c)
      have "0 < fr_pin (th_frame st slot)" using assms(1,2) by (auto simp: threads_ok_def in_use_def)
      then have "admits_into (th_pool st) c = {slot}"
        using 3(2) by (auto simp: admits_into_def split: pool_call.splits option.splits if_splits)
      then show ?thesis using 3(1) assms(3) by (intro exI[of _ v] mutex_can_move) (auto simp: wants_write_def)
    qed
  qed
qed

lemma tidy_progress:
  assumes ok: "threads_ok n st" and tidy: "tidy st" and eng: "engaged st t"
  shows "\<exists>u. can_move ops n st u"
proof (rule ccontr)
  assume stuck: "\<not> ?thesis"
  then have blocked: "\<exists>slot. wants_write st h slot \<and> \<not> lock_free (th_lock st slot)" if "in_mutex (th_pc st h)" for h
    using mutex_can_move[OF that] by blast
  have "th_pc st h \<noteq> Cleaning pid slot rest" for h pid slot rest
    using blocked[of h] by (auto simp: wants_write_def)
  then have taken: "\<exists>u. slot \<in> borrows st u" if "\<not> lock_free (th_lock st slot)" for slot
    using taken_lock[OF that] by blast
  define B where "B = {slot. \<exists>u. slot \<in> borrows st u}"
  show False
  proof (cases "B = {}")
    case True
    then have free: "lock_free (th_lock st slot)" for slot using taken by (auto simp: B_def)
    then have "\<not> in_mutex (th_pc st h)" for h using blocked by blast
    then have core: "\<not> in_mutex (th_pc st t)" "mx_holder (th_core st) = None"
      using ok unfolding threads_ok_def by (blast, metis option.exhaust)
    have "slots_inv n {} (th_pool st)" using ok by (simp add: threads_ok_def)
    note call = caller_moves[OF _ core(2) this, of t _ ops]
    show False
    proof (cases "th_pc st t")
      case Client
      then show False using eng True by (auto simp: engaged_def B_def)
    next
      case (Borrowing slot m)
      then show False using free_lock_moves[OF ok Borrowing free] stuck by blast
    next
      case (Calling c)
      then obtain st' where "call_step ops t st st'" using call by blast
      then have "can_move ops n st t"
        using Calling by (intro can_moveI[of ops n t st st']) (simp_all add: thread_step_def engaged_def polite_def)
      then show False using stuck by blast
    qed (use core(1) in auto)
  next
    case False
    have "B \<subseteq> {..<bp_capacity (th_pool st)}"
      using ok by (auto simp: B_def threads_ok_def in_use_def)
    then have "finite B" using finite_subset by blast
    then have "Max (fr_id ` th_frame st ` B) \<in> fr_id ` th_frame st ` B" using False by (intro Max_in) auto
    then obtain x where x: "x \<in> B" "Max (fr_id ` th_frame st ` B) = fr_id (th_frame st x)" by blast
    have max: "fr_id (th_frame st y) \<le> fr_id (th_frame st x)" if "y \<in> B" for y
      using \<open>finite B\<close> that unfolding x(2)[symmetric] by (intro Max_ge) auto
    obtain h where h: "x \<in> borrows st h" using x(1) by (auto simp: B_def)
    then consider "th_pc st h = Client" | slot m where "th_pc st h = Borrowing slot m"
      using tidy by (auto simp: tidy_def)
    then show False
    proof cases
      case 1
      obtain st' where "borrow_step n h st st'" "th_pc st' h = Client" using holder_moves[OF 1, of n] h by blast
      then have "can_move ops n st h"
        using h 1 by (intro can_moveI[of ops n h st st']) (auto simp: thread_step_def engaged_def polite_def)
      then show False using stuck by blast
    next
      case (2 slot m)
      then have "fr_id (th_frame st x) < fr_id (th_frame st slot)" using tidy h by (auto simp: tidy_def)
      then have "slot \<notin> B" using max[of slot] by auto
      then have "lock_free (th_lock st slot)" using taken by (auto simp: B_def)
      then show False using free_lock_moves[OF ok 2] stuck by blast
    qed
  qed
qed

section \<open>A deadlock\<close>

text \<open>
  Thread \<open>b\<close> holds the mutex and waits for a page that \<open>a\<close> has borrowed, \<open>a\<close> waits for the
  mutex: neither ever moves, and no other thread gets past the mutex.
\<close>

definition deadlocked :: "'s threads \<Rightarrow> nat \<Rightarrow> nat \<Rightarrow> bool" where
  "deadlocked st a b \<longleftrightarrow> (\<exists>c pid slot rest. th_pc st a = Calling c \<and> th_pc st b = Waiting pid slot rest
     \<and> slot \<in> borrows st a) \<and> mx_holder (th_core st) = Some b \<and> (\<forall>u. in_mutex (th_pc st u) \<longrightarrow> u = b)"

lemma deadlocked_step:
  assumes "deadlocked st a b" and "thread_step ops n t st st'"
  shows "deadlocked st' a b \<and> th_pc st' a = th_pc st a \<and> th_pc st' b = th_pc st b"
proof -
  obtain c pid slot rest where d: "th_pc st a = Calling c" "th_pc st b = Waiting pid slot rest"
    "slot \<in> borrows st a" "mx_holder (th_core st) = Some b" "\<And>u. in_mutex (th_pc st u) \<Longrightarrow> u = b"
    using assms(1) by (auto simp: deadlocked_def)
  then have lock: "\<not> lock_free (th_lock st slot)" and core: "mutex_lock t (th_core st) = None"
    by (auto simp: borrows_def lock_free_def mutex_lock_def)
  have tb: "t \<noteq> b" using assms(2) d(2) lock
    by (auto simp: thread_step_def lock_free_def rwlock_write_def elim!: borrow_step.cases call_step.cases split: if_splits)
  then have out: "\<not> in_mutex (th_pc st t)" using d(5) by blast
  have ta: "t \<noteq> a" using assms(2) d(1) core
    by (auto simp: thread_step_def elim!: borrow_step.cases call_step.cases)
  have still: "th_core st' = th_core st" "\<not> in_mutex (th_pc st' t)"
    using assms(2) out core by (auto simp: thread_step_def elim!: borrow_step.cases call_step.cases)
  have keep: "th_pc st' u = th_pc st u" if "u \<noteq> t" for u by (rule step_others(1)[OF assms(2) that])
  have "slot \<in> borrows st' a"
    using assms(2) d(1,3) ta out keep[of a]
    by (auto simp: thread_step_def borrows_def thread_lock_defs elim!: borrow_step.cases call_step.cases split: if_splits)
  moreover have "in_mutex (th_pc st' u) \<Longrightarrow> u = b" for u
    using still(2) keep[of u] d(5) by (cases "u = t") auto
  ultimately show ?thesis
    using d keep[of a] keep[of b] ta tb still(1) unfolding deadlocked_def by auto
qed

lemma deadlocked_run:
  "thread_run ops n any_use st st' \<Longrightarrow> deadlocked st a b \<Longrightarrow>
    deadlocked st' a b \<and> th_pc st' a = th_pc st a \<and> th_pc st' b = th_pc st b"
  by (induction rule: thread_run.induct) (auto dest: deadlocked_step)

lemma checkpoint_run:
  assumes ok: "threads_ok n st" and ab: "a \<noteq> b" "th_pc st a = Client" "th_pc st b = Client"
    and slot: "slot \<in> borrows st a" "fr_dirty (th_frame st slot)"
    and core: "mx_holder (th_core st) = None" and order: "entry_order (th_pool st) ((pid, slot) # xs)"
  shows "\<exists>st'. thread_run ops n any_use st st' \<and> deadlocked st' a b
    \<and> th_pc st' a = Calling c \<and> th_pc st' b = Waiting pid slot xs"
proof -
  define st1 where "st1 = go b (Calling FlushAllCall) st"
  define r where "r = (if mx_poisoned (th_core st) then Poisoned else Locked) ((th_core st)\<lparr>mx_holder := Some b\<rparr>)"
  define st2 where "st2 = go b (inside (th_pool st1) ((pid, slot) # xs) FlushAllCall) (st1\<lparr>th_core := sync_lock r\<rparr>)"
  define st3 where "st3 = go b (Waiting pid slot xs) st2"
  define st4 where "st4 = go a (Calling c) st3"
  note defs = st1_def st2_def st3_def st4_def
  have s1: "call_step ops b st st1" unfolding st1_def by (rule call_step.invoke[OF ab(3)])
  have s2: "call_step ops b st1 st2"
    unfolding st2_def using core order
    by (intro call_step.enter) (simp_all add: st1_def mutex_lock_def r_def)
  have s3: "call_step ops b st2 st3"
    unfolding st3_def using slot(2) by (intro call_step.visit_dirty) (simp_all add: st2_def st1_def)
  have s4: "call_step ops a st3 st4"
    unfolding st4_def using ab by (intro call_step.invoke) (simp add: st3_def st2_def st1_def)
  have run: "thread_run ops n any_use st st4"
    by (rule call_run[OF call_run[OF call_run[OF call_run[OF thread_run.run_start s1] s2] s3] s4])
  have "\<not> in_mutex (th_pc st u)" for u using ok core by (auto simp: threads_ok_def)
  moreover have "slot \<in> borrows st4 a"
    using slot(1) ab(1,2) by (auto simp: borrows_def defs)
  moreover have "mx_holder (th_core st4) = Some b" by (simp add: defs r_def)
  ultimately have "deadlocked st4 a b"
    using ab(1) by (auto simp: deadlocked_def st4_def st3_def st2_def st1_def)
  then show ?thesis using run ab(1) by (intro exI[of _ st4]) (simp add: st4_def st3_def)
qed

section \<open>Properties\<close>

text \<open>C17: however many threads use a pool, with every failure of the file, if pages are borrowed in
  the order of their ids and no method of the pool is called with a borrow in hand, there is
  no deadlock: whenever some thread is inside a borrow or a call, or has a borrow in hand,
  some such thread can move on and keep to this use, even with locks that prefer writers.\<close>

theorem ordered_borrows_never_deadlock:
  assumes "thread_run page_file_store n tidy_use (threads_start bp pf) st" and "slots_inv n {} bp"
    and "engaged st t"
  shows "\<exists>u. engaged st u \<and> polite st u
    \<and> (\<exists>st'. thread_step page_file_store n u st st' \<and> tidy_use u st st')"
  using tidy_progress[OF _ _ assms(3)] pft.tidy_run_ok[OF assms(1) threads_start_ok(1)[OF assms(2)] threads_start_ok(2)]
  unfolding can_move_def by blast

lemma one_reader_run:
  defines "st1 \<equiv> go 0 (Borrowing 1 Shared) (threads_start one_page empty_page_file)"
  shows "thread_run page_file_store 4096 tidy_use (threads_start one_page empty_page_file)
      (go 0 Client (put_lock 1 \<lparr>pl_writer = None, pl_readers = {0}, pl_poisoned = False\<rparr> st1))"
proof -
  have inv: "slots_inv 4096 {} one_page" by (rule pool_inv_slots[OF one_page(1)])
  have map: "bp_map one_page (PageId 3) = Some 1" using one_page(2) by simp
  have "borrow_step 4096 0 (threads_start one_page empty_page_file) st1"
    unfolding st1_def using slots_inv_D(5)[OF inv map] one_page(3)
    by (intro borrow_step.ask_read) (simp_all add: threads_start_def)
  moreover have "borrow_step 4096 0 st1
      (go 0 Client (put_lock 1 (sync_read (Locked \<lparr>pl_writer = None, pl_readers = {0}, pl_poisoned = False\<rparr>)) st1))"
    by (intro borrow_step.take_read) (simp_all add: st1_def threads_start_def rwlock_read_def)
  ultimately show ?thesis
    by (intro thread_run.run_step[where t = 0, OF thread_run.run_step[where t = 0, OF thread_run.run_start]])
      (auto simp: thread_step_def tidy_use_def st1_def threads_start_def borrows_def)
qed

theorem ordered_borrows_never_deadlock_witness:
  "\<exists>st u st'. thread_run page_file_store 4096 tidy_use (threads_start one_page empty_page_file) st
    \<and> borrows st 0 = {1} \<and> engaged st u \<and> thread_step page_file_store 4096 u st st'"
proof -
  let ?st = "go 0 Client (put_lock 1 \<lparr>pl_writer = None, pl_readers = {0}, pl_poisoned = False\<rparr>
    (go 0 (Borrowing 1 Shared) (threads_start one_page empty_page_file)))"
  have "borrows ?st 0 = {1}" by (auto simp: borrows_def threads_start_def split: if_splits)
  then show ?thesis
    using ordered_borrows_never_deadlock[OF one_reader_run pool_inv_slots[OF one_page(1)], of 0] one_reader_run
    unfolding engaged_def by blast
qed

text \<open>C18: without that discipline two threads can deadlock: when a thread has borrowed a dirty page,
  even for reading, and another calls flush_all (or checkpoint), which meets that page first,
  then, once the first thread calls any method of the pool, both wait for each other in every
  continuation and no other thread gets past the mutex of the pool.\<close>

theorem checkpoint_blocks_nested_call:
  assumes "thread_run page_file_store n any_use (threads_start bp pf) st" and "slots_inv n {} bp"
    and "a \<noteq> b" and "th_pc st a = Client" and "th_pc st b = Client"
    and "slot \<in> borrows st a" and "fr_dirty (th_frame st slot)"
    and "mx_holder (th_core st) = None" and "entry_order (th_pool st) ((pid, slot) # xs)"
  shows "\<exists>st1. thread_run page_file_store n any_use st st1
    \<and> (\<forall>st2. thread_run page_file_store n any_use st1 st2 \<longrightarrow>
         th_pc st2 a = Calling c \<and> th_pc st2 b = Waiting pid slot xs
         \<and> (\<forall>u. in_mutex (th_pc st2 u) \<longrightarrow> u = b))"
proof -
  have "threads_ok n st" by (rule pft.run_ok[OF assms(1) threads_start_ok(1)[OF assms(2)]])
  from checkpoint_run[OF this assms(3-9), of page_file_store c] obtain st1 where st1:
    "thread_run page_file_store n any_use st st1" "deadlocked st1 a b"
    "th_pc st1 a = Calling c" "th_pc st1 b = Waiting pid slot xs" by blast
  then show ?thesis
    using deadlocked_run[OF _ st1(2)] unfolding deadlocked_def by (intro exI[of _ st1]) auto
qed

theorem checkpoint_blocks_nested_call_witness:
  "\<exists>st st1. thread_run page_file_store 4096 any_use (threads_start one_page empty_page_file) st
    \<and> thread_run page_file_store 4096 any_use st st1
    \<and> th_pc st1 0 = Calling (FetchCall (PageId 4)) \<and> th_pc st1 1 = Waiting (PageId 3) 1 []"
proof -
  let ?st = "go 0 Client (put_lock 1 \<lparr>pl_writer = None, pl_readers = {0}, pl_poisoned = False\<rparr>
    (go 0 (Borrowing 1 Shared) (threads_start one_page empty_page_file)))"
  have run: "thread_run page_file_store 4096 any_use (threads_start one_page empty_page_file) ?st"
    using one_reader_run by (rule any_use_run)
  have st: "1 \<in> borrows ?st 0" "th_pc ?st 0 = Client" "th_pc ?st 1 = Client" "fr_dirty (th_frame ?st 1)"
    "mx_holder (th_core ?st) = None" "entry_order (th_pool ?st) ((PageId 3, 1) # [])"
    using one_page_frame(2) one_page(4) by (simp_all add: borrows_def threads_start_def)
  have "(0::nat) \<noteq> 1" by simp
  from checkpoint_blocks_nested_call[OF run pool_inv_slots[OF one_page(1)] this st(2,3,1,4,5,6),
      of "FetchCall (PageId 4)"] run
  show ?thesis using thread_run.run_start by blast
qed

end
