(* ===== verification/Allocator.thy ===== *)
theory Allocator
  imports MemStore
begin

text \<open>
  The page allocator (\<^verbatim>\<open>src/alloc.rs\<close>).  Its state is the free list, the
  high-water mark and the scratch page; the store is passed along, because the
  source lets the allocator share it with a pool.  The lemmas show that ids in
  use are never handed out again, that opening any store, however corrupt, gives
  a consistent state or an error after a bounded walk, and that \<^verbatim>\<open>sync\<close> followed
  by \<^verbatim>\<open>new\<close> restores the state on every store that keeps the contract.
\<close>

definition NO_PAGE :: u64 where "NO_PAGE = 0xFFFFFFFFFFFFFFFF"

definition SB_MAGIC :: u32 where
  "SB_MAGIC = from_le_bytes (map (\<lambda>c. of_nat (of_char c)) ''PGSB'')"

definition SB_VERSION :: u16 where "SB_VERSION = 1"

definition SB_MAGIC_OFF :: nat where "SB_MAGIC_OFF = 0"
definition SB_VERSION_OFF :: nat where "SB_VERSION_OFF = 4"
definition SB_HEAD_OFF :: nat where "SB_HEAD_OFF = 8"
definition SB_NEXT_OFF :: nat where "SB_NEXT_OFF = 16"
definition SB_FREECOUNT_OFF :: nat where "SB_FREECOUNT_OFF = 24"
definition LINK_NEXT_OFF :: nat where "LINK_NEXT_OFF = 0"

lemmas sb_offset_defs =
  SB_MAGIC_OFF_def SB_VERSION_OFF_def SB_HEAD_OFF_def SB_NEXT_OFF_def SB_FREECOUNT_OFF_def
  LINK_NEXT_OFF_def

record alloc_state =
  free_list :: "u64 list"
  next_new :: u64
  scratch :: page

section \<open>Allocating and freeing\<close>

definition checked_add :: "u64 \<Rightarrow> u64 \<Rightarrow> u64 option" where
  "checked_add a b = (if unat a + unat b < 2 ^ 64 then Some (a + b) else None)"

definition allocate :: "alloc_state \<Rightarrow> page_id page_result \<times> alloc_state" where
  "allocate st =
    (if free_list st \<noteq> [] then
       (Inr (PageId (last (free_list st))), st\<lparr>free_list := butlast (free_list st)\<rparr>)
     else
       let i = next_new st
       in case checked_add i 1 of
            Some next' \<Rightarrow>
              if next' \<noteq> NO_PAGE then (Inr (PageId i), st\<lparr>next_new := next'\<rparr>)
              else (Inl (InvalidPageId i), st)
          | None \<Rightarrow> (Inl (InvalidPageId i), st))"

definition free :: "page_id \<Rightarrow> alloc_state \<Rightarrow> unit page_result \<times> alloc_state" where
  "free pid st =
    (let raw = pid_get pid
     in if raw = 0 then (Inl (InvalidPageId 0), st)
        else if next_new st \<le> raw then (Inl (InvalidPageId raw), st)
        else (Inr (), st\<lparr>free_list := free_list st @ [raw]\<rparr>))"

definition high_water :: "alloc_state \<Rightarrow> u64" where
  "high_water st = next_new st"

definition free_count :: "alloc_state \<Rightarrow> u64" where
  "free_count st = of_nat (length (free_list st))"

section \<open>Writing the superblock\<close>

definition first_or_none :: "u64 list \<Rightarrow> u64" where
  "first_or_none xs = (case xs of [] \<Rightarrow> NO_PAGE | x # _ \<Rightarrow> x)"

text \<open>The loop over the free list: each free page stores the id of the next one.\<close>

fun persist_links ::
  "'s store_ops \<Rightarrow> 's \<Rightarrow> page \<Rightarrow> u64 list \<Rightarrow> unit page_result \<times> page \<times> 's" where
  "persist_links ops s sc [] = (Inr (), sc, s)"
| "persist_links ops s sc (i # rest) =
    (let sc = payload_mut (write_u64 LINK_NEXT_OFF (first_or_none rest)) (reset sc)
     in case so_write_page ops s (PageId i) sc of
          (Inl e, sc', s') \<Rightarrow> (Inl e, sc', s')
        | (Inr _, sc', s') \<Rightarrow> persist_links ops s' sc' rest)"

definition superblock_payload :: "u64 \<Rightarrow> u64 \<Rightarrow> u64 \<Rightarrow> bytes \<Rightarrow> bytes" where
  "superblock_payload head nxt cnt pl =
     write_u64 SB_FREECOUNT_OFF cnt (write_u64 SB_NEXT_OFF nxt (write_u64 SB_HEAD_OFF head
       (write_u16 SB_VERSION_OFF SB_VERSION (write_u32 SB_MAGIC_OFF SB_MAGIC pl))))"

definition persist_superblock ::
  "'s store_ops \<Rightarrow> alloc_state \<Rightarrow> 's \<Rightarrow> unit page_result \<times> alloc_state \<times> 's" where
  "persist_superblock ops st s =
    (case persist_links ops s (scratch st) (free_list st) of
       (Inl e, sc, s') \<Rightarrow> (Inl e, st\<lparr>scratch := sc\<rparr>, s')
     | (Inr _, sc, s') \<Rightarrow>
         let head = first_or_none (free_list st);
             len = of_nat (length (free_list st));
             sc = payload_mut (superblock_payload head (next_new st) len) (reset sc);
             (r, sc', s'') = so_write_page ops s' (PageId 0) sc
         in (r, st\<lparr>scratch := sc'\<rparr>, s''))"

definition PageAllocator_sync ::
  "'s store_ops \<Rightarrow> alloc_state \<Rightarrow> 's \<Rightarrow> unit page_result \<times> alloc_state \<times> 's" where
  "PageAllocator_sync ops st s =
    (case persist_superblock ops st s of
       (Inl e, st', s') \<Rightarrow> (Inl e, st', s')
     | (Inr _, st', s') \<Rightarrow> (let (r, s'') = so_sync ops s' in (r, st', s'')))"

section \<open>Opening\<close>

text \<open>
  The loop of \<^verbatim>\<open>walk_free_chain\<close>.  \<open>seen\<close> grows with every turn and ids are 64
  bits wide, so the walk ends on every store.
\<close>

function walk_loop ::
  "'s store_ops \<Rightarrow> u64 \<Rightarrow> u64 \<Rightarrow> 's \<Rightarrow> page \<Rightarrow> u64 list \<Rightarrow> u64 set \<Rightarrow> u64
     \<Rightarrow> u64 list page_result \<times> page \<times> 's" where
  "walk_loop ops nxt cnt s sc ids seen cur =
    (if cur \<noteq> NO_PAGE then
       if cnt \<le> of_nat (length ids) then (Inl InvalidSuperblock, sc, s)
       else if cur = 0 \<or> nxt \<le> cur then (Inl InvalidSuperblock, sc, s)
       else if cur \<in> seen then (Inl InvalidSuperblock, sc, s)
       else (case so_read_into ops s (PageId cur) sc of
               (Inl e, sc', s') \<Rightarrow> (Inl e, sc', s')
             | (Inr _, sc', s') \<Rightarrow>
                 walk_loop ops nxt cnt s' sc' (ids @ [cur]) (insert cur seen)
                   (read_u64 (payload sc') LINK_NEXT_OFF))
     else if of_nat (length ids) \<noteq> cnt then (Inl InvalidSuperblock, sc, s)
     else (Inr ids, sc, s))"
  by pat_completeness auto

termination walk_loop
proof (relation "measure (\<lambda>(ops, nxt, cnt, s, sc, ids, seen, cur). card (- seen))", goal_cases)
  case 1
  show ?case by simp
next
  case (2 ops nxt cnt s sc ids seen cur)
  then have "- insert cur seen \<subset> - seen" by auto
  then show ?case by (simp add: psubset_card_mono)
qed

declare walk_loop.simps [simp del]

definition walk_free_chain ::
  "'s store_ops \<Rightarrow> 's \<Rightarrow> page \<Rightarrow> u64 \<Rightarrow> u64 \<Rightarrow> u64 \<Rightarrow> u64 list page_result \<times> page \<times> 's" where
  "walk_free_chain ops s sc head nxt cnt = walk_loop ops nxt cnt s sc [] {} head"

definition PageAllocator_new :: "'s store_ops \<Rightarrow> 's \<Rightarrow> alloc_state page_result \<times> 's" where
  "PageAllocator_new ops s =
    (case so_read_into ops s (PageId 0) (so_allocate_page ops s) of
       (Inr _, sc, s1) \<Rightarrow>
         let pl = payload sc
         in if read_u32 pl SB_MAGIC_OFF \<noteq> SB_MAGIC \<or> read_u16 pl SB_VERSION_OFF \<noteq> SB_VERSION
            then (Inl InvalidSuperblock, s1)
            else let head = read_u64 pl SB_HEAD_OFF;
                     nxt = read_u64 pl SB_NEXT_OFF;
                     cnt = read_u64 pl SB_FREECOUNT_OFF
                 in if nxt < 1 then (Inl InvalidSuperblock, s1)
                    else (case walk_free_chain ops s1 sc head nxt cnt of
                            (Inl e, sc', s2) \<Rightarrow> (Inl e, s2)
                          | (Inr ids, sc', s2) \<Rightarrow>
                              (Inr \<lparr>free_list = ids, next_new = nxt, scratch = sc'\<rparr>, s2))
     | (Inl (ShortRead _ _ _), sc, s1) \<Rightarrow>
         (case persist_superblock ops \<lparr>free_list = [], next_new = 1, scratch = sc\<rparr> s1 of
            (Inl e, st, s2) \<Rightarrow> (Inl e, s2)
          | (Inr _, st, s2) \<Rightarrow> (Inr st, s2))
     | (Inl e, sc, s1) \<Rightarrow> (Inl e, s1))"

text \<open>
  \<^verbatim>\<open>new\<close> reads the file and may write it, so the file at the path is afterwards what
  \<^verbatim>\<open>new\<close> left, also when it fails.
\<close>

definition PageAllocator_open ::
  "file_system \<Rightarrow> string \<Rightarrow> page_size \<Rightarrow> (alloc_state \<times> page_file) page_result \<times> file_system" where
  "PageAllocator_open fs path ps =
    (case PageFile_open fs path ps of
       (Inl e, fs') \<Rightarrow> (Inl e, fs')
     | (Inr file, fs') \<Rightarrow>
         (case PageAllocator_new page_file_store file of
            (Inl e, file') \<Rightarrow> (Inl e, fs'\<lparr>fs_files := (fs_files fs')(path \<mapsto> pf_file file')\<rparr>)
          | (Inr st, file') \<Rightarrow>
              (Inr (st, file'), fs'\<lparr>fs_files := (fs_files fs')(path \<mapsto> pf_file file')\<rparr>)))"

section \<open>The invariant and the ids in use\<close>

definition alloc_inv :: "alloc_state \<Rightarrow> bool" where
  "alloc_inv st \<longleftrightarrow> 1 \<le> next_new st \<and> distinct (free_list st)
     \<and> (\<forall>i \<in> set (free_list st). 1 \<le> i \<and> i < next_new st)"

text \<open>The ids handed out and not returned: what the abstract allocator is.\<close>

definition live_ids :: "alloc_state \<Rightarrow> u64 set" where
  "live_ids st = {i. 1 \<le> i \<and> i < next_new st} - set (free_list st)"

lemma u64_ge_1_iff: "1 \<le> (i :: u64) \<longleftrightarrow> i \<noteq> 0"
  by (simp add: word_le_nat_alt Suc_le_eq unat_gt_0)

lemma unat_u64: "unat (i :: u64) < 2 ^ 64"
proof -
  have "unat i < 2 ^ LENGTH(64)" by (rule unsigned_less)
  then show ?thesis by simp
qed

lemma checked_add_1:
  "checked_add i 1 = Some j \<longleftrightarrow> i \<noteq> NO_PAGE \<and> j = i + 1"
  "checked_add i 1 = None \<longleftrightarrow> i = NO_PAGE"
proof -
  have "unat i + 1 < 2 ^ 64 \<longleftrightarrow> i \<noteq> NO_PAGE"
  proof -
    have "unat i + 1 < 2 ^ 64 \<longleftrightarrow> unat i \<noteq> unat NO_PAGE"
      using unat_u64[of i] by (auto simp: NO_PAGE_def)
    then show ?thesis by (simp add: word_unat_eq_iff)
  qed
  then show "checked_add i 1 = Some j \<longleftrightarrow> i \<noteq> NO_PAGE \<and> j = i + 1"
    "checked_add i 1 = None \<longleftrightarrow> i = NO_PAGE"
    by (auto simp: checked_add_def)
qed

lemma less_Suc_word: "i \<noteq> NO_PAGE \<Longrightarrow> (x :: u64) < i + 1 \<longleftrightarrow> x < i \<or> x = i"
proof -
  assume "i \<noteq> NO_PAGE"
  then have "unat (i + 1) = unat i + 1"
    using unat_u64[of i] by (auto simp: NO_PAGE_def unat_word_ariths word_unat_eq_iff)
  then show ?thesis by (auto simp: word_less_nat_alt word_unat_eq_iff)
qed

lemma inc_neq_0: "i \<noteq> NO_PAGE \<Longrightarrow> i + 1 \<noteq> (0 :: u64)"
  using less_Suc_word[of i 0] by (auto simp: word_gt_0)

lemma less_not_NO_PAGE: "(i :: u64) < j \<Longrightarrow> i \<noteq> NO_PAGE"
  using unat_u64[of j] by (auto simp: NO_PAGE_def word_less_nat_alt)

lemma allocate_cases:
  obtains (reuse) xs i where "free_list st = xs @ [i]"
      "allocate st = (Inr (PageId i), st\<lparr>free_list := xs\<rparr>)"
  | (extend) "free_list st = []" "next_new st \<noteq> NO_PAGE" "next_new st + 1 \<noteq> NO_PAGE"
      "allocate st = (Inr (PageId (next_new st)), st\<lparr>next_new := next_new st + 1\<rparr>)"
  | (full) "free_list st = []" "next_new st = NO_PAGE \<or> next_new st + 1 = NO_PAGE"
      "allocate st = (Inl (InvalidPageId (next_new st)), st)"
proof (cases "free_list st" rule: rev_cases)
  case Nil
  show ?thesis
  proof (cases "checked_add (next_new st) 1")
    case None
    then show ?thesis
      using Nil full checked_add_1(2)[of "next_new st"] by (simp add: allocate_def)
  next
    case (Some j)
    then have "next_new st \<noteq> NO_PAGE" "j = next_new st + 1" by (simp_all add: checked_add_1)
    with Nil Some full extend show ?thesis
      by (cases "j = NO_PAGE") (auto simp: allocate_def Let_def)
  qed
next
  case (snoc xs i)
  then show ?thesis using reuse by (simp add: allocate_def)
qed

lemma allocate_live:
  assumes "alloc_inv st" and "allocate st = (Inr pid, st')"
  shows "alloc_inv st'" and "pid_get pid \<notin> live_ids st" and "pid_get pid \<noteq> 0"
    and "live_ids st' = insert (pid_get pid) (live_ids st)"
proof -
  have "alloc_inv st' \<and> pid_get pid \<notin> live_ids st \<and> pid_get pid \<noteq> 0
    \<and> live_ids st' = insert (pid_get pid) (live_ids st)"
  proof (cases st rule: allocate_cases)
    case (reuse xs i)
    then have "1 \<le> i" "i < next_new st" "i \<notin> set xs"
      using assms(1) by (auto simp: alloc_inv_def)
    with reuse assms show ?thesis by (auto simp: alloc_inv_def live_ids_def)
  next
    case extend
    then have "1 \<le> next_new st" using assms(1) by (simp add: alloc_inv_def)
    with extend inc_neq_0[OF extend(2)] assms show ?thesis
      by (auto simp: alloc_inv_def live_ids_def less_Suc_word u64_ge_1_iff)
  next
    case full
    with assms show ?thesis by simp
  qed
  then show "alloc_inv st'" and "pid_get pid \<notin> live_ids st" and "pid_get pid \<noteq> 0"
    and "live_ids st' = insert (pid_get pid) (live_ids st)" by simp_all
qed

lemma free_live:
  assumes "alloc_inv st" and "pid_get pid \<in> live_ids st"
  shows "\<exists>st'. free pid st = (Inr (), st') \<and> alloc_inv st'
    \<and> live_ids st' = live_ids st - {pid_get pid}"
  using assms by (auto simp: free_def alloc_inv_def live_ids_def Let_def not_le)

lemma free_error:
  "free pid st = (Inl e, st') \<longleftrightarrow>
     st' = st \<and> e = InvalidPageId (pid_get pid) \<and> (pid_get pid = 0 \<or> next_new st \<le> pid_get pid)"
  by (auto simp: free_def Let_def)

section \<open>Opening any store\<close>

text \<open>What holds of the walk over every store, whatever it returns.\<close>

lemma walk_loop_sound:
  assumes "walk_loop ops nxt cnt s sc ids seen cur = (Inr ids', sc', s')"
    and "distinct ids" and "seen = set ids" and "\<forall>i \<in> set ids. 1 \<le> i \<and> i < nxt"
  shows "distinct ids' \<and> (\<forall>i \<in> set ids'. 1 \<le> i \<and> i < nxt) \<and> of_nat (length ids') = cnt"
  using assms
proof (induction ops nxt cnt s sc ids seen cur arbitrary: ids' sc' s' rule: walk_loop.induct)
  case (1 ops nxt cnt s sc ids seen cur)
  note run = "1.prems"(1)[unfolded walk_loop.simps[of ops nxt cnt s sc ids seen cur]]
  show ?case
  proof (cases "cur = NO_PAGE")
    case True
    with run "1.prems"(2-4) show ?thesis by (auto split: if_splits)
  next
    case False
    obtain u sc1 s1 where turn: "so_read_into ops s (PageId cur) sc = (Inr u, sc1, s1)"
      and guards: "\<not> cnt \<le> of_nat (length ids)" "\<not> (cur = 0 \<or> nxt \<le> cur)" "cur \<notin> seen"
      and rest: "walk_loop ops nxt cnt s1 sc1 (ids @ [cur]) (insert cur seen)
        (read_u64 (payload sc1) LINK_NEXT_OFF) = (Inr ids', sc', s')"
      using run False by (auto split: if_splits prod.splits sum.splits)
    from "1.IH"[OF False guards turn[symmetric] _ _ rest] "1.prems"(2-4) guards
    show ?thesis by (auto simp: u64_ge_1_iff not_le)
  qed
qed

lemma free_list_length: "alloc_inv st \<Longrightarrow> length (free_list st) < 2 ^ 64"
proof -
  assume inv: "alloc_inv st"
  then have "set (free_list st) \<subseteq> UNIV - {0}"
    by (auto simp: alloc_inv_def u64_ge_1_iff)
  then have "card (set (free_list st)) \<le> card (UNIV - {0} :: u64 set)"
    by (intro card_mono) auto
  also have "\<dots> < card (UNIV :: u64 set)" by (intro psubset_card_mono) auto
  finally show ?thesis using inv by (simp add: alloc_inv_def distinct_card card_word)
qed

lemma free_count_unat: "alloc_inv st \<Longrightarrow> unat (free_count st) = length (free_list st)"
  using free_list_length[of st] by (simp add: free_count_def unat_of_nat)

lemma persist_superblock_frame:
  "persist_superblock ops st s = (r, st', s') \<Longrightarrow> free_list st' = free_list st \<and> next_new st' = next_new st"
  by (auto simp: persist_superblock_def Let_def split: prod.splits sum.splits)

lemma PageAllocator_new_inv:
  assumes "PageAllocator_new ops s = (Inr st, s')"
  shows "alloc_inv st"
proof -
  obtain r sc s1 where read: "so_read_into ops s (PageId 0) (so_allocate_page ops s) = (r, sc, s1)"
    by (metis prod_cases3)
  show ?thesis
  proof (cases r)
    case (Inl e)
    then obtain a b c where "e = ShortRead a b c"
      using assms read by (cases e) (auto simp: PageAllocator_new_def)
    then obtain st1 where "persist_superblock ops \<lparr>free_list = [], next_new = 1, scratch = sc\<rparr> s1 = (Inr (), st, s')"
      using assms read Inl by (auto simp: PageAllocator_new_def split: prod.splits sum.splits)
    then show ?thesis by (drule_tac persist_superblock_frame) (simp add: alloc_inv_def)
  next
    case (Inr u)
    then show ?thesis
      using assms read
      by (auto simp: PageAllocator_new_def Let_def alloc_inv_def walk_free_chain_def u64_ge_1_iff
          dest!: walk_loop_sound split: prod.splits sum.splits if_splits)
  qed
qed

text \<open>A store that counts its reads, to state how far a walk goes.\<close>

definition counted :: "'s store_ops \<Rightarrow> ('s \<times> nat) store_ops" where
  "counted ops =
    \<lparr>so_page_size = (\<lambda>(s, k). so_page_size ops s),
     so_allocate_page = (\<lambda>(s, k). so_allocate_page ops s),
     so_read_into = (\<lambda>(s, k) pid p. let (r, p', s') = so_read_into ops s pid p in (r, p', (s', Suc k))),
     so_write_page = (\<lambda>(s, k) pid p. let (r, p', s') = so_write_page ops s pid p in (r, p', (s', k))),
     so_sync = (\<lambda>(s, k). let (r, s') = so_sync ops s in (r, (s', k)))\<rparr>"

lemma ids_below:
  assumes "distinct ids" and "\<forall>i \<in> set ids. 1 \<le> i \<and> i < (nxt :: u64)"
  shows "length ids \<le> unat nxt - 1"
proof -
  have "unat ` set ids \<subseteq> {1..<unat nxt}"
    using assms(2) by (auto simp: word_le_nat_alt word_less_nat_alt)
  then have "card (unat ` set ids) \<le> unat nxt - 1"
    using card_mono[of "{1..<unat nxt}"] by fastforce
  moreover have "card (unat ` set ids) = length ids"
    using assms(1) by (simp add: card_image inj_on_def word_unat_eq_iff distinct_card)
  ultimately show ?thesis by simp
qed

lemma walk_loop_reads:
  assumes "walk_loop (counted ops) nxt cnt (s, k) sc ids seen cur = (r, sc', (s', k'))"
    and "distinct ids" and "seen = set ids" and "\<forall>i \<in> set ids. 1 \<le> i \<and> i < nxt"
    and "length ids \<le> unat cnt"
  shows "k' + length ids \<le> k + unat cnt \<and> k' + length ids \<le> k + (unat nxt - 1)"
  using assms
proof (induction "counted ops" nxt cnt "(s, k)" sc ids seen cur arbitrary: s k r sc' s' k'
    rule: walk_loop.induct)
  case (1 nxt cnt sc ids seen cur s k)
  note run = "1.prems"(1)[unfolded walk_loop.simps[of "counted ops" nxt cnt "(s, k)" sc ids seen cur]]
  have len: "length ids \<le> unat nxt - 1" using "1.prems"(2,4) by (rule ids_below)
  show ?case
  proof (cases "cur = NO_PAGE \<or> cnt \<le> of_nat (length ids) \<or> cur = 0 \<or> nxt \<le> cur \<or> cur \<in> seen")
    case True
    then have "k' = k" using run by (auto split: if_splits)
    with len "1.prems"(5) show ?thesis by simp
  next
    case False
    then have g: "cur \<noteq> NO_PAGE" "\<not> cnt \<le> of_nat (length ids)" "\<not> (cur = 0 \<or> nxt \<le> cur)"
      "cur \<notin> seen" by simp_all
    obtain u sc1 s1 where turn: "so_read_into ops s (PageId cur) sc = (u, sc1, s1)"
      by (metis prod_cases3)
    then have turnc: "so_read_into (counted ops) (s, k) (PageId cur) sc = (u, sc1, (s1, Suc k))"
      by (simp add: counted_def)
    have small: "length ids < 2 ^ 64" using len unat_u64[of nxt] by simp
    have more: "Suc (length ids) \<le> unat cnt"
      using g(2) small by (simp add: word_le_nat_alt unat_of_nat not_le)
    have ids: "distinct (ids @ [cur])" "insert cur seen = set (ids @ [cur])"
      "\<forall>i \<in> set (ids @ [cur]). 1 \<le> i \<and> i < nxt" "length (ids @ [cur]) \<le> unat cnt"
      using "1.prems"(2-4) g more by (auto simp: u64_ge_1_iff not_le)
    show ?thesis
    proof (cases u)
      case (Inl e)
      then have "k' = Suc k" using run g turnc by auto
      then show ?thesis using more ids_below[OF ids(1,3)] by simp
    next
      case (Inr v)
      then have "walk_loop (counted ops) nxt cnt (s1, Suc k) sc1 (ids @ [cur]) (insert cur seen)
        (read_u64 (payload sc1) LINK_NEXT_OFF) = (r, sc', (s', k'))"
        using run g turnc by auto
      from "1.hyps"[OF g turnc[symmetric, unfolded Inr] refl refl this ids] show ?thesis by simp
    qed
  qed
qed

section \<open>Persisting and opening again\<close>

text \<open>The bytes of a free page that link it, and of a superblock.\<close>

definition link_of :: "bytes \<Rightarrow> u64" where
  "link_of bs = read_u64 (drop PAGE_HEADER_SIZE bs) LINK_NEXT_OFF"

definition is_superblock :: "u64 \<Rightarrow> u64 \<Rightarrow> u64 \<Rightarrow> bytes \<Rightarrow> bool" where
  "is_superblock head nxt cnt pl \<longleftrightarrow> read_u32 pl SB_MAGIC_OFF = SB_MAGIC
     \<and> read_u16 pl SB_VERSION_OFF = SB_VERSION \<and> read_u64 pl SB_HEAD_OFF = head
     \<and> read_u64 pl SB_NEXT_OFF = nxt \<and> read_u64 pl SB_FREECOUNT_OFF = cnt"

lemma read_write_other:
  "off + 8 \<le> length bs \<Longrightarrow> a + 2 \<le> off \<Longrightarrow> read_u16 (write_u64 off x bs) a = read_u16 bs a"
  "off + 8 \<le> length bs \<Longrightarrow> a + 4 \<le> off \<Longrightarrow> read_u32 (write_u64 off x bs) a = read_u32 bs a"
  "off + 8 \<le> length bs \<Longrightarrow> a + 8 \<le> off \<Longrightarrow> read_u64 (write_u64 off x bs) a = read_u64 bs a"
  "off + 2 \<le> length bs \<Longrightarrow> a + 4 \<le> off \<Longrightarrow> read_u32 (write_u16 off y bs) a = read_u32 bs a"
  by (simp_all add: read_slice length_write slice_write)

lemma is_superblock_payload:
  assumes "32 \<le> length pl"
  shows "is_superblock head nxt cnt (superblock_payload head nxt cnt pl)"
proof -
  define a where "a = write_u32 0 SB_MAGIC pl"
  define b where "b = write_u16 4 SB_VERSION a"
  define c where "c = write_u64 8 head b"
  define d where "d = write_u64 16 nxt c"
  define e where "e = write_u64 24 cnt d"
  have la: "32 \<le> length a" using assms by (simp add: a_def length_write)
  have lb: "32 \<le> length b" using la by (simp add: b_def length_write)
  have lc: "32 \<le> length c" using lb by (simp add: c_def length_write)
  have ld: "32 \<le> length d" using lc by (simp add: d_def length_write)
  have "read_u32 a 0 = SB_MAGIC" "read_u16 b 4 = SB_VERSION" "read_u64 c 8 = head"
    "read_u64 d 16 = nxt" "read_u64 e 24 = cnt"
    using assms la lb lc ld by (simp_all add: a_def b_def c_def d_def e_def read_write_same)
  moreover have "read_u32 e 0 = read_u32 a 0" "read_u16 e 4 = read_u16 b 4"
    "read_u64 e 8 = read_u64 c 8" "read_u64 e 16 = read_u64 d 16"
    unfolding e_def d_def c_def b_def
    using la lb lc ld[unfolded d_def c_def b_def] lc[unfolded c_def b_def] lb[unfolded b_def]
    by (simp_all add: read_write_other)
  ultimately show ?thesis
    by (simp add: is_superblock_def superblock_payload_def sb_offset_defs
        a_def[symmetric] b_def[symmetric] c_def[symmetric] d_def[symmetric] e_def[symmetric])
qed

lemma length_superblock_payload:
  "32 \<le> length pl \<Longrightarrow> length (superblock_payload head nxt cnt pl) = length pl"
  by (simp add: superblock_payload_def sb_offset_defs header_simps)

lemma payload_length: "page_wf n p \<Longrightarrow> length (payload p) = n - 32"
  by (simp add: payload_def offset_defs page_wf_length)

lemma payload_stamped: "page_wf n p \<Longrightarrow> drop PAGE_HEADER_SIZE (as_bytes (stamp pid p)) = payload p"
  using stamp_fields(3)[of n p pid] by (simp add: payload_def)

lemma link_page:
  assumes "page_wf n sc"
  shows "page_wf n (payload_mut (write_u64 LINK_NEXT_OFF x) (reset sc))"
    and "link_of (as_bytes (stamp pid (payload_mut (write_u64 LINK_NEXT_OFF x) (reset sc)))) = x"
proof -
  let ?p = "payload_mut (write_u64 LINK_NEXT_OFF x) (reset sc)"
  have len: "length (payload (reset sc)) = n - 32" "4096 \<le> n"
    using payload_length[OF reset_wf[OF assms]] page_wf_bounds(1)[OF assms] by simp_all
  then have same: "length (write_u64 LINK_NEXT_OFF x (payload (reset sc))) = length (payload (reset sc))"
    by (simp add: header_simps LINK_NEXT_OFF_def)
  show wf: "page_wf n ?p" by (rule payload_mut_wf[OF reset_wf[OF assms]]) (rule same)
  have "payload ?p = write_u64 LINK_NEXT_OFF x (payload (reset sc))"
    by (rule payload_payload_mut[OF reset_wf[OF assms]]) (rule same)
  then show "link_of (as_bytes (stamp pid ?p)) = x"
    using len unfolding link_of_def payload_stamped[OF wf]
    by (simp add: header_simps LINK_NEXT_OFF_def)
qed

lemma superblock_page:
  fixes head nxt cnt :: u64
  assumes "page_wf n sc"
  defines "p \<equiv> payload_mut (superblock_payload head nxt cnt) (reset sc)"
  shows "page_wf n p" and "is_superblock head nxt cnt (drop PAGE_HEADER_SIZE (as_bytes (stamp pid p)))"
proof -
  have len: "32 \<le> length (payload (reset sc))"
    using payload_length[OF reset_wf[OF assms(1)]] page_wf_bounds(1)[OF assms(1)] by simp
  note same = length_superblock_payload[OF len]
  show wf: "page_wf n p" unfolding p_def by (rule payload_mut_wf[OF reset_wf[OF assms(1)]]) (rule same)
  have "payload p = superblock_payload head nxt cnt (payload (reset sc))"
    unfolding p_def by (rule payload_payload_mut[OF reset_wf[OF assms(1)]]) (rule same)
  then show "is_superblock head nxt cnt (drop PAGE_HEADER_SIZE (as_bytes (stamp pid p)))"
    using is_superblock_payload[OF len] by (simp add: payload_stamped[OF wf])
qed

text \<open>
  The pages of a list hold a chain of links, of which the last is \<open>c\<close>, over the abstract
  content of a store; the chain that \<^verbatim>\<open>sync\<close> writes ends with \<open>NO_PAGE\<close>.
\<close>

definition first_or :: "u64 \<Rightarrow> u64 list \<Rightarrow> u64" where
  "first_or c xs = (case xs of [] \<Rightarrow> c | x # _ \<Rightarrow> x)"

lemma first_or_simps [simp]:
  "first_or c [] = c" "first_or c (x # xs) = x" "first_or NO_PAGE xs = first_or_none xs"
  by (simp_all add: first_or_def first_or_none_def)

fun linked_to :: "(page_id \<Rightarrow> bytes option) \<Rightarrow> u64 list \<Rightarrow> u64 \<Rightarrow> bool" where
  "linked_to v [] c \<longleftrightarrow> True"
| "linked_to v (i # rest) c \<longleftrightarrow>
     (\<exists>bs. v (PageId i) = Some bs \<and> link_of bs = first_or c rest) \<and> linked_to v rest c"

abbreviation linked :: "(page_id \<Rightarrow> bytes option) \<Rightarrow> u64 list \<Rightarrow> bool" where
  "linked v xs \<equiv> linked_to v xs NO_PAGE"

lemma linked_mono:
  "(\<And>i bs. i \<in> set xs \<Longrightarrow> v (PageId i) = Some bs \<Longrightarrow> w (PageId i) = Some bs)
    \<Longrightarrow> linked_to v xs c \<Longrightarrow> linked_to w xs c"
  by (induction xs) auto

text \<open>Overwriting the last page of a chain changes its last link.\<close>

lemma linked_to_overwrite:
  assumes "linked_to v (xs @ [i]) c" and "w (PageId i) = Some bs"
    and "\<And>j bs. j \<in> set xs \<Longrightarrow> v (PageId j) = Some bs \<Longrightarrow> w (PageId j) = Some bs"
  shows "linked_to w (xs @ [i]) (link_of bs)"
proof -
  have same: "first_or c (ys @ [i]) = first_or d (ys @ [i])" for d ys by (cases ys) simp_all
  show ?thesis
    using assms by (induction xs) (auto simp: same[of _ "link_of bs"])
qed

lemma linked_to_append:
  "linked_to v (xs @ ys) c \<longleftrightarrow> linked_to v xs (first_or c ys) \<and> linked_to v ys c"
proof (induction xs)
  case (Cons x xs)
  have "first_or c (xs @ ys) = first_or (first_or c ys) xs" by (cases xs) simp_all
  with Cons show ?case by auto
qed simp

text \<open>
  The walk of a chain of \<open>zs\<close> that goes on with \<open>c\<close> ends at \<open>c\<close>: the count of the superblock
  is reached there, or \<open>c\<close> is the end mark or an id that the walk rejects.
\<close>

definition chain_stops :: "u64 \<Rightarrow> u64 \<Rightarrow> u64 list \<Rightarrow> u64 \<Rightarrow> bool" where
  "chain_stops nxt cnt zs c \<longleftrightarrow> length zs = unat cnt
     \<or> length zs < unat cnt \<and> (c = NO_PAGE \<or> c = 0 \<or> nxt \<le> c \<or> c \<in> set zs)"

text \<open>What \<^verbatim>\<open>sync\<close> leaves in the store: the state, readable.\<close>

definition stored_to :: "(page_id \<Rightarrow> bytes option) \<Rightarrow> alloc_state \<Rightarrow> u64 \<Rightarrow> bool" where
  "stored_to v st c \<longleftrightarrow> linked_to v (free_list st) c \<and> (free_list st = [] \<longrightarrow> c = NO_PAGE)
     \<and> (\<exists>bs. v (PageId 0) = Some bs
          \<and> is_superblock (first_or_none (free_list st)) (next_new st) (free_count st)
              (drop PAGE_HEADER_SIZE bs))"

abbreviation stored_state :: "(page_id \<Rightarrow> bytes option) \<Rightarrow> alloc_state \<Rightarrow> bool" where
  "stored_state v st \<equiv> stored_to v st NO_PAGE"

lemmas stored_state_def = stored_to_def

text \<open>More generally: a superblock with mark \<open>nxt\<close> and count \<open>cnt\<close> over a chain of \<open>zs\<close> that goes on with \<open>c\<close>.\<close>

definition chained :: "(page_id \<Rightarrow> bytes option) \<Rightarrow> u64 list \<Rightarrow> u64 \<Rightarrow> u64 \<Rightarrow> u64 \<Rightarrow> bool" where
  "chained v zs c nxt cnt \<longleftrightarrow> linked_to v zs c
     \<and> (\<exists>bs. v (PageId 0) = Some bs \<and> is_superblock (first_or c zs) nxt cnt (drop PAGE_HEADER_SIZE bs))"

context page_store begin

lemma persist_links_frame:
  assumes "persist_links ops s sc xs = (r, sc', s')"
    and "inv s" and "page_wf n sc" and "\<forall>i \<in> set xs. ids (PageId i)"
  shows "inv s' \<and> page_wf n sc' \<and> (\<forall>e. r = Inl e \<longrightarrow> (\<exists>e'. e = Io e'))
    \<and> (\<forall>j bs. ids j \<longrightarrow> pid_get j \<notin> set xs \<longrightarrow> view s j = Some bs \<longrightarrow> view s' j = Some bs)"
  using assms
proof (induction xs arbitrary: s sc)
  case Nil
  then show ?case by auto
next
  case (Cons i xs)
  let ?sc = "payload_mut (write_u64 LINK_NEXT_OFF (first_or_none xs)) (reset sc)"
  have wf: "page_wf n ?sc" using Cons.prems(3) by (rule link_page(1))
  have i: "ids (PageId i)" using Cons.prems(4) by simp
  obtain u sc1 s1 where w: "so_write_page ops s (PageId i) ?sc = (u, sc1, s1)" by (metis prod_cases3)
  note frame = write_frame[OF Cons.prems(2) wf i w]
  have other: "view s1 j = Some bs" if "ids j" "pid_get j \<noteq> i" "view s j = Some bs" for j bs
    using write_other[OF Cons.prems(2) wf i w] that by fastforce
  show ?case
  proof (cases u)
    case (Inl e)
    then have "\<exists>e'. e = Io e'" using write_err[OF Cons.prems(2) wf i] w by blast
    then show ?thesis using Cons.prems(1) w Inl frame other stamp_wf[OF wf] by auto
  next
    case (Inr v)
    then have "persist_links ops s1 sc1 xs = (r, sc', s')"
      using Cons.prems(1) w by (simp add: Let_def)
    from Cons.IH[OF this] frame Cons.prems(4) stamp_wf[OF wf] other show ?thesis by auto
  qed
qed

lemma persist_links_ok:
  assumes "persist_links ops s sc xs = (Inr (), sc', s')"
    and "inv s" and "page_wf n sc" and "\<forall>i \<in> set xs. ids (PageId i)" and "distinct xs"
  shows "linked (view s') xs"
  using assms
proof (induction xs arbitrary: s sc)
  case Nil
  then show ?case by simp
next
  case (Cons i xs)
  let ?sc = "payload_mut (write_u64 LINK_NEXT_OFF (first_or_none xs)) (reset sc)"
  note lp = link_page(1)[OF Cons.prems(3), of "first_or_none xs"]
    and link = link_page(2)[OF Cons.prems(3), of "PageId i" "first_or_none xs"]
  have i: "ids (PageId i)" using Cons.prems(4) by simp
  obtain sc1 s1 where w: "so_write_page ops s (PageId i) ?sc = (Inr (), sc1, s1)"
    and rest: "persist_links ops s1 sc1 xs = (Inr (), sc', s')"
    using Cons.prems(1) by (auto simp: Let_def split: prod.splits sum.splits)
  have s1: "inv s1" "page_wf n sc1"
    using write_frame[OF Cons.prems(2) lp i w] stamp_wf[OF lp] by auto
  have rest_ids: "\<forall>j \<in> set xs. ids (PageId j)" "distinct xs" "i \<notin> set xs"
    using Cons.prems(4,5) by simp_all
  have "view s' (PageId i) = Some (as_bytes (stamp (PageId i) ?sc))"
    using persist_links_frame[OF rest s1 rest_ids(1)] write_ok[OF Cons.prems(2) lp i w] i
      rest_ids(3) by auto
  moreover have "linked (view s') xs" by (rule Cons.IH[OF rest s1 rest_ids(1,2)])
  ultimately show ?case using link by simp
qed

text \<open>The one way reading a page that is there can fail: the store reports an error.\<close>

definition read_failure :: "page_error \<Rightarrow> bool" where
  "read_failure e \<longleftrightarrow> (\<exists>s p i bs p' s'. inv s \<and> page_wf n p \<and> ids i \<and> view s i = Some bs
     \<and> so_read_into ops s i p = (Inl e, p', s'))"

lemma read_failure_io: "read_failure e \<Longrightarrow> \<exists>e'. e = Io e'"
  unfolding read_failure_def using read_view by blast

lemma read_viewed:
  "inv s \<Longrightarrow> page_wf n p \<Longrightarrow> ids i \<Longrightarrow> view s i = Some bs \<Longrightarrow> so_read_into ops s i p = (r, p', s')
    \<Longrightarrow> r = Inr () \<or> (\<exists>e. r = Inl e \<and> read_failure e)"
  by (cases r) (simp_all add: read_failure_def, blast)

text \<open>
  Walking a store that holds the chain of \<open>xs\<close> collects \<open>xs\<close>, and finds out if it goes on
  beyond or ends before the count, unless the store fails.
\<close>

lemma walk_linked:
  assumes "walk_loop ops nxt cnt s sc pre (set pre) (first_or c xs) = (r, sc', s')"
    and "inv s" and "page_wf n sc" and "linked_to (view s) xs c" and "distinct (pre @ xs)"
    and "\<forall>i \<in> set xs. 1 \<le> i \<and> i < nxt \<and> ids (PageId i)"
    and "chain_stops nxt cnt (pre @ xs) c"
  shows "(r = (if c = NO_PAGE \<and> length pre + length xs = unat cnt then Inr (pre @ xs) else Inl InvalidSuperblock) \<or> (\<exists>e. r = Inl e \<and> read_failure e))
    \<and> page_wf n sc' \<and> inv s' \<and> view s' = view s"
  using assms
proof (induction xs arbitrary: pre s sc)
  case Nil
  then have le: "length pre \<le> unat cnt" by (auto simp: chain_stops_def)
  then have "unat (of_nat (length pre) :: u64) = length pre"
    using unat_u64[of cnt] by (simp add: unat_of_nat)
  then have "of_nat (length pre) = cnt \<longleftrightarrow> length pre = unat cnt" by (metis word_unat_eq_iff)
  moreover have "cnt \<le> of_nat (length pre) \<longleftrightarrow> unat cnt \<le> length pre"
    using \<open>unat (of_nat (length pre) :: u64) = length pre\<close> by (simp add: word_le_nat_alt)
  ultimately show ?case
    using Nil by (cases "c = NO_PAGE") (auto simp: walk_loop.simps chain_stops_def split: if_splits)
next
  case (Cons i xs)
  obtain u sc1 s1 where rd: "so_read_into ops s (PageId i) sc = (u, sc1, s1)" by (metis prod_cases3)
  obtain bs where bs: "view s (PageId i) = Some bs" "link_of bs = first_or c xs"
    using Cons.prems(4) by auto
  have i: "1 \<le> i" "i < nxt" "ids (PageId i)" "i \<notin> set pre" using Cons.prems(5,6) by auto
  note frame = read_frame[OF Cons.prems(2,3) i(3) rd]
  have small: "length pre < unat cnt" using Cons.prems(7) by (auto simp: chain_stops_def)
  then have "unat (of_nat (length pre) :: u64) = length pre"
    using unat_u64[of cnt] by (simp add: unat_of_nat)
  then have guards: "i \<noteq> NO_PAGE" "\<not> cnt \<le> of_nat (length pre)" "\<not> (i = 0 \<or> nxt \<le> i)"
    using small i less_not_NO_PAGE[OF i(2)] by (auto simp: word_le_nat_alt word_less_nat_alt)
  have run: "(case u of Inl e \<Rightarrow> (Inl e, sc1, s1)
     | Inr _ \<Rightarrow> walk_loop ops nxt cnt s1 sc1 (pre @ [i]) (set (pre @ [i]))
          (read_u64 (payload sc1) LINK_NEXT_OFF)) = (r, sc', s')"
    using Cons.prems(1) guards i(4) rd
    by (simp add: walk_loop.simps[of ops nxt cnt s sc pre] first_or_none_def split: sum.splits)
  show ?case
  proof (cases u)
    case (Inl e)
    then have "read_failure e" using read_viewed[OF Cons.prems(2,3) i(3) bs(1) rd] by simp
    then show ?thesis using run Inl frame by auto
  next
    case (Inr v)
    then have "as_bytes sc1 = bs" using read_ok_bytes[OF Cons.prems(2,3) i(3) _ bs(1)] rd by simp
    then have nxt: "read_u64 (payload sc1) LINK_NEXT_OFF = first_or c xs"
      using bs(2) by (simp add: link_of_def payload_def)
    have "walk_loop ops nxt cnt s1 sc1 (pre @ [i]) (set (pre @ [i])) (first_or c xs) = (r, sc', s')"
      using run Inr nxt by simp
    from Cons.IH[OF this] frame Cons.prems(4-7) show ?thesis by auto
  qed
qed

lemma persist_superblock_correct:
  assumes p: "persist_superblock ops st s = (r, st', s')"
    and "inv s" and "page_wf n (scratch st)" and "alloc_inv st" and "ids (PageId 0)"
    and "\<forall>i \<in> set (free_list st). ids (PageId i)"
  shows "inv s'" and "page_wf n (scratch st')" and "r = Inr () \<Longrightarrow> stored_state (view s') st"
    and "r = Inl e \<Longrightarrow> \<exists>e'. e = Io e'"
    and "ids j \<Longrightarrow> pid_get j \<noteq> 0 \<Longrightarrow> pid_get j \<notin> set (free_list st) \<Longrightarrow> view s j = Some bs
      \<Longrightarrow> view s' j = Some bs"
proof -
  obtain u sc s1 where links: "persist_links ops s (scratch st) (free_list st) = (u, sc, s1)"
    by (metis prod_cases3)
  note frame = persist_links_frame[OF links assms(2,3,6)]
  let ?sc = "payload_mut (superblock_payload (first_or_none (free_list st)) (next_new st)
      (of_nat (length (free_list st)))) (reset sc)"
  have wf: "page_wf n sc" using frame by simp
  have wf2: "page_wf n ?sc" by (rule superblock_page(1)[OF wf])
  obtain u2 sc2 s2 where w: "so_write_page ops s1 (PageId 0) ?sc = (u2, sc2, s2)"
    by (metis prod_cases3)
  have inv1: "inv s1" using frame by simp
  note wframe = write_frame[OF inv1 wf2 assms(5) w]
  have res: "r = u" "st' = st\<lparr>scratch := sc\<rparr>" "s' = s1" if "u = Inl e'" for e'
    using p links that by (auto simp: persist_superblock_def)
  have res2: "r = u2" "st' = st\<lparr>scratch := sc2\<rparr>" "s' = s2" if "u = Inr ()"
    using p links that w by (auto simp: persist_superblock_def Let_def)
  show "inv s'" and "page_wf n (scratch st')"
    using res res2 wframe frame stamp_wf[OF wf2] by (cases u; force)+
  have not0: "i \<noteq> 0" if "i \<in> set (free_list st)" for i
    using assms(4) that by (auto simp: alloc_inv_def u64_ge_1_iff)
  show "\<exists>e'. e = Io e'" if "r = Inl e"
    using that res(1) res2(1) frame write_err[OF inv1 wf2 assms(5)] w by (cases u) auto
  show "ids j \<Longrightarrow> pid_get j \<noteq> 0 \<Longrightarrow> pid_get j \<notin> set (free_list st) \<Longrightarrow> view s j = Some bs
      \<Longrightarrow> view s' j = Some bs"
    using res(3) res2(3) frame write_other[OF inv1 wf2 assms(5) w, of j bs]
    by (cases u; cases j) fastforce+
  show "stored_state (view s') st" if r: "r = Inr ()"
  proof -
    have u: "u = Inr ()" using r res(1) by (cases u) auto
    have lk: "linked (view s1) (free_list st)"
      using persist_links_ok[OF links[unfolded u] assms(2,3,6)] assms(4) by (simp add: alloc_inv_def)
    have w2: "so_write_page ops s1 (PageId 0) ?sc = (Inr (), sc2, s2)" using w r res2(1)[OF u] by simp
    have "linked (view s2) (free_list st)"
      using lk write_other[OF inv1 wf2 assms(5) w] assms(6) not0
      by (intro linked_mono[of _ "view s1" "view s2"]) auto
    moreover note write_ok[OF inv1 wf2 assms(5) w2]
    ultimately show ?thesis
      using superblock_page(2)[OF wf] by (simp add: stored_state_def res2(3)[OF u] free_count_def)
  qed
qed

lemma alloc_sync_correct:
  assumes sync: "PageAllocator_sync ops st s = (r, st', s')"
    and "inv s" and "page_wf n (scratch st)" and "alloc_inv st" and "ids (PageId 0)"
    and "\<forall>i \<in> set (free_list st). ids (PageId i)"
  shows "inv s'" and "page_wf n (scratch st')" and "free_list st' = free_list st"
    and "next_new st' = next_new st"
    and "r = Inr () \<Longrightarrow> stored_state (view s') st" and "r = Inl e \<Longrightarrow> \<exists>e'. e = Io e'"
    and "ids j \<Longrightarrow> pid_get j \<noteq> 0 \<Longrightarrow> pid_get j \<notin> set (free_list st) \<Longrightarrow> view s j = Some bs
      \<Longrightarrow> view s' j = Some bs"
proof -
  obtain u st1 s1 where p: "persist_superblock ops st s = (u, st1, s1)" by (metis prod_cases3)
  note c = persist_superblock_correct[OF p assms(2-6)]
  note f = persist_superblock_frame[OF p]
  obtain u2 s2 where y: "so_sync ops s1 = (u2, s2)" by (metis prod.exhaust)
  note yf = sync_frame[OF c(1) y] and ye = sync_err[OF c(1)]
  have res: "(u = Inr () \<and> r = u2 \<and> st' = st1 \<and> s' = s2) \<or> (\<exists>e. u = Inl e \<and> r = u \<and> st' = st1 \<and> s' = s1)"
    using sync p y by (cases u) (auto simp: PageAllocator_sync_def)
  show "inv s'" and "page_wf n (scratch st')" and "free_list st' = free_list st"
    and "next_new st' = next_new st"
    using res c(1,2) f yf by auto
  show "r = Inr () \<Longrightarrow> stored_state (view s') st" using res c(3) yf by auto
  show "r = Inl e \<Longrightarrow> \<exists>e'. e = Io e'" using res c(4) ye y by auto
  show "ids j \<Longrightarrow> pid_get j \<noteq> 0 \<Longrightarrow> pid_get j \<notin> set (free_list st) \<Longrightarrow> view s j = Some bs
      \<Longrightarrow> view s' j = Some bs"
    using res c(5)[of j bs] yf by auto
qed

text \<open>
  Opening a store that holds a state: the state, or the store's own failure; and if the
  chain goes on beyond the free list, the superblock is rejected.
\<close>

lemma new_chained:
  assumes new: "PageAllocator_new ops s = (r, s')"
    and "inv s" and "ids (PageId 0)" and nxt: "1 \<le> nxt"
    and dist: "distinct zs" "\<forall>i \<in> set zs. 1 \<le> i \<and> i < nxt \<and> ids (PageId i)"
    and cnt: "chain_stops nxt cnt zs c"
    and stored: "chained (view s) zs c nxt cnt"
  shows "(if c = NO_PAGE \<and> length zs = unat cnt
        then \<exists>st'. r = Inr st' \<and> free_list st' = zs \<and> next_new st' = nxt else r = Inl InvalidSuperblock)
      \<or> (\<exists>e. r = Inl e \<and> read_failure e)"
    and "view s' = view s" and "inv s'"
proof -
  let ?res = "(if c = NO_PAGE \<and> length zs = unat cnt
        then \<exists>st'. r = Inr st' \<and> free_list st' = zs \<and> next_new st' = nxt else r = Inl InvalidSuperblock)
      \<or> (\<exists>e. r = Inl e \<and> read_failure e)"
  obtain bs where bs: "linked_to (view s) zs c" "view s (PageId 0) = Some bs"
    "is_superblock (first_or c zs) nxt cnt (drop PAGE_HEADER_SIZE bs)"
    using stored by (auto simp: chained_def)
  obtain u sc s1 where rd: "so_read_into ops s (PageId 0) (so_allocate_page ops s) = (u, sc, s1)"
    by (metis prod_cases3)
  have wf0: "page_wf n (so_allocate_page ops s)" using allocate[OF assms(2)] by simp
  note frame = read_frame[OF assms(2) wf0 assms(3) rd]
  have "?res" and "view s' = view s \<and> inv s'" if u: "u = Inr ()"
  proof -
    have "as_bytes sc = bs" using read_ok_bytes[OF assms(2) wf0 assms(3) rd[unfolded u] bs(2)] .
    then have sb: "is_superblock (first_or c zs) nxt cnt (payload sc)"
      using bs(3) by (simp add: payload_def)
    have pos: "\<not> nxt < 1" using nxt by (rule leD)
    obtain w sc2 s2 where walk: "walk_free_chain ops s1 sc (first_or c zs) nxt cnt = (w, sc2, s2)"
      by (metis prod_cases3)
    have cnt': "chain_stops nxt cnt ([] @ zs) c" using cnt by simp
    have dist': "distinct ([] @ zs)" using dist by simp
    have lk: "linked_to (view s1) zs c" using bs(1) frame by simp
    have walk0: "walk_loop ops nxt cnt s1 sc [] (set []) (first_or c zs) = (w, sc2, s2)"
      using walk by (simp add: walk_free_chain_def)
    note wl = walk_linked[OF walk0 _ _ lk dist' dist(2) cnt']
    have rw: "r = (case w of Inl e \<Rightarrow> Inl e
        | Inr xs \<Rightarrow> Inr \<lparr>free_list = xs, next_new = nxt, scratch = sc2\<rparr>)" "s' = s2"
      using new rd u sb pos walk
      by (auto simp: PageAllocator_new_def is_superblock_def Let_def split: sum.splits)
    show "?res" and "view s' = view s \<and> inv s'"
      using rw wl frame by auto
  qed
  moreover have "r = Inl e \<and> s' = s1" if "u = Inl e" "read_failure e" for e
    using new rd that read_failure_io[OF that(2)] by (auto simp: PageAllocator_new_def)
  moreover note read_viewed[OF assms(2) wf0 assms(3) bs(2) rd] frame
  ultimately show "?res" and "view s' = view s" and "inv s'"
    by blast+
qed

lemma new_stored_to:
  assumes new: "PageAllocator_new ops s = (r, s')"
    and "inv s" and "alloc_inv st" and "ids (PageId 0)"
    and "\<forall>i \<in> set (free_list st). ids (PageId i)" and stored: "stored_to (view s) st c"
  shows "(c = NO_PAGE \<and> (\<exists>st'. r = Inr st' \<and> free_list st' = free_list st \<and> next_new st' = next_new st))
      \<or> (c \<noteq> NO_PAGE \<and> r = Inl InvalidSuperblock) \<or> (\<exists>e. r = Inl e \<and> read_failure e)"
    and "view s' = view s" and "inv s'"
proof -
  have chain: "chained (view s) (free_list st) c (next_new st) (free_count st)"
    using stored by (cases "free_list st") (auto simp: stored_to_def chained_def first_or_none_def)
  note cnt = free_count_unat[OF assms(3), symmetric]
  have st: "1 \<le> next_new st" "distinct (free_list st)"
    "\<forall>i \<in> set (free_list st). 1 \<le> i \<and> i < next_new st \<and> ids (PageId i)"
    using assms(3,5) by (auto simp: alloc_inv_def)
  have "chain_stops (next_new st) (free_count st) (free_list st) c" using cnt by (simp add: chain_stops_def)
  note nc = new_chained[OF new assms(2,4) st this chain]
  show "view s' = view s" and "inv s'" using nc(2,3) .
  show "(c = NO_PAGE \<and> (\<exists>st'. r = Inr st' \<and> free_list st' = free_list st \<and> next_new st' = next_new st))
      \<or> (c \<noteq> NO_PAGE \<and> r = Inl InvalidSuperblock) \<or> (\<exists>e. r = Inl e \<and> read_failure e)"
    using nc(1) cnt by (auto split: if_splits)
qed

lemma new_stored:
  assumes "PageAllocator_new ops s = (r, s')"
    and "inv s" and "alloc_inv st" and "ids (PageId 0)"
    and "\<forall>i \<in> set (free_list st). ids (PageId i)" and "stored_state (view s) st"
  shows "(\<exists>st'. r = Inr st' \<and> free_list st' = free_list st \<and> next_new st' = next_new st)
      \<or> (\<exists>e. r = Inl e \<and> read_failure e)"
    and "view s' = view s" and "inv s'"
  using new_stored_to[OF assms] by blast+

text \<open>What an open that succeeds has found: a chain of its free list.\<close>

lemma walk_loop_linked:
  assumes "walk_loop ops' nxt cnt s sc pre seen cur = (Inr ids', sc', s')" and "ops' = ops"
    and "inv s" and "page_wf n sc" and below: "\<And>i. i < nxt \<Longrightarrow> ids (PageId i)"
  shows "\<exists>zs. ids' = pre @ zs \<and> linked (view s) zs \<and> first_or_none zs = cur
    \<and> inv s' \<and> view s' = view s \<and> page_wf n sc'"
  using assms
proof (induction ops' nxt cnt s sc pre seen cur arbitrary: ids' sc' s' rule: walk_loop.induct)
  case (1 ops' nxt cnt s sc pre seen cur)
  note run = "1.prems"(1)[unfolded walk_loop.simps[of ops' nxt cnt s sc pre seen cur]]
  show ?case
  proof (cases "cur = NO_PAGE")
    case True
    with run have "ids' = pre" "s' = s" "sc' = sc" by (auto split: if_splits)
    with True "1.prems"(3,4) show ?thesis by (intro exI[of _ "[]"]) (simp add: first_or_none_def)
  next
    case False
    obtain u sc1 s1 where turn: "so_read_into ops' s (PageId cur) sc = (Inr u, sc1, s1)"
      and guards: "\<not> cnt \<le> of_nat (length pre)" "\<not> (cur = 0 \<or> nxt \<le> cur)" "cur \<notin> seen"
      and rest: "walk_loop ops' nxt cnt s1 sc1 (pre @ [cur]) (insert cur seen)
        (read_u64 (payload sc1) LINK_NEXT_OFF) = (Inr ids', sc', s')"
      using run False by (auto split: if_splits prod.splits sum.splits)
    have rd: "so_read_into ops s (PageId cur) sc = (Inr (), sc1, s1)" using turn "1.prems"(2) by simp
    have cur: "ids (PageId cur)" using "1.prems"(5) guards(2) by (simp add: not_le)
    note frame = read_frame[OF "1.prems"(3,4) cur rd] and bytes = read_ok[OF "1.prems"(3,4) cur rd]
    obtain zs where zs: "ids' = (pre @ [cur]) @ zs" "linked (view s1) zs"
      "first_or_none zs = read_u64 (payload sc1) LINK_NEXT_OFF" "inv s'" "view s' = view s1" "page_wf n sc'"
      using "1.IH"[OF False guards turn[symmetric] _ _ rest "1.prems"(2) _ _ "1.prems"(5)] frame by auto
    have "linked (view s) (cur # zs)"
      using zs(2,3) frame bytes by (simp add: link_of_def payload_def)
    with zs frame show ?thesis by (intro exI[of _ "cur # zs"]) (simp add: first_or_none_def)
  qed
qed

lemma new_mark:
  assumes new: "PageAllocator_new ops s = (Inr st, s')" and inv: "inv s" and zero: "ids (PageId 0)"
    and bs: "view s (PageId 0) = Some bs" "is_superblock head nxt cnt (drop PAGE_HEADER_SIZE bs)"
  shows "next_new st = nxt"
proof -
  obtain u sc s1 where rd: "so_read_into ops s (PageId 0) (so_allocate_page ops s) = (u, sc, s1)"
    by (metis prod_cases3)
  have wf0: "page_wf n (so_allocate_page ops s)" using allocate[OF inv] by simp
  have u: "u = Inr ()" using read_view[OF inv wf0 zero rd bs(1)] new rd by (auto simp: PageAllocator_new_def)
  then have "as_bytes sc = bs" using read_ok_bytes[OF inv wf0 zero _ bs(1)] rd by simp
  then have "is_superblock head nxt cnt (payload sc)" using bs(2) by (simp add: payload_def)
  then show ?thesis
    using new rd u by (auto simp: PageAllocator_new_def is_superblock_def Let_def split: prod.splits sum.splits if_splits)
qed

lemma new_linked:
  assumes new: "PageAllocator_new ops s = (Inr st, s')" and inv: "inv s" and zero: "ids (PageId 0)"
    and below: "\<And>i. i < next_new st \<Longrightarrow> ids (PageId i)"
  shows "inv s'" and "page_wf n (scratch st)" and "stored_state (view s') st"
    and "view s (PageId 0) = Some bs \<Longrightarrow> view s' = view s"
proof -
  obtain u sc s1 where rd: "so_read_into ops s (PageId 0) (so_allocate_page ops s) = (u, sc, s1)"
    by (metis prod_cases3)
  have wf0: "page_wf n (so_allocate_page ops s)" using allocate[OF inv] by simp
  note frame = read_frame[OF inv wf0 zero rd]
  have "inv s' \<and> page_wf n (scratch st) \<and> stored_state (view s') st
      \<and> (view s (PageId 0) = Some bs \<longrightarrow> view s' = view s)"
  proof (cases u)
    case (Inl e)
    then obtain a b c where e: "e = ShortRead a b c"
      using new rd by (cases e) (auto simp: PageAllocator_new_def)
    let ?st = "\<lparr>free_list = [], next_new = 1, scratch = sc\<rparr>"
    have p: "persist_superblock ops ?st s1 = (Inr (), st, s')"
      using new rd Inl e by (auto simp: PageAllocator_new_def split: prod.splits sum.splits)
    have inv1: "inv s1" "page_wf n (scratch ?st)" "alloc_inv ?st" "\<forall>i \<in> set (free_list ?st). ids (PageId i)"
      using frame by (simp_all add: alloc_inv_def)
    note c = persist_superblock_correct[OF p inv1(1-3) zero inv1(4)]
    have "stored_state (view s') st"
      using c(3) persist_superblock_frame[OF p] by (simp add: stored_state_def free_count_def)
    moreover have "view s (PageId 0) = Some bs \<Longrightarrow> view s' = view s"
      using read_view[OF inv wf0 zero rd] Inl e by auto
    ultimately show ?thesis using c(1,2) by simp
  next
    case (Inr v)
    then have page: "view s1 (PageId 0) = Some (as_bytes sc)"
      using read_ok[OF inv wf0 zero] rd frame by simp
    obtain head nxt cnt where sb: "is_superblock head nxt cnt (payload sc)"
      and walk: "walk_loop ops nxt cnt s1 sc [] {} head = (Inr (free_list st), scratch st, s')"
      and nxt: "next_new st = nxt"
      using new rd Inr
      by (auto simp: PageAllocator_new_def is_superblock_def walk_free_chain_def Let_def
          split: prod.splits sum.splits if_splits)
    have wl: "linked (view s1) (free_list st) \<and> first_or_none (free_list st) = head
        \<and> inv s' \<and> view s' = view s1 \<and> page_wf n (scratch st)"
      using walk_loop_linked[OF walk refl _ _ below[unfolded nxt]] frame by auto
    have "of_nat (length (free_list st)) = cnt" using walk_loop_sound[OF walk] by simp
    then show ?thesis
      using wl sb nxt page frame by (simp add: stored_state_def free_count_def payload_def)
  qed
  then show "inv s'" and "page_wf n (scratch st)" and "stored_state (view s') st"
    and "view s (PageId 0) = Some bs \<Longrightarrow> view s' = view s" by blast+
qed

end

context reliable_store begin

lemma no_read_failure: "\<not> read_failure e"
  using read_total by (fastforce simp: read_failure_def)

lemma persist_links_total:
  assumes "persist_links ops s sc xs = (r, sc', s')"
    and "inv s" and "page_wf n sc" and "\<forall>i \<in> set xs. ids (PageId i)"
  shows "r = Inr ()"
  using assms
proof (induction xs arbitrary: s sc)
  case Nil
  then show ?case by simp
next
  case (Cons i xs)
  let ?sc = "payload_mut (write_u64 LINK_NEXT_OFF (first_or_none xs)) (reset sc)"
  have wf: "page_wf n ?sc" using Cons.prems(3) by (rule link_page(1))
  have i: "ids (PageId i)" using Cons.prems(4) by simp
  obtain u sc1 s1 where w: "so_write_page ops s (PageId i) ?sc = (u, sc1, s1)" by (metis prod_cases3)
  have "u = Inr ()" by (rule write_total[OF Cons.prems(2) wf i w])
  then have "persist_links ops s1 sc1 xs = (r, sc', s')" using Cons.prems(1) w by (simp add: Let_def)
  with Cons.IH[OF this] write_frame[OF Cons.prems(2) wf i w] Cons.prems(4) stamp_wf[OF wf]
  show ?case by auto
qed

lemma sync_total':
  assumes "inv s" and "page_wf n (scratch st)" and "alloc_inv st" and "ids (PageId 0)"
    and "\<forall>i \<in> set (free_list st). ids (PageId i)"
  shows "\<exists>st' s'. PageAllocator_sync ops st s = (Inr (), st', s')"
proof -
  obtain u sc s1 where links: "persist_links ops s (scratch st) (free_list st) = (u, sc, s1)"
    by (metis prod_cases3)
  note total = persist_links_total[OF links assms(1,2,5)]
  note frame = persist_links_frame[OF links assms(1,2,5)]
  let ?sc = "payload_mut (superblock_payload (first_or_none (free_list st)) (next_new st)
      (of_nat (length (free_list st)))) (reset sc)"
  have wf2: "page_wf n ?sc" using frame by (intro superblock_page(1)) simp
  obtain u2 sc2 s2 where w: "so_write_page ops s1 (PageId 0) ?sc = (u2, sc2, s2)"
    by (metis prod_cases3)
  have inv1: "inv s1" using frame by simp
  have u2: "u2 = Inr ()" by (rule write_total[OF inv1 wf2 assms(4) w])
  have inv2: "inv s2" using write_frame[OF inv1 wf2 assms(4) w] by simp
  obtain u3 s3 where y: "so_sync ops s2 = (u3, s3)" by (metis prod.exhaust)
  have "u3 = Inr ()" by (rule sync_total[OF inv2 y])
  then show ?thesis
    using links total w u2 y by (simp add: PageAllocator_sync_def persist_superblock_def Let_def)
qed

text \<open>On a reliable store, \<^verbatim>\<open>sync\<close> and then \<^verbatim>\<open>new\<close> give the state back.\<close>

lemma sync_then_new:
  assumes "inv s" and "page_wf n (scratch st)" and "alloc_inv st" and "ids (PageId 0)"
    and "\<forall>i \<in> set (free_list st). ids (PageId i)"
  shows "\<exists>st1 s1 st2 s2. PageAllocator_sync ops st s = (Inr (), st1, s1)
    \<and> PageAllocator_new ops s1 = (Inr st2, s2)
    \<and> free_list st2 = free_list st \<and> next_new st2 = next_new st \<and> view s2 = view s1"
proof -
  obtain st1 s1 where y: "PageAllocator_sync ops st s = (Inr (), st1, s1)"
    using sync_total'[OF assms] by blast
  note c = alloc_sync_correct[OF y assms]
  have stored: "stored_state (view s1) st" using c(5) by simp
  obtain r s2 where new: "PageAllocator_new ops s1 = (r, s2)" by (metis prod.exhaust)
  note ns = new_stored[OF new c(1) assms(3,4,5) stored]
  show ?thesis using y new ns no_read_failure by blast
qed

end

text \<open>
  An outcome that only the device is to blame for: an I/O error, and only where the
  schedule of the file holds a hard failure.
\<close>

abbreviation io_failure :: "page_file \<Rightarrow> 'a page_result \<Rightarrow> bool" where
  "io_failure pf r \<equiv> \<not> benign (pf_sched pf) \<and> (\<exists>e. r = Inl (Io e))"

lemma open_chained:
  assumes new: "PageAllocator_new page_file_store pf = (r, pf')"
    and "pf_inv n pf" and rest: "addressable n (PageId 0)" "1 \<le> nxt" "distinct zs"
    "\<forall>i \<in> set zs. 1 \<le> i \<and> i < nxt \<and> addressable n (PageId i)" "chain_stops nxt cnt zs c"
    "chained (pf_view n pf) zs c nxt cnt"
  shows "(if c = NO_PAGE \<and> length zs = unat cnt
        then \<exists>st'. r = Inr st' \<and> free_list st' = zs \<and> next_new st' = nxt else r = Inl InvalidSuperblock)
      \<or> io_failure pf r"
proof (cases "benign (pf_sched pf)")
  case True
  then have "pf_good n pf" using assms(2) by (simp add: pf_good_def)
  then show ?thesis using pfr.new_chained(1)[OF new _ rest] pfr.no_read_failure by blast
next
  case False
  then show ?thesis using pf.new_chained(1)[OF new assms(2) rest] pf.read_failure_io by blast
qed

lemma open_stored_to:
  assumes new: "PageAllocator_new page_file_store pf = (r, pf')"
    and "pf_inv n pf" and rest: "alloc_inv st" "addressable n (PageId 0)"
    "\<forall>i \<in> set (free_list st). addressable n (PageId i)" "stored_to (pf_view n pf) st c"
  shows "(c = NO_PAGE \<and> (\<exists>st'. r = Inr st' \<and> free_list st' = free_list st \<and> next_new st' = next_new st))
      \<or> (c \<noteq> NO_PAGE \<and> r = Inl InvalidSuperblock) \<or> io_failure pf r"
proof (cases "benign (pf_sched pf)")
  case True
  then have "pf_good n pf" using assms(2) by (simp add: pf_good_def)
  then show ?thesis using pfr.new_stored_to(1)[OF new _ rest] pfr.no_read_failure by blast
next
  case False
  then show ?thesis using pf.new_stored_to(1)[OF new assms(2) rest] pf.read_failure_io by blast
qed

lemma open_stored:
  assumes "PageAllocator_new page_file_store pf = (r, pf')"
    and "pf_inv n pf" and "alloc_inv st" "addressable n (PageId 0)"
    "\<forall>i \<in> set (free_list st). addressable n (PageId i)" "stored_state (pf_view n pf) st"
  shows "(\<exists>st'. r = Inr st' \<and> free_list st' = free_list st \<and> next_new st' = next_new st) \<or> io_failure pf r"
  using open_stored_to[OF assms] by blast

section \<open>Runs\<close>

text \<open>
  The abstract allocator: a set of ids in use, from which an event removes or to
  which it adds an id; \<^term>\<open>None\<close> when an id in use is handed out or an id not
  in use is returned.
\<close>

datatype alloc_event = Allocated u64 | Freed u64

fun replay :: "u64 set \<Rightarrow> alloc_event list \<Rightarrow> u64 set option" where
  "replay L [] = Some L"
| "replay L (Allocated i # es) = (if i \<in> L \<or> i = 0 then None else replay (insert i L) es)"
| "replay L (Freed i # es) = (if i \<in> L then replay (L - {i}) es else None)"

text \<open>
  The runs of the allocator under a client that returns only ids it holds; calls
  that fail leave no event.
\<close>

inductive alloc_run :: "alloc_state \<Rightarrow> alloc_event list \<Rightarrow> alloc_state \<Rightarrow> bool" where
  idle: "alloc_run st [] st"
| allocated: "allocate st = (Inr pid, st1) \<Longrightarrow> alloc_run st1 es st2 \<Longrightarrow>
    alloc_run st (Allocated (pid_get pid) # es) st2"
| exhausted: "allocate st = (Inl e, st1) \<Longrightarrow> alloc_run st1 es st2 \<Longrightarrow> alloc_run st es st2"
| freed: "pid_get pid \<in> live_ids st \<Longrightarrow> free pid st = (Inr (), st1) \<Longrightarrow> alloc_run st1 es st2 \<Longrightarrow>
    alloc_run st (Freed (pid_get pid) # es) st2"
| rejected: "free pid st = (Inl e, st1) \<Longrightarrow> alloc_run st1 es st2 \<Longrightarrow> alloc_run st es st2"

lemma allocate_error: "allocate st = (Inl e, st') \<Longrightarrow>
  st' = st \<and> e = InvalidPageId (next_new st) \<and> free_list st = []
    \<and> (next_new st = NO_PAGE \<or> next_new st + 1 = NO_PAGE)"
  by (cases st rule: allocate_cases) auto

lemma addressable_mono: "addressable n j \<Longrightarrow> unat (pid_get i) \<le> unat (pid_get j) \<Longrightarrow> addressable n i"
  unfolding addressable_def by (meson add_le_mono1 le_trans mult_le_mono1)

text \<open>Opening a memory store without a page 0.\<close>

lemma mem_new_fresh:
  assumes "ms_inv n ms" and "ms_pages ms 0 = None"
  shows "\<exists>st ms1. PageAllocator_new mem_store_ops ms = (Inr st, ms1) \<and> free_list st = []
    \<and> next_new st = 1 \<and> ms_inv n ms1 \<and> stored_state (ms_view n ms1) st \<and> page_wf n (scratch st)"
proof -
  let ?st = "\<lparr>free_list = [], next_new = 1, scratch = MemStore_allocate_page ms\<rparr>"
  have inv: "alloc_inv ?st" "page_wf n (scratch ?st)"
    using mem_allocate[OF assms(1)] by (simp_all add: alloc_inv_def)
  have ids: "\<forall>i \<in> set (free_list ?st). True" by simp
  obtain r st ms1 where p: "persist_superblock mem_store_ops ?st ms = (r, st, ms1)"
    by (metis prod_cases3)
  note c = ms.persist_superblock_correct[OF p assms(1) inv(2,1) TrueI ids]
  have r: "r = Inr ()"
    using p by (auto simp: persist_superblock_def mem_store_ops_def MemStore_write_page_def Let_def)
  have st: "free_list st = []" "next_new st = 1" using persist_superblock_frame[OF p] by simp_all
  have "PageAllocator_new mem_store_ops ms =
      (case persist_superblock mem_store_ops ?st ms of
         (Inl e, st, s2) \<Rightarrow> (Inl e, s2) | (Inr _, st, s2) \<Rightarrow> (Inr st, s2))"
    unfolding PageAllocator_new_def using assms(2)
    by (simp add: mem_store_ops_def MemStore_read_into_def)
  then have "PageAllocator_new mem_store_ops ms = (Inr st, ms1)" using p r by simp
  moreover have "stored_state (ms_view n ms1) st"
    using c(3)[OF r] st by (simp add: stored_state_def free_count_def)
  ultimately show ?thesis using st c(1,2) by blast
qed

text \<open>
  A chain of which one link was overwritten by \<open>c\<close>: if \<open>c\<close> is the old link, nothing has changed;
  otherwise the free list is not found again, and when \<open>c\<close> leads to no id in use, the open fails.
\<close>

lemma open_spliced:
  assumes new: "PageAllocator_new page_file_store pf = (r, pf')" and inv: "pf_inv n pf" and st: "alloc_inv st"
    and addr: "\<And>j. j < next_new st \<Longrightarrow> addressable n (PageId j)" and fl: "free_list st = xs @ i # ys"
    and block: "pf_view n pf (PageId 0) = Some b"
      "is_superblock (first_or_none (free_list st)) (next_new st) (free_count st) (drop PAGE_HEADER_SIZE b)"
    and chain: "linked_to (pf_view n pf) (xs @ [i]) c" "linked (pf_view n pf) ys"
  shows "c = first_or_none ys \<Longrightarrow>
      (\<exists>st2. r = Inr st2 \<and> free_list st2 = free_list st \<and> next_new st2 = next_new st) \<or> io_failure pf r"
    and "c \<noteq> first_or_none ys \<Longrightarrow> r = Inr st2 \<Longrightarrow> free_list st2 \<noteq> free_list st"
    and "c \<noteq> first_or_none ys \<Longrightarrow> ys = [] \<or> c \<notin> live_ids st \<Longrightarrow> r = Inl InvalidSuperblock \<or> io_failure pf r"
proof -
  have pos: "1 \<le> next_new st" and dist: "distinct (xs @ i # ys)"
    and below: "\<And>j. j \<in> set (xs @ i # ys) \<Longrightarrow> 1 \<le> j \<and> j < next_new st \<and> addressable n (PageId j)"
    using st fl addr by (auto simp: alloc_inv_def)
  have zero: "addressable n (PageId 0)" using pos by (intro addr) (simp add: word_le_nat_alt word_less_nat_alt)
  note cnt = free_count_unat[OF st, unfolded fl]
  have head: "first_or d (xs @ i # zs) = first_or_none (free_list st)" for d zs
    using fl by (cases xs) (simp_all add: first_or_none_def)
  note open' = open_chained[OF new inv zero pos]
  have whole: "linked (pf_view n pf) (xs @ i # zs)" if "linked (pf_view n pf) zs" "c = first_or_none zs" for zs
    using chain(1) that linked_to_append[of "pf_view n pf" "xs @ [i]" zs NO_PAGE] by simp
  show "(\<exists>st2. r = Inr st2 \<and> free_list st2 = free_list st \<and> next_new st2 = next_new st) \<or> io_failure pf r"
    if "c = first_or_none ys"
  proof -
    have "stored_state (pf_view n pf) st"
      using whole[OF chain(2) that] block fl by (simp add: stored_state_def)
    then show ?thesis using open_stored[OF new inv st zero] below fl by simp
  qed
  show "free_list st2 \<noteq> free_list st" if c: "c \<noteq> first_or_none ys" and r: "r = Inr st2"
  proof
    assume same: "free_list st2 = free_list st"
    have nxt: "next_new st2 = next_new st" by (rule pf.new_mark[OF new[unfolded r] inv zero block])
    have mark: "addressable n (PageId j)" if "j < next_new st2" for j using addr that nxt by simp
    have "stored_state (pf_view n pf') st2" by (rule pf.new_linked(3)[OF new[unfolded r] inv zero mark])
    moreover have "pf_view n pf' = pf_view n pf" by (rule pf.new_linked(4)[OF new[unfolded r] inv zero mark block(1)])
    ultimately have "linked (pf_view n pf) (xs @ i # ys)" using same fl by (simp add: stored_state_def)
    then have "linked_to (pf_view n pf) (xs @ [i]) (first_or_none ys)"
      using linked_to_append[of "pf_view n pf" "xs @ [i]" ys NO_PAGE] by simp
    with chain(1) show False using c by (auto simp: linked_to_append)
  qed
  show "r = Inl InvalidSuperblock \<or> io_failure pf r"
    if c: "c \<noteq> first_or_none ys" and dead: "ys = [] \<or> c \<notin> live_ids st"
  proof (cases "c \<in> set ys")
    case True
    then obtain y1 y2 where ys: "ys = y1 @ c # y2" by (meson split_list)
    then have "y1 \<noteq> []" using c by (auto simp: first_or_none_def)
    then have less: "length (xs @ i # c # y2) < unat (free_count st)" using cnt ys by simp
    have "linked (pf_view n pf) (c # y2)" using chain(2) unfolding ys linked_to_append by blast
    then have "linked (pf_view n pf) (xs @ i # c # y2)" by (rule whole) (simp add: first_or_none_def)
    then have ch: "chained (pf_view n pf) (xs @ i # c # y2) NO_PAGE (next_new st) (free_count st)"
      using block head by (simp add: chained_def)
    have "distinct (xs @ i # c # y2)" "\<forall>j \<in> set (xs @ i # c # y2). 1 \<le> j \<and> j < next_new st \<and> addressable n (PageId j)"
      using dist below ys by auto
    from open'[OF this _ ch] less show ?thesis by (simp add: chain_stops_def)
  next
    case False
    have "ys = [] \<or> c = NO_PAGE \<or> c = 0 \<or> next_new st \<le> c \<or> c \<in> set (xs @ [i])"
      using dead False fl by (auto simp: live_ids_def u64_ge_1_iff not_less)
    then have stops: "chain_stops (next_new st) (free_count st) (xs @ [i]) c"
      using cnt by (auto simp: chain_stops_def)
    have ch: "chained (pf_view n pf) (xs @ [i]) c (next_new st) (free_count st)"
      using block head chain(1) by (simp add: chained_def)
    have no: "\<not> (c = NO_PAGE \<and> length (xs @ [i]) = unat (free_count st))"
      using c cnt by (cases ys) (auto simp: first_or_none_def)
    have "distinct (xs @ [i])" "\<forall>j \<in> set (xs @ [i]). 1 \<le> j \<and> j < next_new st \<and> addressable n (PageId j)"
      using dist below by auto
    from open'[OF this stops ch] no show ?thesis by auto
  qed
qed

section \<open>Properties\<close>

text \<open>A fresh allocator over 4 KiB pages, for the witnesses.\<close>

definition fresh_alloc :: alloc_state where
  "fresh_alloc = \<lparr>free_list = [], next_new = 1, scratch = Page_new (PageSize 4096)\<rparr>"

lemma fresh_alloc [simp]: "alloc_inv fresh_alloc" "page_wf 4096 (scratch fresh_alloc)"
  "free_list fresh_alloc = []" "next_new fresh_alloc = 1"
  using Page_new_4096 by (simp_all add: fresh_alloc_def alloc_inv_def)

text \<open>An allocator of the ids 1 and 2 with 1 free, for the witnesses; it can free 2, too.\<close>

definition two_ids :: alloc_state where
  "two_ids = fresh_alloc\<lparr>free_list := [1], next_new := 3\<rparr>"

lemma two_ids:
  "alloc_inv two_ids" "page_wf 4096 (scratch two_ids)" "free_list two_ids = [] @ [1]" "next_new two_ids = 3"
  "alloc_inv (two_ids\<lparr>free_list := [] @ 1 # 2 # []\<rparr>)"
  "addressable 4096 (PageId 0)" "addressable 4096 (PageId 3)"
  "\<forall>i \<in> set (free_list two_ids). addressable 4096 (PageId i)" "\<forall>i \<in> set [1, 2]. addressable 4096 (PageId i)"
  using fresh_alloc by (simp_all add: two_ids_def alloc_inv_def addressable_def)

text \<open>C7: in every run of a client that frees only ids it holds, the allocator refines a set of
  ids in use: it never hands out an id that is in use or the reserved id 0, and the ids in use
  are at every point the ids below the high-water mark that are not on the free list.\<close>

theorem allocator_refines_live_set:
  assumes "alloc_run st es st'" and "alloc_inv st"
  shows "replay (live_ids st) es = Some (live_ids st') \<and> alloc_inv st'"
  using assms
proof (induction rule: alloc_run.induct)
  case (idle st)
  then show ?case by simp
next
  case (allocated st pid st1 es st2)
  then show ?case using allocate_live[OF allocated.prems allocated.hyps(1)] by auto
next
  case (exhausted st e st1 es st2)
  then show ?case using allocate_error[OF exhausted.hyps(1)] by simp
next
  case (freed pid st st1 es st2)
  then show ?case using free_live[OF freed.prems freed.hyps(1)] by auto
next
  case (rejected pid st e st1 es st2)
  then show ?case using free_error by auto
qed

theorem allocator_refines_live_set_witness:
  "\<exists>st'. alloc_run fresh_alloc [Allocated 1, Freed 1, Allocated 1, Allocated 2] st'
     \<and> live_ids st' = {1, 2}"
proof -
  let ?st = "\<lambda>fl nx. \<lparr>free_list = fl, next_new = nx, scratch = Page_new (PageSize 4096)\<rparr>"
  have a: "allocate (?st [] 1) = (Inr (PageId 1), ?st [] 2)"
    "allocate (?st [1] 2) = (Inr (PageId 1), ?st [] 2)"
    "allocate (?st [] 2) = (Inr (PageId 2), ?st [] 3)"
    by (simp_all add: allocate_def checked_add_def NO_PAGE_def Let_def)
  have f: "free (PageId 1) (?st [] 2) = (Inr (), ?st [1] 2)"
    by (simp add: free_def word_le_nat_alt)
  have l: "1 \<in> live_ids (?st [] 2)" by (simp add: live_ids_def)
  have run: "alloc_run (?st [] 1) [Allocated 1, Freed 1, Allocated 1, Allocated 2] (?st [] 3)"
    using alloc_run.allocated[OF a(1) alloc_run.freed[of "PageId 1", OF _ f
        alloc_run.allocated[OF a(2) alloc_run.allocated[OF a(3) alloc_run.idle]]]] l by simp
  have "live_ids (?st [] 1) = {}" by (auto simp: live_ids_def u64_ge_1_iff word_less_nat_alt unat_eq_0)
  with allocator_refines_live_set[OF run] have "live_ids (?st [] 3) = {1, 2}"
    by (auto simp: alloc_inv_def)
  with run show ?thesis by (auto simp: fresh_alloc_def)
qed

text \<open>Reuse is last-in first-out.\<close>

lemma free_then_allocate:
  assumes "free pid st = (Inr (), st1)"
  shows "allocate st1 = (Inr pid, st) \<and> pid_get pid \<noteq> 0 \<and> pid_get pid < high_water st
    \<and> free_count st1 = free_count st + 1"
  using assms
  by (auto simp: free_def allocate_def high_water_def free_count_def Let_def not_le split: if_splits)

text \<open>The calls fail exactly when they say: allocate only with an empty free list at the
  end of the id space, free only for page 0 or an id at or beyond the high-water mark; a call
  that fails changes nothing.\<close>

lemma allocator_errors:
  "(fst (allocate st) = Inl e \<longleftrightarrow> e = InvalidPageId (next_new st) \<and> free_list st = []
      \<and> 2 ^ 64 \<le> unat (next_new st) + 2)
   \<and> (fst (free pid st) = Inl e \<longleftrightarrow> e = InvalidPageId (pid_get pid)
      \<and> (pid_get pid = 0 \<or> high_water st \<le> pid_get pid))
   \<and> (\<forall>x. fst (allocate st) = Inl x \<longrightarrow> snd (allocate st) = st)
   \<and> (\<forall>x. fst (free pid st) = Inl x \<longrightarrow> snd (free pid st) = st)"
proof -
  have top: "2 ^ 64 \<le> unat i + 2 \<longleftrightarrow> i = NO_PAGE \<or> i + 1 = NO_PAGE" for i :: u64
  proof -
    have "i = NO_PAGE \<longleftrightarrow> unat i = 2 ^ 64 - 1" by (simp add: NO_PAGE_def word_unat_eq_iff)
    moreover have "i + 1 = NO_PAGE \<longleftrightarrow> i = 0xFFFFFFFFFFFFFFFE"
      by (simp add: NO_PAGE_def eq_diff_eq flip: eq_diff_eq)
    moreover have "i = 0xFFFFFFFFFFFFFFFE \<longleftrightarrow> unat i = 2 ^ 64 - 2" by (simp add: word_unat_eq_iff)
    ultimately show ?thesis using unat_u64[of i] by auto
  qed
  have "fst (allocate st) = Inl e \<longleftrightarrow> e = InvalidPageId (next_new st) \<and> free_list st = []
      \<and> 2 ^ 64 \<le> unat (next_new st) + 2"
    unfolding top by (cases st rule: allocate_cases) auto
  moreover have "snd (allocate st) = st" if "fst (allocate st) = Inl x" for x
    using that allocate_error[of st x "snd (allocate st)"] by (metis prod.collapse)
  ultimately show ?thesis by (auto simp: free_def high_water_def Let_def)
qed

text \<open>C26: whatever the store returns, corrupt or hostile, opening either fails or gives a
  consistent allocator: a free list of distinct ids from 1 to below the high-water mark, so
  that the next allocation, if any, returns no id twice and never page 0.\<close>

theorem open_any_store_is_consistent:
  assumes "PageAllocator_new ops s = (Inr st, s')"
  shows "alloc_inv st \<and> distinct (free_list st)
    \<and> (\<forall>i \<in> set (free_list st). i \<noteq> 0 \<and> i < high_water st) \<and> high_water st \<noteq> 0"
  using PageAllocator_new_inv[OF assms] by (auto simp: alloc_inv_def high_water_def u64_ge_1_iff)

theorem open_any_store_is_consistent_witness:
  "\<exists>st s'. PageAllocator_new mem_store_ops (MemStore_new 4096) = (Inr st, s') \<and> high_water st \<noteq> 0"
  using mem_new_fresh[of 4096 "MemStore_new 4096"] MemStore_new_inv[of 4096]
    open_any_store_is_consistent[of mem_store_ops "MemStore_new 4096"]
  by (auto simp: MemStore_new_def)

text \<open>C28: the walk of an untrusted chain ends, after at most as many reads as the superblock
  claims free pages and as there are allocated ids, on every store.\<close>

theorem chain_walk_is_bounded:
  assumes "walk_free_chain (counted ops) (s, 0) sc head nxt cnt = (r, sc', (s', k))"
  shows "k \<le> unat cnt \<and> k \<le> unat nxt - 1 \<and> (\<forall>xs. r = Inr xs \<longrightarrow> length xs < 2 ^ 64 \<longrightarrow> length xs = unat cnt)"
proof -
  have "length xs = unat cnt" if "r = Inr xs" "length xs < 2 ^ 64" for xs
  proof -
    have "of_nat (length xs) = cnt"
      using walk_loop_sound[of "counted ops" nxt cnt "(s, 0)" sc "[]" "{}" head xs sc' "(s', k)"]
        assms that(1) by (simp add: walk_free_chain_def)
    then show ?thesis using that(2) by (auto simp: unat_of_nat)
  qed
  then show ?thesis
    using walk_loop_reads[of ops nxt cnt s 0 sc "[]" "{}" head r sc' s' k] assms
    by (simp add: walk_free_chain_def)
qed

theorem chain_walk_is_bounded_witness:
  "\<exists>r sc' s' k. walk_free_chain (counted mem_store_ops) (MemStore_new 4096, 0) (Page_new (PageSize 4096))
      7 9 1 = (r, sc', (s', k)) \<and> k \<le> 1"
proof -
  obtain r sc' s' k where w: "walk_free_chain (counted mem_store_ops) (MemStore_new 4096, 0)
      (Page_new (PageSize 4096)) 7 9 1 = (r, sc', (s', k))"
    by (metis prod_cases4)
  from chain_walk_is_bounded[OF this] have "k \<le> 1" by simp
  with w show ?thesis by blast
qed

text \<open>C9: on a page file whose schedule holds only short transfers and interruptions, sync
  succeeds and opening the file again gives the same free list, in the same order, and the same
  high-water mark; opening does not change any page.\<close>

theorem sync_then_open_round_trip:
  assumes "pf_inv n pf" and "benign (pf_sched pf)" and "page_wf n (scratch st)" and "alloc_inv st"
    and "addressable n (PageId (next_new st))"
  shows "\<exists>st1 pf1 st2 pf2. PageAllocator_sync page_file_store st pf = (Inr (), st1, pf1)
    \<and> PageAllocator_new page_file_store pf1 = (Inr st2, pf2)
    \<and> free_list st2 = free_list st \<and> next_new st2 = next_new st \<and> pf_view n pf2 = pf_view n pf1"
proof (rule pfr.sync_then_new)
  show "pf_good n pf" using assms(1,2) by (simp add: pf_good_def)
  show "page_wf n (scratch st)" and "alloc_inv st" by fact+
  show "addressable n (PageId 0)"
    using assms(5) by (rule addressable_mono) simp
  show "\<forall>i \<in> set (free_list st). addressable n (PageId i)"
    using assms(4) addressable_mono[OF assms(5)] by (auto simp: alloc_inv_def word_less_nat_alt)
qed

theorem sync_then_open_round_trip_witness:
  "\<exists>st1 pf1 st2 pf2. PageAllocator_sync page_file_store two_ids empty_page_file = (Inr (), st1, pf1)
    \<and> PageAllocator_new page_file_store pf1 = (Inr st2, pf2) \<and> free_list st2 = [1] \<and> next_new st2 = 3"
  using sync_then_open_round_trip[OF empty_page_file(1,2) two_ids(2,1)] two_ids(3,4,7) by auto

text \<open>C10: a successful PageAllocator::open, whether it found an allocator in the file or wrote a
  fresh one, leaves a file that opens again to the same free list and high-water mark and is not
  changed by that; only an I/O error of a failing device can prevent it.\<close>

theorem reopen_finds_the_same_allocator:
  assumes "PageAllocator_open fs path (PageSize n) = (Inr (st, pf), fs1)" and "page_size_wf (PageSize n)"
    and "addressable n (PageId (next_new st))"
    and "PageAllocator_open fs1 path (PageSize n) = (r, fs2)"
  shows "((\<exists>st2 pf2. r = Inr (st2, pf2) \<and> free_list st2 = free_list st \<and> next_new st2 = next_new st
        \<and> pf_view n pf2 = pf_view n pf) \<or> io_failure pf r)
    \<and> fs_files fs1 path = Some (pf_file pf)"
proof -
  obtain f fs' where open1: "PageFile_open fs path (PageSize n) = (Inr f, fs')"
    and new1: "PageAllocator_new page_file_store f = (Inr st, pf)"
    and fs1: "fs1 = fs'\<lparr>fs_files := (fs_files fs')(path \<mapsto> pf_file pf)\<rparr>"
    using assms(1) by (auto simp: PageAllocator_open_def split: prod.splits sum.splits)
  have f: "pf_inv n f" and refuse: "fs_refuse fs1 path
      \<lparr>oo_read = True, oo_write = True, oo_create = True, oo_custom_flags = fs_O_DIRECT fs1\<rparr> = None"
    using open1 assms(2) fs1
    by (auto simp: PageFile_open_def Options_open_def Options_page_size_def Options_new_def Options_default_def
        sys_open_defs pf_inv_def split: option.splits if_splits prod.splits sum.splits)
  have addr: "addressable n (PageId i)" if "i < next_new st" for i
    using assms(3) that by (elim addressable_mono) (simp add: word_less_nat_alt)
  have zero: "addressable n (PageId 0)" using assms(3) by (rule addressable_mono) simp
  note nl = pf.new_linked[OF new1 f zero addr]
  have inv: "alloc_inv st" by (rule PageAllocator_new_inv[OF new1])
  then have ids: "\<forall>i \<in> set (free_list st). addressable n (PageId i)"
    using addr by (auto simp: alloc_inv_def)
  have "pf_page_size pf = PageSize n" using nl(1) by (simp add: pf_inv_def)
  then have "PageFile_open fs1 path (PageSize n) = (Inr pf, fs1)"
    using refuse fs1
    by (simp add: PageFile_open_def Options_open_def Options_page_size_def Options_new_def Options_default_def sys_open_defs)
  moreover obtain r2 pf2 where new2: "PageAllocator_new page_file_store pf = (r2, pf2)" by (metis prod.exhaust)
  ultimately have r: "r = (case r2 of Inl e \<Rightarrow> Inl e | Inr st2 \<Rightarrow> Inr (st2, pf2))"
    using assms(4) by (auto simp: PageAllocator_open_def split: sum.splits)
  have "pf_view n pf2 = pf_view n pf" using pf.new_stored(2)[OF new2 nl(1) inv zero ids nl(3)] .
  then show ?thesis using open_stored[OF new2 nl(1) inv zero ids nl(3)] r fs1 by auto
qed

theorem reopen_finds_the_same_allocator_witness:
  "\<exists>st1 pf1 st pf fs1 st2 pf2 fs2. PageAllocator_sync page_file_store two_ids empty_page_file = (Inr (), st1, pf1)
    \<and> PageAllocator_open \<lparr>fs_files = [''db'' \<mapsto> pf_file pf1], fs_refuse = (\<lambda>_ _. None), fs_O_DIRECT = 0x4000\<rparr>
        ''db'' (PageSize 4096) = (Inr (st, pf), fs1)
    \<and> PageAllocator_open fs1 ''db'' (PageSize 4096) = (Inr (st2, pf2), fs2)
    \<and> free_list st2 = [1] \<and> next_new st2 = 3"
proof -
  have good: "pf_good 4096 empty_page_file" by (simp add: pf_good_def)
  obtain st1 pf1 where sy: "PageAllocator_sync page_file_store two_ids empty_page_file = (Inr (), st1, pf1)"
    using pfr.sync_total'[OF good two_ids(2,1,6,8)] by blast
  note c = pfr.alloc_sync_correct[OF sy good two_ids(2,1,6,8)]
  obtain r pf where new: "PageAllocator_new page_file_store pf1 = (r, pf)" by (metis prod.exhaust)
  note ns = pfr.new_stored[OF new c(1) two_ids(1,6,8) c(5)[OF refl]]
  obtain st where st: "r = Inr st" "free_list st = [1]" "next_new st = 3"
    using ns(1) pfr.no_read_failure two_ids(3,4) by auto
  let ?fs = "\<lparr>fs_files = [''db'' \<mapsto> pf_file pf1], fs_refuse = (\<lambda>_ _. None), fs_O_DIRECT = 0x4000\<rparr>"
  have "\<lparr>pf_file = pf_file pf1, pf_page_size = PageSize 4096\<rparr> = pf1"
    using c(1) by (cases pf1) (simp add: pf_good_def pf_inv_def)
  then have "PageFile_open ?fs ''db'' (PageSize 4096) = (Inr pf1, ?fs)"
    by (simp add: PageFile_open_def Options_open_def Options_page_size_def Options_new_def Options_default_def sys_open_defs)
  then obtain fs1 where open1: "PageAllocator_open ?fs ''db'' (PageSize 4096) = (Inr (st, pf), fs1)"
    using new st(1) by (simp add: PageAllocator_open_def)
  obtain r2 fs2 where open2: "PageAllocator_open fs1 ''db'' (PageSize 4096) = (r2, fs2)" by (metis prod.exhaust)
  have next3: "addressable 4096 (PageId (next_new st))" using st(3) two_ids(7) by simp
  have "page_size_wf (PageSize 4096)" using empty_page_file(1) by (simp add: pf_inv_def)
  from reopen_finds_the_same_allocator[OF open1 this next3 open2] ns(3) st sy open1 open2
  show ?thesis by (auto simp: pf_good_def)
qed

text \<open>C27: whatever the schedule, a sync that returned Ok is followed by an open that returns the
  same state or reports an I/O error, never InvalidSuperblock; and whatever a sync returned,
  the pages of the ids in use are still what they were.\<close>

theorem sync_keeps_state_and_live_pages:
  assumes "PageAllocator_sync page_file_store st pf = (r, st1, pf1)"
    and "pf_inv n pf" and "page_wf n (scratch st)" and "alloc_inv st"
    and "addressable n (PageId (next_new st))"
    and "PageAllocator_new page_file_store pf1 = (r2, pf2)"
  shows "(r = Inr () \<longrightarrow> (\<exists>st2. r2 = Inr st2 \<and> free_list st2 = free_list st \<and> next_new st2 = next_new st)
        \<or> (\<exists>e. r2 = Inl (Io e)))
    \<and> (\<forall>e. r = Inl e \<longrightarrow> (\<exists>e'. e = Io e'))
    \<and> (\<forall>i bs. i \<in> live_ids st \<longrightarrow> pf_view n pf (PageId i) = Some bs \<longrightarrow> pf_view n pf1 (PageId i) = Some bs)"
proof -
  have addr: "addressable n (PageId i)" if "i < next_new st" for i
    using that by (intro addressable_mono[OF assms(5)]) (simp add: word_less_nat_alt)
  then have ids: "\<forall>i \<in> set (free_list st). addressable n (PageId i)"
    using assms(4) by (auto simp: alloc_inv_def)
  have zero: "addressable n (PageId 0)" using assms(5) by (rule addressable_mono) simp
  note c = pf.alloc_sync_correct[OF assms(1-4) zero ids]
  have "(\<exists>st2. r2 = Inr st2 \<and> free_list st2 = free_list st \<and> next_new st2 = next_new st)
        \<or> (\<exists>e. r2 = Inl (Io e))" if "r = Inr ()"
    using pf.new_stored(1)[OF assms(6) c(1) assms(4) zero ids c(5)[OF that]] pf.read_failure_io
    by blast
  moreover have "pf_view n pf1 (PageId i) = Some bs"
    if "i \<in> live_ids st" "pf_view n pf (PageId i) = Some bs" for i bs
    using that by (intro c(7) addr) (auto simp: live_ids_def u64_ge_1_iff)
  ultimately show ?thesis using c(6) by blast
qed

theorem sync_keeps_state_and_live_pages_witness:
  "\<exists>p pf r st1 pf1 bs. PageFile_write_page empty_page_file (PageId 2) (Page_new (PageSize 4096)) = (Inr (), p, pf)
     \<and> PageAllocator_sync page_file_store two_ids pf = (r, st1, pf1)
     \<and> pf_view 4096 pf (PageId 2) = Some bs \<and> pf_view 4096 pf1 (PageId 2) = Some bs"
proof -
  have good: "pf_good 4096 empty_page_file" by (simp add: pf_good_def)
  have a2: "addressable 4096 (PageId 2)" using two_ids(9) by simp
  obtain u p pf where "so_write_page page_file_store empty_page_file (PageId 2) (Page_new (PageSize 4096)) = (u, p, pf)"
    by (metis prod_cases3)
  moreover from this have "u = Inr ()" by (rule pfr.write_total[OF good Page_new_4096 a2])
  ultimately have w: "so_write_page page_file_store empty_page_file (PageId 2) (Page_new (PageSize 4096)) = (Inr (), p, pf)"
    by simp
  note pf = pf.write_frame[OF empty_page_file(1) Page_new_4096 a2 w] pf.write_ok[OF empty_page_file(1) Page_new_4096 a2 w]
  have inv: "pf_inv 4096 pf" using pf(1) by simp
  obtain r st1 pf1 where y: "PageAllocator_sync page_file_store two_ids pf = (r, st1, pf1)" by (metis prod_cases3)
  obtain r2 pf2 where n: "PageAllocator_new page_file_store pf1 = (r2, pf2)" by (metis prod.exhaust)
  have next3: "addressable 4096 (PageId (next_new two_ids))" and live: "2 \<in> live_ids two_ids"
    using two_ids(7) by (simp_all add: two_ids_def live_ids_def)
  from sync_keeps_state_and_live_pages[OF y inv two_ids(2,1) next3 n] live pf(2) y w
  show ?thesis by (fastforce simp: page_file_store_def)
qed

text \<open>Opening a store without a page 0 writes a superblock for the empty free list with
  high-water mark 1, and opening it again finds exactly that.\<close>

lemma fresh_store_is_initialised:
  assumes "ms_inv n ms" and "ms_pages ms 0 = None"
  shows "\<exists>st ms1 st2 ms2. PageAllocator_new mem_store_ops ms = (Inr st, ms1)
    \<and> free_list st = [] \<and> high_water st = 1 \<and> free_count st = 0 \<and> MemStore_contains ms1 0
    \<and> PageAllocator_new mem_store_ops ms1 = (Inr st2, ms2) \<and> free_list st2 = [] \<and> high_water st2 = 1"
proof -
  obtain st ms1 where new: "PageAllocator_new mem_store_ops ms = (Inr st, ms1)"
    "free_list st = []" "next_new st = 1" "ms_inv n ms1" "stored_state (ms_view n ms1) st"
    using mem_new_fresh[OF assms] by blast
  have contains: "MemStore_contains ms1 0"
    using new(5) by (auto simp: stored_state_def MemStore_contains_def dest: ms_view_SomeD)
  obtain r2 ms2 where new2: "PageAllocator_new mem_store_ops ms1 = (r2, ms2)" by (metis prod.exhaust)
  have inv: "alloc_inv st" using new(1) by (rule PageAllocator_new_inv)
  note n2 = ms.new_stored[OF new2 new(4) inv TrueI _ new(5)]
  then obtain st2 where "r2 = Inr st2" "free_list st2 = []" "next_new st2 = 1"
    using new ms.no_read_failure by auto
  with new new2 contains show ?thesis by (auto simp: high_water_def free_count_def)
qed

end
