(* ===== verification/GhostStore.thy ===== *)
theory GhostStore
  imports PoolRuns
begin

text \<open>
  A proof device for two users of one store.  When the allocator writes a link into
  a freed page that the pool still caches, the pool's frame and the store differ,
  although nobody will look at the frame again.  \<open>ghost_ops\<close> is a store that remembers,
  beside the real one, what such pages held (the ghosts): it keeps the contract of
  \<^verbatim>\<open>PageStore\<close> (\<^verbatim>\<open>src/store.rs\<close>), so everything proved of the pool (\<^verbatim>\<open>src/pool.rs\<close>) holds on it,
  and the pool's methods do on it exactly what they do on the real store
  (\<open>pool_step_lift\<close>).
\<close>

type_synonym ghosts = "page_id \<Rightarrow> bytes option"

definition ghost_view :: "nat \<Rightarrow> (page_id \<Rightarrow> bytes option) \<Rightarrow> ghosts \<Rightarrow> page_id \<Rightarrow> bytes option" where
  "ghost_view n v g i =
    (case g i of
       None \<Rightarrow> v i
     | Some bs \<Rightarrow> if length bs = n \<and> stamped_for i bs then Some bs else None)"

text \<open>A write lays the ghost; reads of a ghost do not happen, and fail here.\<close>

definition ghost_ops :: "'s store_ops \<Rightarrow> ('s \<times> ghosts) store_ops" where
  "ghost_ops ops =
    \<lparr>so_page_size = (\<lambda>(s, g). so_page_size ops s),
     so_allocate_page = (\<lambda>(s, g). so_allocate_page ops s),
     so_read_into = (\<lambda>(s, g) i p.
       if g i = None then let (r, p', s') = so_read_into ops s i p in (r, p', (s', g))
       else (Inl (Io NotFound), p, (s, g))),
     so_write_page = (\<lambda>(s, g) i p. let (r, p', s') = so_write_page ops s i p in (r, p', (s', g(i := None)))),
     so_sync = (\<lambda>(s, g). let (r, s') = so_sync ops s in (r, (s', g)))\<rparr>"

lemma ghost_ops_simps [simp]:
  "so_allocate_page (ghost_ops ops) (s, g) = so_allocate_page ops s"
  "so_sync (ghost_ops ops) (s, g) = (let (r, s') = so_sync ops s in (r, (s', g)))"
  by (simp_all add: ghost_ops_def)

lemma ghost_view_simps [simp]:
  "g i = None \<Longrightarrow> ghost_view n v g i = v i"
  "ghost_view n v Map.empty = v"
  by (simp_all add: ghost_view_def fun_eq_iff)

lemma ghost_read:
  "so_read_into (ghost_ops ops) (s, g) i p = (r, p', (s', g')) \<longleftrightarrow>
    (if g i = None then so_read_into ops s i p = (r, p', s') \<and> g' = g
     else r = Inl (Io NotFound) \<and> p' = p \<and> s' = s \<and> g' = g)"
  by (auto simp: ghost_ops_def split: prod.splits)

lemma ghost_write:
  "so_write_page (ghost_ops ops) (s, g) i p = (r, p', (s', g')) \<longleftrightarrow>
    so_write_page ops s i p = (r, p', s') \<and> g' = g(i := None)"
  by (auto simp: ghost_ops_def split: prod.splits)

context page_store begin

lemma ghost_store:
  "page_store (ghost_ops ops) n (\<lambda>(s, g). inv s) ids (\<lambda>(s, g). ghost_view n (view s) g)"
proof (unfold_locales, goal_cases)
  case (1 s)
  then show ?case using allocate[of "fst s"] by (cases s) auto
next
  case (2 s i bs)
  then show ?case using view_stamped[of "fst s" i bs]
    by (cases s) (auto simp: ghost_view_def split: option.splits if_splits)
next
  case (3 s p i r p' s')
  then show ?case using read_frame[of "fst s" p i r p' "fst s'"] by (cases s; cases s') (auto simp: ghost_read split: if_splits)
next
  case (4 s p i p' s')
  then show ?case using read_ok[of "fst s" p i p' "fst s'"] by (cases s; cases s') (auto simp: ghost_read split: if_splits)
next
  case (5 s p i r p' s' bs)
  then show ?case using read_view[of "fst s" p i r p' "fst s'" bs] by (cases s; cases s') (auto simp: ghost_read split: if_splits)
next
  case (6 s p i r p' s')
  then show ?case using write_frame[of "fst s" p i r p' "fst s'"] by (cases s; cases s') (auto simp: ghost_write)
next
  case (7 s p i r p' s' j bs)
  then show ?case using write_other[of "fst s" p i r p' "fst s'" j bs]
    by (cases s; cases s') (auto simp: ghost_write ghost_view_def split: option.splits)
next
  case (8 s p i p' s')
  then show ?case using write_ok[of "fst s" p i p' "fst s'"] by (cases s; cases s') (auto simp: ghost_write)
next
  case (9 s p i err p' s')
  then show ?case using write_err[of "fst s" p i err p' "fst s'"] by (cases s; cases s') (auto simp: ghost_write)
next
  case (10 s r s')
  then show ?case using sync_frame[of "fst s" r "fst s'"] by (cases s; cases s') (auto split: prod.splits)
next
  case (11 s err s')
  then show ?case using sync_err[of "fst s" err "fst s'"] by (cases s; cases s') (auto split: prod.splits)
qed

end

interpretation gpf: page_store "ghost_ops page_file_store" n "\<lambda>(s, g). pf_inv n s" "addressable n"
    "\<lambda>(s, g). ghost_view n (pf_view n s) g"
  for n
  by (rule pf.ghost_store)

section \<open>The pool on the two stores\<close>

text \<open>What a method does on the real store it does on the other, and it only lays ghosts.\<close>

lemma flush_slot_lift:
  assumes "flush_slot ops slot pid bp s = (r, bp', s')"
  shows "\<exists>g'. flush_slot (ghost_ops ops) slot pid bp (s, g) = (r, bp', (s', g')) \<and> g' \<subseteq>\<^sub>m g"
proof (cases "fr_dirty (frame_at bp slot)")
  case False
  then show ?thesis using assms by (simp add: flush_slot_def)
next
  case True
  obtain u p' s1 where w: "so_write_page ops s pid (fr_page (frame_at bp slot)) = (u, p', s1)"
    by (metis prod_cases3)
  then have "so_write_page (ghost_ops ops) (s, g) pid (fr_page (frame_at bp slot)) =
      (u, p', (s1, g(pid := None)))"
    by (simp add: ghost_write)
  moreover have "g(pid := None) \<subseteq>\<^sub>m g" by (simp add: map_le_def)
  ultimately show ?thesis
    using assms True w by (cases u) (auto simp: flush_slot_def)
qed

lemma take_slot_lift:
  assumes "take_slot ops bp s = (r, bp', s')"
  shows "\<exists>g'. take_slot (ghost_ops ops) bp (s, g) = (r, bp', (s', g')) \<and> g' \<subseteq>\<^sub>m g"
proof (cases "bp_free bp = []")
  case False
  then show ?thesis using assms by (simp add: take_slot_def)
next
  case True
  obtain v bp1 where fv: "find_victim bp = (v, bp1)" by (metis prod.exhaust)
  show ?thesis
  proof (cases v)
    case None
    then show ?thesis using assms True fv by (simp add: take_slot_def)
  next
    case (Some slot)
    let ?pid = "resident_id (frame_at bp1 slot)"
    obtain u bp2 s2 where fl: "flush_slot ops slot ?pid bp1 s = (u, bp2, s2)" by (metis prod_cases3)
    obtain g' where "flush_slot (ghost_ops ops) slot ?pid bp1 (s, g) = (u, bp2, (s2, g'))" "g' \<subseteq>\<^sub>m g"
      using flush_slot_lift[OF fl] by blast
    then show ?thesis
      using assms True fv Some fl by (cases u) (auto simp: take_slot_def Let_def)
  qed
qed

lemma map_le_None: "g' \<subseteq>\<^sub>m g \<Longrightarrow> g i = None \<Longrightarrow> g' i = None"
  by (metis domIff map_le_def)

lemma fetch_lift:
  assumes "fetch ops pid bp s = (r, bp', s')" and "g pid = None"
  shows "\<exists>g'. fetch (ghost_ops ops) pid bp (s, g) = (r, bp', (s', g')) \<and> g' \<subseteq>\<^sub>m g"
proof (cases "bp_map bp pid")
  case (Some slot)
  then show ?thesis using assms(1) by (simp add: fetch_def)
next
  case None
  obtain t bp1 s1 where tk: "take_slot ops bp s = (t, bp1, s1)" by (metis prod_cases3)
  obtain g1 where lift: "take_slot (ghost_ops ops) bp (s, g) = (t, bp1, (s1, g1))" "g1 \<subseteq>\<^sub>m g"
    using take_slot_lift[OF tk] by blast
  show ?thesis
  proof (cases t)
    case (Inl e)
    then show ?thesis using assms(1) None tk lift by (auto simp: fetch_def)
  next
    case (Inr slot)
    obtain u p' s2 where rd: "so_read_into ops s1 pid (fr_page (frame_at bp1 slot)) = (u, p', s2)"
      by (metis prod_cases3)
    then have "so_read_into (ghost_ops ops) (s1, g1) pid (fr_page (frame_at bp1 slot)) = (u, p', (s2, g1))"
      using map_le_None[OF lift(2) assms(2)] by (simp add: ghost_read)
    then show ?thesis
      using assms(1) None tk lift Inr rd by (cases u) (auto simp: fetch_def Let_def)
  qed
qed

lemma new_page_lift:
  assumes "new_page ops pid bp s = (r, bp', s')"
  shows "\<exists>g'. new_page (ghost_ops ops) pid bp (s, g) = (r, bp', (s', g')) \<and> g' \<subseteq>\<^sub>m g"
proof (cases "bp_map bp pid")
  case (Some slot)
  then show ?thesis using assms by (simp add: new_page_def)
next
  case None
  obtain t bp1 s1 where tk: "take_slot ops bp s = (t, bp1, s1)" by (metis prod_cases3)
  obtain g1 where "take_slot (ghost_ops ops) bp (s, g) = (t, bp1, (s1, g1))" "g1 \<subseteq>\<^sub>m g"
    using take_slot_lift[OF tk] by blast
  then show ?thesis
    using assms None tk by (cases t) (auto simp: new_page_def Let_def)
qed

lemma flush_lift:
  assumes "flush ops pid bp s = (r, bp', s')"
  shows "\<exists>g'. flush (ghost_ops ops) pid bp (s, g) = (r, bp', (s', g')) \<and> g' \<subseteq>\<^sub>m g"
  using assms flush_slot_lift[of ops _ pid bp s r bp' s' g]
  by (cases "bp_map bp pid") (auto simp: flush_def)

lemma flush_all_lift:
  assumes "flush_all ops xs bp s = (r, bp', s')"
  shows "\<exists>g'. flush_all (ghost_ops ops) xs bp (s, g) = (r, bp', (s', g')) \<and> g' \<subseteq>\<^sub>m g"
  using assms unfolding flush_all_def
proof (induction xs arbitrary: bp s g)
  case Nil
  then show ?case by simp
next
  case (Cons x xs)
  obtain u bp1 s1 where fl: "flush_slot ops (snd x) (fst x) bp s = (u, bp1, s1)" by (metis prod_cases3)
  obtain g1 where g1: "flush_slot (ghost_ops ops) (snd x) (fst x) bp (s, g) = (u, bp1, (s1, g1))" "g1 \<subseteq>\<^sub>m g"
    using flush_slot_lift[OF fl] by blast
  show ?case
  proof (cases u)
    case (Inl e)
    then show ?thesis using Cons.prems fl g1 by auto
  next
    case (Inr v)
    then have "flush_entries ops xs bp1 s1 = (r, bp', s')" using Cons.prems fl by simp
    from Cons.IH[OF this, of g1] obtain g' where
      "flush_entries (ghost_ops ops) xs bp1 (s1, g1) = (r, bp', (s', g'))" "g' \<subseteq>\<^sub>m g1" by blast
    then show ?thesis using g1 Inr by (auto intro: map_le_trans)
  qed
qed

lemma checkpoint_lift:
  assumes "checkpoint ops xs bp s = (r, bp', s')"
  shows "\<exists>g'. checkpoint (ghost_ops ops) xs bp (s, g) = (r, bp', (s', g')) \<and> g' \<subseteq>\<^sub>m g"
proof -
  obtain u bp1 s1 where fl: "flush_all ops xs bp s = (u, bp1, s1)" by (metis prod_cases3)
  obtain g1 where "flush_all (ghost_ops ops) xs bp (s, g) = (u, bp1, (s1, g1))" "g1 \<subseteq>\<^sub>m g"
    using flush_all_lift[OF fl] by blast
  then show ?thesis
    using assms fl by (cases u) (auto simp: checkpoint_def pool_sync_def split: prod.splits)
qed

text \<open>One step of a run, by clients that read only pages without a ghost.\<close>

lemma pool_step_lift:
  assumes "pool_step ops n ids bp s eo bp' s'" and "\<And>i. ids i \<Longrightarrow> ids' i \<and> g i = None"
  shows "\<exists>g'. pool_step (ghost_ops ops) n ids' bp (s, g) eo bp' (s', g') \<and> g' \<subseteq>\<^sub>m g"
  using assms(1)
proof cases
  case (fetch_ok pid slot)
  with fetch_lift[of ops pid bp s _ bp' s' g] assms(2)[of pid] show ?thesis
    by (metis pool_step.fetch_ok)
next
  case (fetch_err pid e)
  with fetch_lift[of ops pid bp s _ bp' s' g] assms(2)[of pid] show ?thesis
    by (metis pool_step.fetch_err)
next
  case (new_ok pid slot)
  with new_page_lift[of ops pid bp s _ bp' s' g] assms(2)[of pid] show ?thesis
    by (metis pool_step.new_ok)
next
  case (new_err pid e)
  with new_page_lift[of ops pid bp s _ bp' s' g] assms(2)[of pid] show ?thesis
    by (metis pool_step.new_err)
next
  case (seen slot)
  then show ?thesis using pool_step.seen by (metis map_le_refl)
next
  case (written slot f)
  then show ?thesis using pool_step.written by (metis map_le_refl)
next
  case (drop_guard slot)
  then show ?thesis using pool_step.drop_guard by (metis map_le_refl)
next
  case (flush_one pid r)
  with flush_lift[of ops pid bp s r bp' s' g] show ?thesis by (metis pool_step.flush_one)
next
  case (flush_every xs r)
  with flush_all_lift[of ops xs bp s r bp' s' g] show ?thesis by (metis pool_step.flush_every)
next
  case (check xs r)
  with checkpoint_lift[of ops xs bp s r bp' s' g] show ?thesis by (metis pool_step.check)
next
  case (sync r)
  then have "pool_sync (ghost_ops ops) (s, g) = (r, (s', g))" by (simp add: pool_sync_def)
  with sync show ?thesis by (metis pool_step.sync map_le_refl)
qed

end
