(* ===== verification/PoolWrites.thy ===== *)
theory PoolWrites
  imports GhostStore
begin

text \<open>
  Which pages of the store the pool's methods (\<^verbatim>\<open>src/pool.rs\<close>) write: only those that are
  dirty, so no page that is neither dirty nor pinned is touched, and no call makes a page
  busy that its client does not name.
\<close>

section \<open>Which pages a call writes\<close>

text \<open>The ids whose page is dirty or pinned; a call writes no other page of the store.\<close>

definition busy :: "pool \<Rightarrow> page_id set" where
  "busy bp = {pid. \<exists>j. bp_map bp pid = Some j
     \<and> (fr_dirty (frame_at bp j) \<or> 0 < fr_pin (frame_at bp j))}"

definition calm ::
  "(page_id \<Rightarrow> bool) \<Rightarrow> (page_id \<Rightarrow> bytes option) \<Rightarrow> pool \<Rightarrow> (page_id \<Rightarrow> bytes option) \<Rightarrow> pool
     \<Rightarrow> page_id set \<Rightarrow> bool" where
  "calm ids v bp v' bp' X \<longleftrightarrow> busy bp' \<subseteq> busy bp \<union> X
     \<and> (\<forall>i bs. ids i \<longrightarrow> i \<notin> busy bp \<longrightarrow> v i = Some bs \<longrightarrow> v' i = Some bs)"

lemma calm_refl: "calm ids v bp v bp X"
  by (auto simp: calm_def)

lemma calm_trans: "calm ids v bp v1 bp1 {} \<Longrightarrow> calm ids v1 bp1 v2 bp2 X \<Longrightarrow> calm ids v bp v2 bp2 X"
  unfolding calm_def by blast

lemma calm_pool: "busy bp' \<subseteq> busy bp \<union> X \<Longrightarrow> calm ids v bp v bp' X"
  by (auto simp: calm_def)

lemma busy_clock: "clock_only bp bp' \<Longrightarrow> busy bp' = busy bp"
  by (simp add: clock_only_def busy_def)

lemma busy_fields [simp]: "busy (bp\<lparr>bp_free := fl\<rparr>) = busy bp"
  by (simp add: busy_def)

lemma busy_update_limbo:
  assumes "pool_inv n ids v {slot} bp" and "slot < bp_capacity bp"
  shows "busy (update_frame slot f bp) = busy bp"
proof -
  note sl = slots_inv_D[OF pool_inv_slots[OF assms(1)]]
  have "slot < length (bp_frames bp)" using assms(2) sl(1) by simp
  then show ?thesis using sl(8) by (auto simp: busy_def frame_at_update)
qed

lemma busy_install:
  assumes "pool_inv n ids v {slot} bp" and "slot < bp_capacity bp"
  shows "busy (install slot pid d bp) \<subseteq> busy bp \<union> {pid}"
proof -
  note sl = slots_inv_D[OF pool_inv_slots[OF assms(1)]]
  have "slot < length (bp_frames bp)" using assms(2) sl(1) by simp
  then show ?thesis using sl(8) by (auto simp: busy_def install_def Let_def frame_at_update split: if_splits)
qed

text \<open>An update of the frame of one page.\<close>

lemma busy_update:
  assumes "slots_inv n L bp" and "bp_map bp pid = Some slot"
  shows "busy (update_frame slot f bp) \<subseteq> busy bp \<union> {pid}"
    and "(fr_dirty (f (frame_at bp slot)) \<or> 0 < fr_pin (f (frame_at bp slot)) \<Longrightarrow>
      fr_dirty (frame_at bp slot) \<or> 0 < fr_pin (frame_at bp slot)) \<Longrightarrow> busy (update_frame slot f bp) \<subseteq> busy bp"
proof -
  have len: "slot < length (bp_frames bp)" using slots_inv_D(1,5)[OF assms(1)] assms(2) by auto
  show "busy (update_frame slot f bp) \<subseteq> busy bp \<union> {pid}"
    using slots_inv_map_inj[OF assms(1,2)] by (auto simp: busy_def frame_at_update[OF len] split: if_splits)
  show "busy (update_frame slot f bp) \<subseteq> busy bp"
    if "fr_dirty (f (frame_at bp slot)) \<or> 0 < fr_pin (f (frame_at bp slot)) \<Longrightarrow>
      fr_dirty (frame_at bp slot) \<or> 0 < fr_pin (frame_at bp slot)"
    using that by (auto simp: busy_def frame_at_update[OF len] split: if_splits)
qed

text \<open>The pool's invariant over a page file and its ghosts.\<close>

abbreviation g_inv :: "nat \<Rightarrow> nat set \<Rightarrow> page_file \<Rightarrow> ghosts \<Rightarrow> pool \<Rightarrow> bool" where
  "g_inv n L pf g bp \<equiv> pf_inv n pf \<and> pool_inv n (addressable n) (ghost_view n (pf_view n pf) g) L bp"

abbreviation g_calm :: "nat \<Rightarrow> page_file \<Rightarrow> pool \<Rightarrow> page_file \<Rightarrow> pool \<Rightarrow> page_id set \<Rightarrow> bool" where
  "g_calm n pf bp pf' bp' X \<equiv> calm (addressable n) (pf_view n pf) bp (pf_view n pf') bp' X"

lemma flush_slot_calm:
  assumes fl: "flush_slot page_file_store slot pid bp pf = (r, bp', pf')"
    and inv: "g_inv n L pf g bp" and map: "bp_map bp pid = Some slot"
  shows "g_calm n pf bp pf' bp' {}" and "\<exists>g'. g_inv n L pf' g' bp'" and "bp_map bp' = bp_map bp"
proof -
  obtain g' where "flush_slot (ghost_ops page_file_store) slot pid bp (pf, g) = (r, bp', (pf', g'))"
    using flush_slot_lift[OF fl] by blast
  note fk = gpf.flush_slot_kept[where s = "(pf, g)" and s' = "(pf', g')", simplified, OF this conjunct2[OF inv] conjunct1[OF inv] map]
  show "\<exists>g'. g_inv n L pf' g' bp'" and "bp_map bp' = bp_map bp"
    using kept_inv[OF fk(1)] fk(2,3) by auto
  note sl = slots_inv_D[OF pool_inv_slots[OF conjunct2[OF inv]]]
  have "busy bp' \<subseteq> busy bp"
    using fk(3,7,8) by (auto simp: busy_def)
  moreover have "pf_view n pf' i = Some bs"
    if "addressable n i" "i \<notin> busy bp" "pf_view n pf i = Some bs" for i bs
  proof (cases "fr_dirty (frame_at bp slot)")
    case False
    then show ?thesis using fl that by (simp add: flush_slot_def)
  next
    case True
    obtain u p1 pf1 where w: "so_write_page page_file_store pf pid (fr_page (frame_at bp slot)) = (u, p1, pf1)"
      by (metis prod_cases3)
    then have "pf' = pf1" using fl True by (cases u) (auto simp: flush_slot_def)
    moreover have "i \<noteq> pid" using that(2) True map by (auto simp: busy_def)
    ultimately show ?thesis
      using pf.write_other[OF conjunct1[OF inv] sl(4)[OF sl(5)[OF map]] pool_inv_ids[OF conjunct2[OF inv] map] w]
        that by blast
  qed
  ultimately show "g_calm n pf bp pf' bp' {}" by (simp add: calm_def)
qed

lemma take_slot_calm:
  assumes tk: "take_slot page_file_store bp pf = (r, bp', pf')" and inv: "g_inv n {} pf g bp"
  shows "g_calm n pf bp pf' bp' {}"
proof (cases "bp_free bp = []")
  case False
  then show ?thesis using tk by (auto simp: take_slot_def intro: calm_pool)
next
  case True
  obtain vic bp1 where fv: "find_victim bp = (vic, bp1)" by (metis prod.exhaust)
  note vc = find_victim_correct[OF fv pool_inv_hand_ok[OF conjunct2[OF inv]]]
  have inv1: "g_inv n {} pf g bp1"
    using clock_only_inv(1)[OF vc(1,2) pool_inv_hand_ok[OF conjunct2[OF inv]]] inv by blast
  have calm1: "g_calm n pf bp pf bp1 {}" using busy_clock[OF vc(1)] by (intro calm_pool) simp
  show ?thesis
  proof (cases vic)
    case None
    then show ?thesis using tk fv True calm1 by (simp add: take_slot_def)
  next
    case (Some slot)
    note sl = slots_inv_D[OF pool_inv_slots[OF conjunct2[OF inv1]]]
    have slot1: "slot < bp_capacity bp1" "bp_free bp1 = []"
      using vc(3)[OF Some] vc(1) True by (simp_all add: clock_only_def)
    obtain a where a: "bp_map bp1 a = Some slot" using sl(13)[OF slot1(1)] slot1(2) by auto
    have vid: "resident_id (frame_at bp1 slot) = a" using sl(6)[OF a] by (simp add: resident_id_def)
    obtain u bp2 pf2 where fl: "flush_slot page_file_store slot a bp1 pf = (u, bp2, pf2)" by (metis prod_cases3)
    note calm2 = calm_trans[OF calm1 flush_slot_calm(1)[OF fl inv1 a]]
    have "busy (bp2\<lparr>bp_map := (bp_map bp2)(a := None)\<rparr>) \<subseteq> busy bp2" by (auto simp: busy_def)
    then show ?thesis
      using tk fv True Some vid fl calm2
      by (cases u) (auto simp: take_slot_def Let_def calm_def)
  qed
qed

lemma flush_entries_calm:
  assumes "flush_entries page_file_store xs bp pf = (r, bp', pf')" and "g_inv n {} pf g bp"
    and "\<forall>(pid, slot) \<in> set xs. bp_map bp pid = Some slot"
  shows "g_calm n pf bp pf' bp' {}"
  using assms
proof (induction xs arbitrary: bp pf g)
  case Nil
  then show ?case by (simp add: calm_refl)
next
  case (Cons x xs)
  have map: "bp_map bp (fst x) = Some (snd x)" using Cons.prems(3) by auto
  obtain u bp1 pf1 where fl: "flush_slot page_file_store (snd x) (fst x) bp pf = (u, bp1, pf1)"
    by (metis prod_cases3)
  note fc = flush_slot_calm[OF fl Cons.prems(2) map]
  obtain g1 where g1: "g_inv n {} pf1 g1 bp1" using fc(2) by blast
  have maps: "\<forall>(pid, slot) \<in> set xs. bp_map bp1 pid = Some slot" using Cons.prems(3) fc(3) by auto
  show ?case
  proof (cases u)
    case (Inl e)
    then show ?thesis using Cons.prems(1) fl fc(1) by simp
  next
    case (Inr y)
    then have "flush_entries page_file_store xs bp1 pf1 = (r, bp', pf')" using Cons.prems(1) fl by simp
    from calm_trans[OF fc(1) Cons.IH[OF this g1 maps]] show ?thesis .
  qed
qed

lemma fetch_calm:
  assumes fe: "fetch page_file_store pid bp pf = (r, bp', pf')" and inv: "g_inv n {} pf g bp"
    and pid: "addressable n pid" and n: "32 \<le> n"
  shows "g_calm n pf bp pf' bp' {pid}"
proof (cases "bp_map bp pid")
  case (Some slot)
  then show ?thesis
    using fe busy_update(1)[OF pool_inv_slots[OF conjunct2[OF inv]] Some]
    by (auto simp: fetch_def intro!: calm_pool)
next
  case None
  obtain t bp1 pf1 where tk: "take_slot page_file_store bp pf = (t, bp1, pf1)" by (metis prod_cases3)
  note tc = take_slot_calm[OF tk inv]
  show ?thesis
  proof (cases t)
    case (Inl e)
    then show ?thesis using fe None tk tc by (auto simp: fetch_def calm_def)
  next
    case (Inr slot)
    obtain g1 where lift: "take_slot (ghost_ops page_file_store) bp (pf, g) = (t, bp1, (pf1, g1))"
      using take_slot_lift[OF tk] by blast
    note tkk = gpf.take_slot_kept[where s = "(pf, g)" and s' = "(pf1, g1)", simplified,
        OF lift conjunct2[OF inv] conjunct1[OF inv] n]
    have inv1: "pool_inv n (addressable n) (ghost_view n (pf_view n pf1) g1) {slot} bp1"
      and slot: "slot < bp_capacity bp1"
      using tkk(2)[OF Inr] by (simp_all add: kept_def)
    obtain u p' pf2 where rd: "so_read_into page_file_store pf1 pid (fr_page (frame_at bp1 slot)) = (u, p', pf2)"
      by (metis prod_cases3)
    have wf: "page_wf n (fr_page (frame_at bp1 slot))"
      by (rule slots_inv_D(4)[OF pool_inv_slots[OF inv1] slot])
    note frame = pf.read_frame[OF tkk(1) wf pid rd]
    let ?f = "\<lambda>fr. fr\<lparr>fr_page := p'\<rparr>"
    let ?bp2 = "update_frame slot ?f bp1"
    have inv2: "pool_inv n (addressable n) (ghost_view n (pf_view n pf1) g1) {slot} ?bp2"
      using frame by (intro update_limbo(1)[OF inv1 slot]) simp_all
    have "busy ?bp2 = busy bp1" by (rule busy_update_limbo[OF inv1 slot])
    moreover have "busy (install slot pid False ?bp2) \<subseteq> busy ?bp2 \<union> {pid}"
      using slot by (intro busy_install[OF inv2]) simp
    ultimately have "busy bp' \<subseteq> busy bp1 \<union> {pid}" "pf' = pf2"
      using fe None tk Inr rd by (cases u; auto simp: fetch_def Let_def)+
    then show ?thesis using tc frame by (auto simp: calm_def)
  qed
qed

lemma new_page_calm:
  assumes np: "new_page page_file_store pid bp pf = (r, bp', pf')" and inv: "g_inv n {} pf g bp"
    and n: "32 \<le> n"
  shows "g_calm n pf bp pf' bp' {pid}"
proof (cases "bp_map bp pid")
  case (Some slot)
  then show ?thesis
    using np busy_update(1)[OF pool_inv_slots[OF conjunct2[OF inv]] Some]
    by (auto simp: new_page_def intro!: calm_pool)
next
  case None
  obtain t bp1 pf1 where tk: "take_slot page_file_store bp pf = (t, bp1, pf1)" by (metis prod_cases3)
  note tc = take_slot_calm[OF tk inv]
  show ?thesis
  proof (cases t)
    case (Inl e)
    then show ?thesis using np None tk tc by (auto simp: new_page_def calm_def)
  next
    case (Inr slot)
    obtain g1 where lift: "take_slot (ghost_ops page_file_store) bp (pf, g) = (t, bp1, (pf1, g1))"
      using take_slot_lift[OF tk] by blast
    note tkk = gpf.take_slot_kept[where s = "(pf, g)" and s' = "(pf1, g1)", simplified,
        OF lift conjunct2[OF inv] conjunct1[OF inv] n]
    have inv1: "pool_inv n (addressable n) (ghost_view n (pf_view n pf1) g1) {slot} bp1"
      and slot: "slot < bp_capacity bp1"
      using tkk(2)[OF Inr] by (simp_all add: kept_def)
    let ?f = "\<lambda>fr. fr\<lparr>fr_page := reset (fr_page fr)\<rparr>"
    let ?bp2 = "update_frame slot ?f bp1"
    have inv2: "pool_inv n (addressable n) (ghost_view n (pf_view n pf1) g1) {slot} ?bp2"
      using slots_inv_D(4)[OF pool_inv_slots[OF inv1] slot]
      by (intro update_limbo(1)[OF inv1 slot]) (simp_all add: reset_wf)
    have "busy ?bp2 = busy bp1" by (rule busy_update_limbo[OF inv1 slot])
    moreover have "busy (install slot pid True ?bp2) \<subseteq> busy ?bp2 \<union> {pid}"
      using slot by (intro busy_install[OF inv2]) simp
    ultimately have "busy bp' \<subseteq> busy bp1 \<union> {pid}" "pf' = pf1"
      using np None tk Inr by (auto simp: new_page_def Let_def)
    then show ?thesis using tc by (auto simp: calm_def)
  qed
qed

lemma new_page_err_busy:
  assumes np: "new_page page_file_store pid bp pf = (Inl e, bp', pf')" and inv: "g_inv n {} pf g bp"
  shows "busy bp' \<subseteq> busy bp"
proof -
  have "take_slot page_file_store bp pf = (Inl e, bp', pf')"
    using np by (auto simp: new_page_def Let_def split: option.splits prod.splits sum.splits)
  from take_slot_calm[OF this inv] show ?thesis by (simp add: calm_def)
qed

lemma new_page_dirty:
  assumes np: "new_page ops pid bp s = (Inr slot, bp', s')" and inv: "slots_inv n L bp'"
    and map: "bp_map bp' pid = Some slot"
  shows "fr_dirty (frame_at bp' slot)"
proof -
  have len: "slot < length (bp_frames bp')" using slots_inv_D(1,5)[OF inv] map by auto
  show ?thesis
    using np len
    by (auto simp: new_page_def install_def Let_def frame_at_update split: option.splits prod.splits sum.splits)
qed

lemma flush_calm:
  assumes "flush page_file_store pid bp pf = (r, bp', pf')" and "g_inv n {} pf g bp"
  shows "g_calm n pf bp pf' bp' {}"
proof (cases "bp_map bp pid")
  case None
  then show ?thesis using assms(1) by (simp add: flush_def calm_refl)
next
  case (Some slot)
  then have "flush_slot page_file_store slot pid bp pf = (r, bp', pf')" using assms(1) by (simp add: flush_def)
  from flush_slot_calm(1)[OF this assms(2) Some] show ?thesis .
qed

lemma flush_all_calm:
  assumes "flush_all page_file_store xs bp pf = (r, bp', pf')" and "g_inv n {} pf g bp" and "entry_order bp xs"
  shows "g_calm n pf bp pf' bp' {}"
  using assms(3)
  by (intro flush_entries_calm[OF assms(1)[unfolded flush_all_def] assms(2)]) (auto simp: entry_order_def)

lemma checkpoint_calm:
  assumes cp: "checkpoint page_file_store xs bp pf = (r, bp', pf')" and inv: "g_inv n {} pf g bp"
    and order: "entry_order bp xs" and n: "32 \<le> n"
  shows "g_calm n pf bp pf' bp' {}"
proof -
  obtain u bp1 pf1 where fl: "flush_all page_file_store xs bp pf = (u, bp1, pf1)" by (metis prod_cases3)
  note fc = flush_all_calm[OF fl inv order]
  obtain g1 where lift: "flush_all (ghost_ops page_file_store) xs bp (pf, g) = (u, bp1, (pf1, g1))"
    using flush_all_lift[OF fl] by blast
  have inv1: "pf_inv n pf1"
    using gpf.flush_all_kept(1)[where s = "(pf, g)" and s' = "(pf1, g1)", simplified,
        OF lift order conjunct2[OF inv] conjunct1[OF inv] n] .
  obtain w pf2 where sy: "so_sync page_file_store pf1 = (w, pf2)" by (metis prod.exhaust)
  have "pf_view n pf2 = pf_view n pf1" using pf.sync_frame[OF inv1 sy] by simp
  then show ?thesis using cp fl fc sy by (cases u) (auto simp: checkpoint_def pool_sync_def)
qed

text \<open>A step of the pool makes no page busy but those its client may name.\<close>

lemma pool_step_calm:
  assumes step: "pool_step page_file_store n own bp pf eo bp' pf'" and inv: "g_inv n {} pf g bp"
    and own: "\<And>i. own i \<Longrightarrow> addressable n i" and n: "32 \<le> n"
  shows "g_calm n pf bp pf' bp' {i. own i}"
proof -
  have grow: "g_calm n pf bp pf' bp' {i. own i}" if "g_calm n pf bp pf' bp' X" "X \<subseteq> {i. own i}" for X
    using that by (auto simp: calm_def)
  note slots = pool_inv_slots[OF conjunct2[OF inv]]
  show ?thesis
    using step
  proof cases
    case (written slot f)
    note map = pinned_mapped[OF conjunct2[OF inv] written(4,5)]
    have len: "slot < length (bp_frames bp)" using slots_inv_D(1)[OF slots] written(4) by simp
    have "busy bp' \<subseteq> busy bp"
      unfolding written(2) guard_write_eq[OF len] using written(5) by (intro busy_update(2)[OF slots map]) simp
    then show ?thesis using written(3) by (intro grow[of "{}"]) (auto intro: calm_pool)
  next
    case (drop_guard slot)
    note map = pinned_mapped[OF conjunct2[OF inv] drop_guard(4,5)]
    have "busy bp' \<subseteq> busy bp"
      unfolding drop_guard(2) guard_drop_def by (rule busy_update(2)[OF slots map]) auto
    then show ?thesis using drop_guard(3) by (intro grow[of "{}"]) (auto intro: calm_pool)
  next
    case (sync r)
    then show ?thesis using pf.sync_frame[OF conjunct1[OF inv], of r pf']
      by (auto simp: pool_sync_def calm_def)
  next
    case (fetch_ok pid slot)
    from fetch_calm[OF fetch_ok(3) inv own[OF fetch_ok(2)] n] fetch_ok(2) show ?thesis
      by (intro grow[of "{pid}"]) auto
  next
    case (fetch_err pid e)
    from fetch_calm[OF fetch_err(3) inv own[OF fetch_err(2)] n] fetch_err(2) show ?thesis
      by (intro grow[of "{pid}"]) auto
  next
    case (new_ok pid slot)
    from new_page_calm[OF new_ok(3) inv n] new_ok(2) show ?thesis by (intro grow[of "{pid}"]) auto
  next
    case (new_err pid e)
    from new_page_calm[OF new_err(3) inv n] new_err(2) show ?thesis by (intro grow[of "{pid}"]) auto
  next
    case (flush_one pid r)
    from flush_calm[OF flush_one(2) inv] show ?thesis by (intro grow[of "{}"]) auto
  next
    case (flush_every xs r)
    from flush_all_calm[OF flush_every(3) inv flush_every(2)] show ?thesis by (intro grow[of "{}"]) auto
  next
    case (check xs r)
    from checkpoint_calm[OF check(3) inv check(2) n] show ?thesis by (intro grow[of "{}"]) auto
  qed (simp add: calm_refl)
qed

end
