(* ===== verification/SharedStore.thy ===== *)
theory SharedStore
  imports Allocator PoolWrites
begin

text \<open>
  The allocator and the pool on one page file (\<^verbatim>\<open>src/alloc.rs\<close> and \<^verbatim>\<open>src/pool.rs\<close> over the
  \<^verbatim>\<open>Arc\<close> of \<^verbatim>\<open>src/store.rs\<close>): the allocator hands out ids, the pool caches their pages, and a
  page is freed at any time, also while it is dirty or pinned in the pool.  What the
  clients must keep to is in \<open>db_step\<close>; the crash after a checkpoint and the orders of
  calls that lose the allocator's state are at the end.
\<close>

section \<open>Runs of the two\<close>

text \<open>
  The pool, the allocator and their file.  The other components are bookkeeping of
  the proof: the ids in use whose page exists, the allocator state that was last
  saved (unless a failed sync came after it), and the ids whose page was dirty or
  pinned in the pool when it was saved or has been created since.
\<close>

record database =
  db_pool :: pool
  db_alloc :: alloc_state
  db_file :: page_file
  db_created :: "page_id set"
  db_saved :: "alloc_state option"
  db_touched :: "u64 set"

datatype db_event = Page pool_event | Gone page_id

fun db_observe :: "(page_id \<Rightarrow> bytes option) \<Rightarrow> db_event \<Rightarrow> (page_id \<Rightarrow> bytes option) option" where
  "db_observe m (Page e) = observe m e"
| "db_observe m (Gone i) = Some (m(i := None))"

text \<open>
  What is known of each id after some events: what was last written or seen there.
  The events are consistent when none of them saw anything else.
\<close>

fun db_replay :: "(page_id \<Rightarrow> bytes option) \<Rightarrow> db_event list \<Rightarrow> (page_id \<Rightarrow> bytes option) option" where
  "db_replay m [] = Some m"
| "db_replay m (e # es) = Option.bind (db_observe m e) (\<lambda>m'. db_replay m' es)"

definition db_consistent :: "(page_id \<Rightarrow> bytes option) \<Rightarrow> db_event list \<Rightarrow> bool" where
  "db_consistent m es \<longleftrightarrow> db_replay m es \<noteq> None"

text \<open>
  A step is one call, with any outcome.  Of the clients three things are asked: they give
  the pool only ids in use, they create the page of an id (\<^verbatim>\<open>new_page\<close>) before they fetch it,
  and they free only ids in use.  Guards may outlive the free of their page.  The file
  stays within the addressable ids.
\<close>

inductive db_step :: "nat \<Rightarrow> database \<Rightarrow> db_event option \<Rightarrow> database \<Rightarrow> bool" for n where
  accessed: "pool_step page_file_store n (\<lambda>i. i \<in> db_created db) (db_pool db) (db_file db) eo bp' pf' \<Longrightarrow>
    db_step n db (map_option Page eo) (db\<lparr>db_pool := bp', db_file := pf'\<rparr>)"
| created: "pid_get pid \<in> live_ids (db_alloc db) \<Longrightarrow>
    new_page page_file_store pid (db_pool db) (db_file db) = (Inr slot, bp', pf') \<Longrightarrow>
    db_step n db (Some (Page (Wrote pid (as_bytes (guard_read bp' slot)))))
      (db\<lparr>db_pool := bp', db_file := pf', db_created := insert pid (db_created db),
          db_touched := insert (pid_get pid) (db_touched db)\<rparr>)"
| not_created: "pid_get pid \<in> live_ids (db_alloc db) \<Longrightarrow>
    new_page page_file_store pid (db_pool db) (db_file db) = (Inl e, bp', pf') \<Longrightarrow>
    db_step n db None (db\<lparr>db_pool := bp', db_file := pf'\<rparr>)"
| allocated: "allocate (db_alloc db) = (r, a') \<Longrightarrow> addressable n (PageId (next_new a')) \<Longrightarrow>
    db_step n db None (db\<lparr>db_alloc := a'\<rparr>)"
| freed: "pid_get pid \<in> live_ids (db_alloc db) \<Longrightarrow> free pid (db_alloc db) = (Inr (), a') \<Longrightarrow>
    db_step n db (Some (Gone pid)) (db\<lparr>db_alloc := a', db_created := db_created db - {pid}\<rparr>)"
| synced: "PageAllocator_sync page_file_store (db_alloc db) (db_file db) = (Inr (), a', pf') \<Longrightarrow>
    db_step n db None (db\<lparr>db_alloc := a', db_file := pf', db_saved := Some (db_alloc db),
      db_touched := pid_get ` busy (db_pool db)\<rparr>)"
| not_synced: "PageAllocator_sync page_file_store (db_alloc db) (db_file db) = (Inl e, a', pf') \<Longrightarrow>
    db_step n db None (db\<lparr>db_alloc := a', db_file := pf', db_saved := None\<rparr>)"

inductive db_run :: "nat \<Rightarrow> database \<Rightarrow> db_event list \<Rightarrow> database \<Rightarrow> bool" for n where
  db_stop: "db_run n db [] db"
| db_silent: "db_step n db None db1 \<Longrightarrow> db_run n db1 es db2 \<Longrightarrow> db_run n db es db2"
| db_event: "db_step n db (Some e) db1 \<Longrightarrow> db_run n db1 es db2 \<Longrightarrow> db_run n db (e # es) db2"

definition db_open :: "nat \<Rightarrow> page_file \<Rightarrow> alloc_state \<Rightarrow> page_id set \<Rightarrow> database" where
  "db_open capacity pf st pages =
    \<lparr>db_pool = BufferPool_new page_file_store pf capacity, db_alloc = st, db_file = pf,
     db_created = pages, db_saved = None, db_touched = {}\<rparr>"

definition db_inv :: "nat \<Rightarrow> ghosts \<Rightarrow> (page_id \<Rightarrow> bytes option) \<Rightarrow> database \<Rightarrow> bool" where
  "db_inv n g m db \<longleftrightarrow> g_inv n {} (db_file db) g (db_pool db)
     \<and> alloc_inv (db_alloc db) \<and> page_wf n (scratch (db_alloc db))
     \<and> addressable n (PageId (next_new (db_alloc db)))
     \<and> (\<forall>i \<in> db_created db. pid_get i \<in> live_ids (db_alloc db) \<and> g i = None)
     \<and> PageId 0 \<notin> busy (db_pool db)
     \<and> agrees (addressable n) m (pool_view (ghost_view n (pf_view n (db_file db)) g) (db_pool db))"

definition saved_inv :: "nat \<Rightarrow> database \<Rightarrow> bool" where
  "saved_inv n db \<longleftrightarrow> (\<forall>D. db_saved db = Some D \<longrightarrow> alloc_inv D
     \<and> next_new D \<le> next_new (db_alloc db)
     \<and> (\<forall>i \<in> db_created db \<union> busy (db_pool db). pid_get i \<in> set (free_list D) \<longrightarrow> pid_get i \<in> db_touched db)
     \<and> (set (free_list D) \<inter> db_touched db = {} \<longrightarrow> stored_state (pf_view n (db_file db)) D))"

section \<open>What every step keeps\<close>

lemma pool_inv_more:
  assumes "pool_inv n ids v L bp" and "\<And>i bs. ids i \<Longrightarrow> v i = Some bs \<Longrightarrow> w i = Some bs"
  shows "pool_inv n ids w L bp"
  using assms by (auto simp: pool_inv_def coherent_def)

lemma pool_view_more:
  assumes "pool_view v bp i = Some bs" and "\<And>bs. v i = Some bs \<Longrightarrow> w i = Some bs"
  shows "pool_view w bp i = Some bs"
  using assms by (auto simp: pool_view_def split: option.splits)

lemma pool_inv_except:
  assumes "pool_inv n ids v L bp" and "bp_map bp pid = Some j" and "fr_dirty (frame_at bp j)"
    and "\<And>i. i \<noteq> pid \<Longrightarrow> w i = v i"
  shows "pool_inv n ids w L bp" and "pool_view w bp = pool_view v bp"
proof -
  note pi = assms(1)[unfolded pool_inv_def coherent_def]
  have "w a = Some (as_bytes (fr_page (frame_at bp k)))"
    if "bp_map bp a = Some k" "\<not> fr_dirty (frame_at bp k)" for a k
    using pi that assms(2-4) by (cases "a = pid") auto
  then show "pool_inv n ids w L bp" using pi by (simp add: pool_inv_def coherent_def)
  show "pool_view w bp = pool_view v bp"
  proof
    fix i
    show "pool_view w bp i = pool_view v bp i"
      using assms(2,4) by (cases "i = pid") (simp_all add: pool_view_def split: option.splits)
  qed
qed

lemma stored_state_more:
  assumes "stored_state v D" and "\<And>i bs. i = 0 \<or> i \<in> set (free_list D) \<Longrightarrow> v (PageId i) = Some bs \<Longrightarrow> w (PageId i) = Some bs"
  shows "stored_state w D"
  using assms(1) linked_mono[of "free_list D" v w] assms(2) by (auto simp: stored_state_def)

lemma db_inv_D:
  assumes "db_inv n g m db"
  shows "pf_inv n (db_file db)" "pool_inv n (addressable n) (ghost_view n (pf_view n (db_file db)) g) {} (db_pool db)"
    "alloc_inv (db_alloc db)" "page_wf n (scratch (db_alloc db))"
    "i \<in> db_created db \<Longrightarrow> pid_get i \<in> live_ids (db_alloc db)" "i \<in> db_created db \<Longrightarrow> g i = None"
    "PageId 0 \<notin> busy (db_pool db)" "m i = Some bs \<Longrightarrow> addressable n i"
    "m i = Some bs \<Longrightarrow> pool_view (ghost_view n (pf_view n (db_file db)) g) (db_pool db) i = Some bs"
    "32 \<le> n" "pid_get i < next_new (db_alloc db) \<Longrightarrow> addressable n i"
    "pid_get i \<in> live_ids (db_alloc db) \<Longrightarrow> addressable n i" "addressable n (PageId (next_new (db_alloc db)))"
proof -
  show "32 \<le> n" using assms pf_inv_32[of n "db_file db"] by (simp add: db_inv_def)
  have "addressable n (PageId (next_new (db_alloc db)))" using assms by (simp add: db_inv_def)
  then have addr: "addressable n i" if "pid_get i < next_new (db_alloc db)" for i
    using that by (elim addressable_mono) (simp add: word_less_nat_alt)
  show "pid_get i < next_new (db_alloc db) \<Longrightarrow> addressable n i"
    and "pid_get i \<in> live_ids (db_alloc db) \<Longrightarrow> addressable n i"
    using addr by (auto simp: live_ids_def)
qed (use assms in \<open>auto simp: db_inv_def agrees_def\<close>)

text \<open>A call of the pool by clients that name the pages in \<open>own\<close>.\<close>

lemma pool_part:
  assumes step: "pool_step page_file_store n own (db_pool db) (db_file db) eo bp' pf'"
    and inv: "db_inv n g m db" and own: "\<And>i. own i \<Longrightarrow> i \<in> db_created db"
  shows "\<exists>g'. case eo of
      None \<Rightarrow> db_inv n g' m (db\<lparr>db_pool := bp', db_file := pf'\<rparr>)
    | Some e \<Rightarrow> \<exists>m'. observe m e = Some m' \<and> db_inv n g' m' (db\<lparr>db_pool := bp', db_file := pf'\<rparr>)"
proof -
  note d = db_inv_D[OF inv]
  have own': "addressable n i \<and> g i = None" if "own i" for i
    using own[OF that] d(5,6,12) by blast
  obtain g' where lift: "pool_step (ghost_ops page_file_store) n (addressable n) (db_pool db) (db_file db, g) eo bp' (pf', g')"
    and le: "g' \<subseteq>\<^sub>m g"
    using pool_step_lift[where g = g and ids' = "addressable n", OF step own'] by blast
  have m: "agrees (addressable n) m (pool_view (ghost_view n (pf_view n (db_file db)) g) (db_pool db))"
    using inv by (simp add: db_inv_def)
  note sk = gpf.step_keeps[where s = "(db_file db, g)" and s' = "(pf', g')", simplified, OF lift d(2,1,10) m]
  have "\<not> own (PageId 0)" using own[of "PageId 0"] d(5)[of "PageId 0"] by (auto simp: live_ids_def)
  then have zero: "PageId 0 \<notin> busy bp'"
    using pool_step_calm[OF step conjI[OF d(1,2)] _ d(10)] own' d(7) by (auto simp: calm_def)
  have core: "db_inv n g' m' (db\<lparr>db_pool := bp', db_file := pf'\<rparr>)"
    if "agrees (addressable n) m' (pool_view (ghost_view n (pf_view n pf') g') bp')" for m'
    using that sk zero d(3-6,13) map_le_None[OF le] by (simp add: db_inv_def)
  show ?thesis using sk core by (cases eo) auto
qed

text \<open>A new page at an id in use.\<close>

lemma create_part:
  assumes np: "new_page page_file_store pid (db_pool db) (db_file db) = (r, bp', pf')"
    and inv: "db_inv n g m db" and pid: "pid_get pid \<in> live_ids (db_alloc db)"
  shows "r = Inr slot \<Longrightarrow> \<exists>g' m'. observe m (Wrote pid (as_bytes (guard_read bp' slot))) = Some m'
      \<and> db_inv n g' m' (db\<lparr>db_pool := bp', db_file := pf', db_created := insert pid (db_created db),
          db_touched := insert (pid_get pid) (db_touched db)\<rparr>)"
    and "r = Inl e \<Longrightarrow> \<exists>g'. db_inv n g' m (db\<lparr>db_pool := bp', db_file := pf'\<rparr>)"
proof -
  note d = db_inv_D[OF inv]
  have addr: "addressable n pid" using d(12) pid by blast
  obtain g' where lift: "new_page (ghost_ops page_file_store) pid (db_pool db) (db_file db, g) = (r, bp', (pf', g'))"
    and le: "g' \<subseteq>\<^sub>m g"
    using new_page_lift[OF np] by blast
  note nk = gpf.new_page_correct[where s = "(db_file db, g)" and s' = "(pf', g')", simplified,
      OF lift d(2,1) addr d(10)]
  have "pid \<noteq> PageId 0" using pid by (auto simp: live_ids_def)
  then have busy: "PageId 0 \<notin> busy bp'"
    using new_page_calm[OF np conjI[OF d(1,2)] d(10)] d(7) by (auto simp: calm_def)
  let ?v = "ghost_view n (pf_view n (db_file db)) g" and ?v' = "ghost_view n (pf_view n pf') g'"
  have page: "stamp_bytes (pid_get pid) (blank_bytes n) = stamp_bytes (pid_get pid) (as_bytes (guard_read bp' slot))"
    if "r = Inr slot" for slot
    using nk(3)[OF that] by (simp add: guard_read_def)
  show "\<exists>g' m'. observe m (Wrote pid (as_bytes (guard_read bp' slot))) = Some m'
      \<and> db_inv n g' m' (db\<lparr>db_pool := bp', db_file := pf', db_created := insert pid (db_created db),
          db_touched := insert (pid_get pid) (db_touched db)\<rparr>)" if r: "r = Inr slot"
  proof -
    let ?g = "g'(pid := None)"
    let ?w = "ghost_view n (pf_view n pf') ?g"
    have w: "wrote n (addressable n) ?v (db_pool db) ?v' bp' pid (blank_bytes n)"
      and map: "bp_map bp' pid = Some slot"
      using nk(3)[OF r] by simp_all
    have dirty: "fr_dirty (frame_at bp' slot)"
      using new_page_dirty[OF np[unfolded r]] pool_inv_slots[of n "addressable n" ?v' "{}" bp'] w map
      by (auto simp: wrote_def)
    have inv': "pool_inv n (addressable n) ?v' {} bp'" using w by (simp add: wrote_def)
    have same: "?w i = ?v' i" if "i \<noteq> pid" for i using that by (simp add: ghost_view_def)
    note ex = pool_inv_except[OF inv' map dirty same]
    have "db_inv n ?g (m(pid \<mapsto> stamp_bytes (pid_get pid) (blank_bytes n)))
        (db\<lparr>db_pool := bp', db_file := pf', db_created := insert pid (db_created db),
          db_touched := insert (pid_get pid) (db_touched db)\<rparr>)"
      using ex nk(1) busy d(3-6,8,9,12,13) w pid map_le_None[OF le]
      by (auto simp: db_inv_def wrote_def keeps_def agrees_def)
    then show ?thesis using page[OF r] by auto
  qed
  show "\<exists>g'. db_inv n g' m (db\<lparr>db_pool := bp', db_file := pf'\<rparr>)" if r: "r = Inl e"
  proof -
    have k: "kept n (addressable n) ?v (db_pool db) ?v' bp' {}" using nk(2)[OF r] .
    have "db_inv n g' m (db\<lparr>db_pool := bp', db_file := pf'\<rparr>)"
      using k nk(1) busy d(3-6,8,9,12,13) map_le_None[OF le]
      by (auto simp: db_inv_def kept_def keeps_def agrees_def)
    then show ?thesis by blast
  qed
qed

text \<open>The allocator's sync: the pages not in use get ghosts.\<close>

lemma sync_part:
  assumes sy: "PageAllocator_sync page_file_store (db_alloc db) (db_file db) = (r, a', pf')"
    and inv: "db_inv n g m db"
  shows "\<exists>g'. db_inv n g' m (db\<lparr>db_alloc := a', db_file := pf', db_saved := sv, db_touched := ru\<rparr>)"
    and "r = Inr () \<Longrightarrow> stored_state (pf_view n pf') (db_alloc db)"
proof -
  note d = db_inv_D[OF inv]
  have zero: "addressable n (PageId 0)" using d(13) by (rule addressable_mono) simp
  have ids: "\<forall>i \<in> set (free_list (db_alloc db)). addressable n (PageId i)"
    using d(3) d(11)[of "PageId i" for i] by (auto simp: alloc_inv_def)
  note c = pf.alloc_sync_correct[OF sy d(1,4,3) zero ids]
  show "r = Inr () \<Longrightarrow> stored_state (pf_view n pf') (db_alloc db)" by (rule c(5))
  let ?v = "ghost_view n (pf_view n (db_file db)) g"
  define g' where "g' i = (if i \<in> db_created db then None else ?v i)" for i
  let ?w = "ghost_view n (pf_view n pf') g'"
  have more: "?w i = Some bs" if v: "?v i = Some bs" for i bs
  proof (cases "i \<in> db_created db")
    case True
    then have "pf_view n (db_file db) i = Some bs" using v d(6) by simp
    moreover have "pid_get i \<noteq> 0" "pid_get i \<notin> set (free_list (db_alloc db))"
      using d(5)[OF True] by (auto simp: live_ids_def)
    ultimately have "pf_view n pf' i = Some bs" using c(7) d(12)[OF d(5)[OF True]] by blast
    then show ?thesis using True by (simp add: g'_def)
  next
    case False
    then show ?thesis
      using v gpf.view_stamped[where s = "(db_file db, g)" and i = i and bs = bs and n = n]
      by (simp add: g'_def ghost_view_def)
  qed
  have "live_ids a' = live_ids (db_alloc db)" "alloc_inv a'"
    using c(3,4) d(3) by (simp_all add: live_ids_def alloc_inv_def)
  moreover have "pool_inv n (addressable n) ?w {} (db_pool db)"
    by (rule pool_inv_more[OF d(2)]) (rule more)
  moreover have "pool_view ?w (db_pool db) i = Some bs" if "m i = Some bs" for i bs
    by (rule pool_view_more[OF d(9)[OF that]]) (rule more)
  ultimately have "db_inv n g' m (db\<lparr>db_alloc := a', db_file := pf', db_saved := sv, db_touched := ru\<rparr>)"
    using c(1,2,4) d(5,7,8,13) by (simp add: db_inv_def agrees_def g'_def)
  then show "\<exists>g'. db_inv n g' m (db\<lparr>db_alloc := a', db_file := pf', db_saved := sv, db_touched := ru\<rparr>)" by blast
qed

lemma allocate_grows:
  assumes "allocate st = (r, st')" and "alloc_inv st"
  shows "alloc_inv st'" and "live_ids st \<subseteq> live_ids st'" and "scratch st' = scratch st"
    and "next_new st \<le> next_new st'"
proof -
  have "alloc_inv st' \<and> live_ids st \<subseteq> live_ids st' \<and> scratch st' = scratch st \<and> next_new st \<le> next_new st'"
  proof (cases r)
    case (Inl e)
    then show ?thesis using allocate_error[of st e st'] assms by simp
  next
    case (Inr pid)
    note al = allocate_live[OF assms(2) assms(1)[unfolded Inr]]
    have "scratch st' = scratch st \<and> next_new st \<le> next_new st'"
      using assms(1) less_Suc_word[of "next_new st" "next_new st"]
      by (cases st rule: allocate_cases) auto
    then show ?thesis using al by auto
  qed
  then show "alloc_inv st'" and "live_ids st \<subseteq> live_ids st'" and "scratch st' = scratch st"
    and "next_new st \<le> next_new st'" by simp_all
qed

lemma db_step_inv:
  assumes "db_step n db eo db'" and "db_inv n g m db"
  shows "\<exists>g'. case eo of
      None \<Rightarrow> db_inv n g' m db'
    | Some e \<Rightarrow> \<exists>m'. db_observe m e = Some m' \<and> db_inv n g' m' db'"
  using assms(1)
proof cases
  case (accessed eo' bp' pf')
  obtain g' where "case eo' of
      None \<Rightarrow> db_inv n g' m (db\<lparr>db_pool := bp', db_file := pf'\<rparr>)
    | Some e \<Rightarrow> \<exists>m'. observe m e = Some m' \<and> db_inv n g' m' (db\<lparr>db_pool := bp', db_file := pf'\<rparr>)"
    using pool_part[OF accessed(3) assms(2)] by blast
  then show ?thesis using accessed(1,2) by (cases eo') auto
next
  case (created pid slot bp' pf')
  from create_part(1)[OF created(4) assms(2) created(3)] created(1,2) show ?thesis by auto
next
  case (not_created pid e bp' pf')
  from create_part(2)[OF not_created(4) assms(2) not_created(3)] not_created(1,2) show ?thesis by auto
next
  case (allocated r a')
  note d = db_inv_D[OF assms(2)]
  note al = allocate_grows[OF allocated(3) d(3)]
  have "db_inv n g m db'"
    unfolding allocated(2) using al allocated(4) d(1,2,4-9) by (auto simp: db_inv_def agrees_def)
  then show ?thesis using allocated(1) by auto
next
  case (freed pid a')
  note d = db_inv_D[OF assms(2)]
  have a': "alloc_inv a'" "live_ids a' = live_ids (db_alloc db) - {pid_get pid}"
    using free_live[OF d(3) freed(3)] freed(4) by auto
  have same: "next_new a' = next_new (db_alloc db)" "scratch a' = scratch (db_alloc db)"
    using freed(4) by (auto simp: free_def Let_def split: if_splits)
  have "db_inv n g (m(pid := None)) db'"
    unfolding freed(2) using a' same d(1,2,4-9,13)
    by (auto simp: db_inv_def agrees_def page_id.expand)
  then show ?thesis using freed(1) by auto
next
  case (synced a' pf')
  from sync_part(1)[OF synced(3) assms(2), where sv = "Some (db_alloc db)" and ru = "pid_get ` busy (db_pool db)"] synced(1,2) show ?thesis by simp
next
  case (not_synced e a' pf')
  from sync_part(1)[OF not_synced(3) assms(2), where sv = None and ru = "db_touched db"] not_synced(1,2) show ?thesis by simp
qed

text \<open>The saved state stays readable until one of its free pages is in use again.\<close>

lemma saved_calm:
  assumes saved: "saved_inv n db" and inv: "db_inv n g m db"
    and calm: "g_calm n (db_file db) (db_pool db) pf' bp' X"
    and X: "X \<union> pages \<subseteq> db_created db \<union> {i. pid_get i \<in> ids}" and ids: "db_touched db \<subseteq> ids"
  shows "saved_inv n (db\<lparr>db_pool := bp', db_file := pf', db_created := pages, db_touched := ids\<rparr>)"
  unfolding saved_inv_def
proof (intro allI impI, goal_cases)
  case (1 D)
  then have D: "db_saved db = Some D" by simp
  note d = db_inv_D[OF inv]
  have Dinv: "alloc_inv D" "next_new D \<le> next_new (db_alloc db)"
    and old: "\<And>i. i \<in> db_created db \<union> busy (db_pool db) \<Longrightarrow> pid_get i \<in> set (free_list D) \<Longrightarrow> pid_get i \<in> db_touched db"
    using saved D by (auto simp: saved_inv_def)
  have "pid_get i \<in> ids" if "i \<in> pages \<union> busy bp'" "pid_get i \<in> set (free_list D)" for i
  proof -
    have "i \<in> db_created db \<union> busy (db_pool db) \<or> pid_get i \<in> ids"
      using that(1) X calm by (auto simp: calm_def)
    then show ?thesis using old[OF _ that(2)] ids by blast
  qed
  moreover have "stored_state (pf_view n pf') D" if unused: "set (free_list D) \<inter> ids = {}"
  proof -
    have "stored_state (pf_view n (db_file db)) D" using saved D unused ids by (auto simp: saved_inv_def)
    moreover have "pf_view n pf' (PageId i) = Some bs"
      if i: "i = 0 \<or> i \<in> set (free_list D)" and v: "pf_view n (db_file db) (PageId i) = Some bs" for i bs
    proof -
      have "i < next_new (db_alloc db)"
        using i Dinv d(3) by (auto simp: alloc_inv_def word_le_nat_alt word_less_nat_alt)
      then have "addressable n (PageId i)" using d(11) by simp
      moreover have "PageId i \<notin> busy (db_pool db)"
        using i old[of "PageId i"] d(7) unused ids by auto
      ultimately show ?thesis using calm v by (simp add: calm_def)
    qed
    ultimately show ?thesis by (rule stored_state_more)
  qed
  ultimately show ?case using Dinv by simp
qed

lemma db_step_saved:
  assumes "db_step n db eo db'" and inv: "db_inv n g m db" and saved: "saved_inv n db"
  shows "saved_inv n db'"
proof -
  note d = db_inv_D[OF inv]
  from assms(1) show ?thesis
  proof cases
    case (accessed eo' bp' pf')
    have "g_calm n (db_file db) (db_pool db) pf' bp' {i. i \<in> db_created db}"
      using d(5,12) by (intro pool_step_calm[OF accessed(3) conjI[OF d(1,2)] _ d(10)]) blast
    from saved_calm[OF saved inv this, of "db_created db" "db_touched db"] show ?thesis
      unfolding accessed(2) by simp
  next
    case (created pid slot bp' pf')
    note calm = new_page_calm[OF created(4) conjI[OF d(1,2)] d(10)]
    show ?thesis unfolding created(2) by (rule saved_calm[OF saved inv calm]) auto
  next
    case (not_created pid e bp' pf')
    have "busy bp' \<subseteq> busy (db_pool db)"
      using new_page_err_busy[OF not_created(4)] conjI[OF d(1,2)] by blast
    then have "g_calm n (db_file db) (db_pool db) pf' bp' {}"
      using new_page_calm[OF not_created(4) conjI[OF d(1,2)] d(10)] by (auto simp: calm_def)
    from saved_calm[OF saved inv this, of "db_created db" "db_touched db"] show ?thesis
      unfolding not_created(2) by simp
  next
    case (allocated r a')
    have "next_new (db_alloc db) \<le> next_new a'" using allocate_grows(4)[OF allocated(3) d(3)] .
    then show ?thesis using saved unfolding allocated(2) saved_inv_def by auto
  next
    case (freed pid a')
    have "next_new a' = next_new (db_alloc db)"
      using freed(4) by (auto simp: free_def Let_def split: if_splits)
    then show ?thesis using saved unfolding freed(2) saved_inv_def by auto
  next
    case (synced a' pf')
    have "next_new a' = next_new (db_alloc db)"
      using synced(3) persist_superblock_frame[of page_file_store "db_alloc db" "db_file db"]
      by (auto simp: PageAllocator_sync_def split: prod.splits sum.splits)
    moreover have "pid_get i \<notin> set (free_list (db_alloc db))" if "i \<in> db_created db" for i
      using d(5)[OF that] by (simp add: live_ids_def)
    ultimately show ?thesis
      using sync_part(2)[OF synced(3) inv] d(3) by (auto simp: synced(2) saved_inv_def)
  next
    case (not_synced e a' pf')
    then show ?thesis by (simp add: saved_inv_def)
  qed
qed

lemma db_run_inv:
  assumes "db_run n db es db'" and "db_inv n g m db" and "saved_inv n db"
  shows "(\<exists>g' m'. db_replay m es = Some m' \<and> db_inv n g' m' db') \<and> saved_inv n db'"
  using assms
proof (induction arbitrary: g m rule: db_run.induct)
  case (db_stop db)
  then show ?case by auto
next
  case (db_silent db db1 es db2)
  from db_step_inv[OF db_silent.hyps(1) db_silent.prems(1)] obtain g' where "db_inv n g' m db1" by auto
  from db_silent.IH[OF this db_step_saved[OF db_silent.hyps(1) db_silent.prems]] show ?case .
next
  case (db_event db e db1 es db2)
  from db_step_inv[OF db_event.hyps(1) db_event.prems(1)] obtain g' m' where
    m': "db_observe m e = Some m'" "db_inv n g' m' db1" by auto
  from db_event.IH[OF m'(2) db_step_saved[OF db_event.hyps(1) db_event.prems]] m'(1) show ?case by simp
qed

lemma db_open_inv:
  assumes "pf_inv n pf" and "alloc_inv st" and "page_wf n (scratch st)" and "addressable n (PageId (next_new st))"
    and "\<forall>i \<in> pages. pid_get i \<in> live_ids st"
  shows "db_inv n Map.empty Map.empty (db_open c pf st pages)" and "saved_inv n (db_open c pf st pages)"
proof -
  note new = pf.BufferPool_new_inv(1)[OF assms(1), where c = c and v = "pf_view n pf"]
  have "busy (BufferPool_new page_file_store pf c) = {}"
    by (simp add: busy_def BufferPool_new_def Let_def)
  then show "db_inv n Map.empty Map.empty (db_open c pf st pages)"
    using assms new by (simp add: db_inv_def db_open_def agrees_def)
  show "saved_inv n (db_open c pf st pages)" by (simp add: saved_inv_def db_open_def)
qed

section \<open>Runs for the witnesses\<close>

lemma two_frames_open: "BufferPool_new page_file_store empty_page_file 2 = two_frames"
  by (simp add: two_frames_def)

text \<open>Into the empty pool of two frames, a page is created without the store.\<close>

lemma two_frames_new: "new_page ops pid two_frames s = (Inr 1, one_page_at pid, s)"
  by (simp add: one_page_at_def new_page_def take_slot_def two_frames(2,4))

lemma one_page_at_dirty:
  assumes "addressable 4096 pid"
  shows "fr_dirty (frame_at (one_page_at pid) 1)"
proof -
  have "bp_map (one_page_at pid) pid = Some 1" using one_page_at(2)[OF assms] by simp
  from new_page_dirty[OF one_page_at_new pool_inv_slots[OF one_page_at(1)[OF assms]] this] show ?thesis .
qed

text \<open>Writing that page out on a reliable file.\<close>

lemma flush_one_page:
  assumes "pf_good 4096 pf" and "addressable 4096 pid"
  obtains bp' pf' where "flush_slot page_file_store 1 pid (one_page_at pid) pf = (Inr (), bp', pf')" "pf_good 4096 pf'"
    "pf_view 4096 pf' pid = Some (stamp_bytes (pid_get pid) (blank_bytes 4096))"
proof -
  note bp = one_page_at[OF assms(2)]
  note sl = slots_inv_D[OF pool_inv_slots[OF bp(1)]]
  have map: "bp_map (one_page_at pid) pid = Some 1" using bp(2) by simp
  have wf: "page_wf 4096 (fr_page (frame_at (one_page_at pid) 1))" by (rule sl(4)[OF sl(5)[OF map]])
  obtain r p' pf' where w: "so_write_page page_file_store pf pid (fr_page (frame_at (one_page_at pid) 1)) = (r, p', pf')"
    by (metis prod_cases3)
  have r: "r = Inr ()" by (rule pfr.write_total[OF assms(1) wf assms(2) w])
  moreover have "pf_good 4096 pf'" using pfr.write_frame[OF assms(1) wf assms(2) w] by simp
  moreover have "pf_view 4096 pf' pid = Some (stamp_bytes (pid_get pid) (blank_bytes 4096))"
    using pfr.write_ok[OF assms(1) wf assms(2) w[unfolded r]] wf bp(5) by (simp add: as_bytes_stamp)
  ultimately show thesis
    using that w one_page_at_dirty[OF assms(2)] by (simp add: flush_slot_def)
qed

lemma db_step_first:
  assumes "db_pool db = two_frames" and "pid_get pid \<in> live_ids (db_alloc db)"
  shows "db_step n db (Some (Page (Wrote pid (as_bytes (guard_read (one_page_at pid) 1)))))
    (db\<lparr>db_pool := one_page_at pid, db_file := db_file db, db_created := insert pid (db_created db),
       db_touched := insert (pid_get pid) (db_touched db)\<rparr>)"
  by (rule db_step.created[OF assms(2)]) (simp add: assms(1) two_frames_new)

text \<open>
  Id 1 is handed out, its page created, and freed while it is dirty and pinned; a sync
  writes a link over its slot; then the id is handed out and its page created again.
\<close>

lemma reuse_run:
  "\<exists>b1 b2 db'. db_run 4096 (db_open 2 empty_page_file fresh_alloc {})
     [Page (Wrote (PageId 1) b1), Gone (PageId 1), Page (Wrote (PageId 1) b2)] db' \<and> db_created db' = {PageId 1}"
proof -
  let ?a = "fresh_alloc\<lparr>next_new := 2\<rparr>" and ?bp = "one_page_at (PageId 1)"
  let ?b = "?a\<lparr>free_list := [1]\<rparr>"
  define db0 where "db0 = db_open 2 empty_page_file fresh_alloc {}"
  have db0: "db_pool db0 = two_frames" "db_alloc db0 = fresh_alloc" "db_file db0 = empty_page_file" "db_created db0 = {}"
    by (simp_all add: db0_def db_open_def two_frames_open)
  have "db_step 4096 db0 None (db0\<lparr>db_alloc := ?a\<rparr>)"
    by (rule db_step.allocated[of _ "Inr (PageId 1)"])
      (simp_all add: db0 allocate_def checked_add_def NO_PAGE_def Let_def addressable_def)
  note 1 = this
  define db2 where "db2 = db0\<lparr>db_alloc := ?a, db_pool := ?bp, db_file := empty_page_file,
    db_created := {PageId 1}, db_touched := insert 1 (db_touched db0)\<rparr>"
  have "1 \<in> live_ids ?a" by (simp add: live_ids_def)
  then have 2: "db_step 4096 (db0\<lparr>db_alloc := ?a\<rparr>) (Some (Page (Wrote (PageId 1) (as_bytes (guard_read ?bp 1))))) db2"
    using db_step_first[of "db0\<lparr>db_alloc := ?a\<rparr>" "PageId 1" 4096] unfolding db2_def by (simp add: db0)
  have 3: "db_step 4096 db2 (Some (Gone (PageId 1))) (db2\<lparr>db_alloc := ?b, db_created := {}\<rparr>)"
    using db_step.freed[of "PageId 1" db2 ?b 4096]
    by (simp add: db2_def db0 live_ids_def free_def word_le_nat_alt)
  have b: "alloc_inv ?b" "page_wf 4096 (scratch ?b)" "\<forall>i \<in> set (free_list ?b). addressable 4096 (PageId i)"
    "addressable 4096 (PageId 0)" "pf_good 4096 empty_page_file"
    by (simp_all add: alloc_inv_def addressable_def pf_good_def)
  obtain c pf where sy: "PageAllocator_sync page_file_store ?b empty_page_file = (Inr (), c, pf)"
    using pfr.sync_total'[OF b(5,2,1,4,3)] by blast
  have c: "free_list c = [1]" "next_new c = 2"
    using pfr.alloc_sync_correct(3,4)[OF sy b(5,2,1,4,3)] by simp_all
  define db4 where "db4 = db2\<lparr>db_alloc := ?b, db_created := {}\<rparr>\<lparr>db_alloc := c, db_file := pf,
    db_saved := Some ?b, db_touched := pid_get ` busy ?bp\<rparr>"
  have 4: "db_step 4096 (db2\<lparr>db_alloc := ?b, db_created := {}\<rparr>) None db4"
    using db_step.synced[of "db2\<lparr>db_alloc := ?b, db_created := {}\<rparr>" c pf 4096] sy
    by (simp add: db4_def db2_def db0)
  have 5: "db_step 4096 db4 None (db4\<lparr>db_alloc := c\<lparr>free_list := []\<rparr>\<rparr>)"
    by (rule db_step.allocated[of _ "Inr (PageId 1)"]) (simp_all add: db4_def c allocate_def addressable_def)
  obtain bp2 where "new_page page_file_store (PageId 1) ?bp pf = (Inr 1, bp2, pf)"
    using one_page_at(2)[of "PageId 1"] by (simp add: new_page_def addressable_def)
  moreover define db5 where "db5 = db4\<lparr>db_alloc := c\<lparr>free_list := []\<rparr>\<rparr>"
  ultimately have again: "pid_get (PageId 1) \<in> live_ids (db_alloc db5)"
    "new_page page_file_store (PageId 1) (db_pool db5) (db_file db5) = (Inr 1, bp2, pf)" and gone: "db_created db5 = {}"
    by (simp_all add: db4_def db2_def live_ids_def c)
  note 6 = db_step.created[OF again]
  from db_silent[OF 1 db_event[OF 2 db_event[OF 3 db_silent[OF 4 db_silent[OF 5[folded db5_def] db_event[OF 6 db_stop]]]]]]
  show ?thesis using gone by (fastforce simp: db0_def)
qed

lemma fresh_alloc_addressable [simp]: "addressable 4096 (PageId (next_new fresh_alloc))"
  by (simp add: addressable_def)

text \<open>Over a database with the ids 1 and 2 of which 1 is free, the page of 2 is created.\<close>

lemma two_ids_addressable: "addressable 4096 (PageId (next_new two_ids))" "addressable 4096 (PageId 2)"
  using two_ids(4,7,9) by simp_all

lemma two_ids_step:
  assumes "live_ids st = live_ids two_ids"
  shows "db_step 4096 (db_open 2 empty_page_file two_ids {}\<lparr>db_alloc := st, db_file := pf, db_saved := sv\<rparr>)
    (Some (Page (Wrote (PageId 2) (as_bytes (guard_read (one_page_at (PageId 2)) 1)))))
    (db_open 2 empty_page_file two_ids {}\<lparr>db_alloc := st, db_file := pf, db_saved := sv,
       db_pool := one_page_at (PageId 2), db_created := {PageId 2}, db_touched := {2}\<rparr>)"
proof -
  have "2 \<in> live_ids st" unfolding assms by (simp add: live_ids_def two_ids_def)
  then show ?thesis
    using db_step_first[of "db_open 2 empty_page_file two_ids {}\<lparr>db_alloc := st, db_file := pf, db_saved := sv\<rparr>" "PageId 2" 4096]
    by (simp add: db_open_def two_frames_open)
qed

section \<open>Properties\<close>

text \<open>C4: the pool and the allocator over one file, in every interleaving of their calls and with
  any failures: each page shows what was last written or seen at its id since the id was handed
  out, and so does the page in the pool at the end.  A page may be freed while it is dirty or
  pinned, and its id handed out again: the allocator's links and stale frames never show
  through.  The clients name to the pool and free only ids in use and, after an id was handed out,
  create its page before they fetch it; ids stay addressable.\<close>

theorem shared_runs_are_consistent:
  assumes "db_run n (db_open c pf st pages) es db'" and "pf_inv n pf" and "alloc_inv st"
    and "page_wf n (scratch st)" and "addressable n (PageId (next_new st))"
    and "\<forall>i \<in> pages. pid_get i \<in> live_ids st"
  shows "db_consistent Map.empty es \<and> alloc_inv (db_alloc db') \<and> slots_inv n {} (db_pool db')
    \<and> (\<forall>i \<in> db_created db'. pid_get i \<in> live_ids (db_alloc db'))
    \<and> (\<forall>m. db_replay Map.empty es = Some m \<longrightarrow> (\<forall>i \<in> db_created db'. \<forall>bs. m i = Some bs \<longrightarrow>
        pool_view (pf_view n (db_file db')) (db_pool db') i = Some bs))"
proof -
  obtain g m where replay: "db_replay Map.empty es = Some m" and inv: "db_inv n g m db'"
    using db_run_inv[OF assms(1) db_open_inv[OF assms(2-6)]] by blast
  note d = db_inv_D[OF inv]
  have "pool_view (pf_view n (db_file db')) (db_pool db') i = Some bs" if "i \<in> db_created db'" "m i = Some bs" for i bs
    using d(9)[OF that(2)] d(6)[OF that(1)] by (simp add: pool_view_def split: option.splits)
  then show ?thesis
    using replay d(3,5) pool_inv_slots[OF d(2)] by (auto simp: db_consistent_def)
qed

theorem shared_runs_are_consistent_witness:
  "\<exists>b1 b2 db'. db_run 4096 (db_open 2 empty_page_file fresh_alloc {})
      [Page (Wrote (PageId 1) b1), Gone (PageId 1), Page (Wrote (PageId 1) b2)] db'
     \<and> pool_view (pf_view 4096 (db_file db')) (db_pool db') (PageId 1) = Some (stamp_bytes 1 b2)"
proof -
  obtain b1 b2 db' where run: "db_run 4096 (db_open 2 empty_page_file fresh_alloc {})
      [Page (Wrote (PageId 1) b1), Gone (PageId 1), Page (Wrote (PageId 1) b2)] db'" "db_created db' = {PageId 1}"
    using reuse_run by blast
  from shared_runs_are_consistent[OF run(1) empty_page_file(1) fresh_alloc(1,2) fresh_alloc_addressable] run
  show ?thesis by auto
qed

text \<open>C11: after a sync of the allocator that returned Ok, and until the next sync, no call of the
  pool or the allocator disturbs the saved superblock and chain: the file opens to exactly the saved
  state, unless the device fails.  This is for as long as none of the ids that were free then
  has its page created again, and if none of their pages was dirty or pinned in the pool at that sync.\<close>

theorem saved_state_survives_the_pool:
  assumes "db_run n (db_open c pf st pages) es db'" and "pf_inv n pf" and "alloc_inv st"
    and "page_wf n (scratch st)" and "addressable n (PageId (next_new st))"
    and "\<forall>i \<in> pages. pid_get i \<in> live_ids st"
    and "db_saved db' = Some D" and "set (free_list D) \<inter> db_touched db' = {}"
    and "PageAllocator_new page_file_store (db_file db') = (r, pf2)"
  shows "(\<exists>st'. r = Inr st' \<and> free_list st' = free_list D \<and> next_new st' = next_new D)
    \<or> (\<not> benign (pf_sched (db_file db')) \<and> (\<exists>e. r = Inl (Io e)))"
proof -
  obtain g m where inv: "db_inv n g m db'" and saved: "saved_inv n db'"
    using db_run_inv[OF assms(1) db_open_inv[OF assms(2-6)]] by blast
  note d = db_inv_D[OF inv]
  have D: "alloc_inv D" "next_new D \<le> next_new (db_alloc db')" "stored_state (pf_view n (db_file db')) D"
    using saved assms(7,8) by (auto simp: saved_inv_def)
  have "addressable n (PageId i)" if "i < next_new D" for i
    using d(11)[of "PageId i"] D(2) that by simp
  then have "addressable n (PageId 0)" "\<forall>i \<in> set (free_list D). addressable n (PageId i)"
    using D(1) by (auto simp: alloc_inv_def word_le_nat_alt word_less_nat_alt)
  from open_stored[OF assms(9) d(1) D(1) this D(3)] show ?thesis .
qed

text \<open>The file a crash leaves behind: what stable storage holds, on a device that works again.\<close>

definition after_crash :: "page_file \<Rightarrow> page_file" where
  "after_crash pf = pf\<lparr>pf_file := (pf_file pf)\<lparr>f_data := f_durable (pf_file pf), f_sched := []\<rparr>\<rparr>"

lemma allocator_sync_durable:
  assumes "PageAllocator_sync page_file_store st pf = (Inr (), st', pf')" and "pf_inv n pf'"
  shows "pf_good n (after_crash pf')" and "pf_view n (after_crash pf') = pf_view n pf'"
proof -
  obtain pf1 where y: "PageFile_sync pf1 = (Inr (), pf')"
    using assms(1) by (auto simp: PageAllocator_sync_def page_file_store_def split: prod.splits sum.splits)
  have durable: "f_durable (pf_file pf') = pf_data pf'" using sync_correct(2,5)[OF y] by simp
  then show "pf_good n (after_crash pf')"
    using assms(2) by (simp add: pf_good_def after_crash_def pf_inv_def benign_def)
  show "pf_view n (after_crash pf') = pf_view n pf'"
    using durable by (intro pf_view_cong) (simp add: after_crash_def)
qed

lemma two_ids_saved:
  obtains st' pf where "PageAllocator_sync page_file_store two_ids empty_page_file = (Inr (), st', pf)"
    "pf_good 4096 pf" "stored_state (pf_view 4096 pf) two_ids" "pf_view 4096 (after_crash pf) = pf_view 4096 pf"
    "live_ids st' = live_ids two_ids"
proof -
  have good: "pf_good 4096 empty_page_file" by (simp add: pf_good_def)
  obtain st' pf where sy: "PageAllocator_sync page_file_store two_ids empty_page_file = (Inr (), st', pf)"
    using pfr.sync_total'[OF good two_ids(2,1,6,8)] by blast
  note c = pfr.alloc_sync_correct[OF sy good two_ids(2,1,6,8)]
  have "pf_inv 4096 pf" using c(1) by (simp add: pf_good_def)
  from that[OF sy c(1) c(5)[OF refl] allocator_sync_durable(2)[OF sy this]] c(3,4) show thesis
    by (simp add: live_ids_def)
qed

theorem saved_state_survives_the_pool_witness:
  "\<exists>bs db' b st' pf2. db_run 4096 (db_open 2 empty_page_file two_ids {}) [Page (Wrote (PageId 2) bs)] db'
     \<and> db_saved db' = Some two_ids \<and> pf_view 4096 (db_file db') (PageId 2) = Some b
     \<and> PageAllocator_new page_file_store (db_file db') = (Inr st', pf2) \<and> free_list st' = [1]"
proof -
  let ?db = "db_open 2 empty_page_file two_ids {}" and ?bp = "one_page_at (PageId 2)"
  obtain a' pf where saved: "PageAllocator_sync page_file_store two_ids empty_page_file = (Inr (), a', pf)"
    "pf_good 4096 pf" "live_ids a' = live_ids two_ids"
    by (rule two_ids_saved)
  have "busy two_frames = {}" by (simp add: busy_def two_frames(2))
  then have "db_step 4096 ?db None (?db\<lparr>db_alloc := a', db_file := pf, db_saved := Some two_ids\<rparr>)"
    using db_step.synced[of ?db a' pf 4096] saved(1) by (simp add: db_open_def two_frames_open)
  note 1 = this
  note 2 = two_ids_step[OF saved(3), where pf = pf and sv = "Some two_ids"]
  obtain bp' pf' where fl: "flush_slot page_file_store 1 (PageId 2) ?bp pf = (Inr (), bp', pf')" "pf_good 4096 pf'"
    "pf_view 4096 pf' (PageId 2) = Some (stamp_bytes 2 (blank_bytes 4096))"
    using flush_one_page[OF saved(2) two_ids_addressable(2)] by auto
  define db2 where "db2 = ?db\<lparr>db_alloc := a', db_file := pf, db_saved := Some two_ids,
       db_pool := ?bp, db_created := {PageId 2}, db_touched := {2}\<rparr>"
  have "flush page_file_store (PageId 2) (db_pool db2) (db_file db2) = (Inr (), bp', pf')"
    using fl(1) one_page_at(2)[OF two_ids_addressable(2)] by (simp add: flush_def db2_def)
  from db_step.accessed[OF pool_step.flush_one[OF this]]
  have 3: "db_step 4096 db2 None (db2\<lparr>db_pool := bp', db_file := pf'\<rparr>)" by simp
  let ?db' = "db2\<lparr>db_pool := bp', db_file := pf'\<rparr>"
  note run = db_silent[OF 1 db_event[OF 2[folded db2_def] db_silent[OF 3 db_stop]]]
  obtain r pf2 where new: "PageAllocator_new page_file_store (db_file ?db') = (r, pf2)" by (metis prod.exhaust)
  have "db_saved ?db' = Some two_ids" "set (free_list two_ids) \<inter> db_touched ?db' = {}"
    by (simp_all add: db2_def two_ids(3))
  from saved_state_survives_the_pool[OF run empty_page_file(1) two_ids(1,2) two_ids_addressable(1) _ this new]
  have "\<exists>st'. r = Inr st' \<and> free_list st' = [1]"
    using fl(2) two_ids(3) by (auto simp: pf_good_def)
  then show ?thesis using run new fl(3) by (fastforce simp: db2_def)
qed

text \<open>C5: the checkpoint of the whole database, at any point of its run: when the pool's checkpoint and
  then the allocator's sync have returned Ok, a crash loses nothing: the file it leaves opens with
  the same free list and high-water mark, and holds of every id in use the page that was last
  written or seen there, and the page the pool had.\<close>

theorem checkpoint_then_sync_survives_crash:
  assumes "db_run n (db_open c pf st pages) es db'" and "pf_inv n pf" and "alloc_inv st"
    and "page_wf n (scratch st)" and "addressable n (PageId (next_new st))"
    and "\<forall>i \<in> pages. pid_get i \<in> live_ids st"
    and "checkpoint page_file_store xs (db_pool db') (db_file db') = (Inr (), bp', pf1)"
    and "entry_order (db_pool db') xs"
    and "PageAllocator_sync page_file_store (db_alloc db') pf1 = (Inr (), st', pf2)"
  shows "(\<exists>st2 pf3. PageAllocator_new page_file_store (after_crash pf2) = (Inr st2, pf3)
      \<and> free_list st2 = free_list (db_alloc db') \<and> next_new st2 = next_new (db_alloc db'))
    \<and> (\<exists>m. db_replay Map.empty es = Some m \<and> (\<forall>i \<in> db_created db'. \<forall>bs.
        m i = Some bs \<or> pool_view (pf_view n (db_file db')) (db_pool db') i = Some bs \<longrightarrow>
        pf_view n (after_crash pf2) i = Some bs))"
proof -
  obtain g m where inv: "db_inv n g m db'" and m: "db_replay Map.empty es = Some m"
    using db_run_inv[OF assms(1) db_open_inv[OF assms(2-6)]] by blast
  note d = db_inv_D[OF inv]
  obtain g' where lift: "checkpoint (ghost_ops page_file_store) xs (db_pool db') (db_file db', g) = (Inr (), bp', (pf1, g'))"
    and le: "g' \<subseteq>\<^sub>m g"
    using checkpoint_lift[OF assms(7)] by blast
  note ck = gpf.checkpoint_kept[where s = "(db_file db', g)" and s' = "(pf1, g')", simplified,
      OF lift assms(8) d(2,1,10)]
  have zero: "addressable n (PageId 0)" using d(13) by (rule addressable_mono) simp
  have ids: "\<forall>i \<in> set (free_list (db_alloc db')). addressable n (PageId i)"
    using d(3) d(11)[of "PageId i" for i] by (auto simp: alloc_inv_def)
  note c = pf.alloc_sync_correct[OF assms(9) _ d(4,3) zero ids]
  have inv1: "pf_inv n pf1" using ck(1) by simp
  note crash = allocator_sync_durable[OF assms(9) c(1)[OF inv1]]
  obtain r pf3 where new: "PageAllocator_new page_file_store (after_crash pf2) = (r, pf3)" by (metis prod.exhaust)
  have stored: "stored_state (pf_view n (after_crash pf2)) (db_alloc db')" using c(5)[OF inv1] crash(2) by simp
  have "\<exists>st2 pf3. PageAllocator_new page_file_store (after_crash pf2) = (Inr st2, pf3)
      \<and> free_list st2 = free_list (db_alloc db') \<and> next_new st2 = next_new (db_alloc db')"
    using pfr.new_stored(1)[OF new crash(1) d(3) zero ids stored] pfr.no_read_failure new by blast
  moreover have "pf_view n (after_crash pf2) i = Some bs"
    if i: "i \<in> db_created db'" and bs: "m i = Some bs \<or> pool_view (pf_view n (db_file db')) (db_pool db') i = Some bs" for i bs
  proof -
    note live = d(5)[OF i] and addr = d(12)[OF d(5)[OF i]]
    have g: "g i = None" "g' i = None" using d(6)[OF i] map_le_None[OF le] by blast+
    have "pool_view (ghost_view n (pf_view n (db_file db')) g) (db_pool db') i = Some bs"
      using bs d(9)[of i bs] g(1) by (auto simp: pool_view_def split: option.splits)
    then have "pool_view (ghost_view n (pf_view n pf1) g') bp' i = Some bs"
      using ck(2) addr by (simp add: kept_def keeps_def)
    then have "pf_view n pf1 i = Some bs" using ck(4) g(2) by simp
    then show ?thesis using c(7)[OF inv1 addr] live crash(2) by (auto simp: live_ids_def u64_ge_1_iff)
  qed
  ultimately show ?thesis using m by blast
qed

theorem checkpoint_then_sync_survives_crash_witness:
  "\<exists>bs db' xs bp' pf1 st' pf2 st2 pf3. db_run 4096 (db_open 2 empty_page_file two_ids {}) [Page (Wrote (PageId 2) bs)] db'
     \<and> checkpoint page_file_store xs (db_pool db') (db_file db') = (Inr (), bp', pf1)
     \<and> PageAllocator_sync page_file_store (db_alloc db') pf1 = (Inr (), st', pf2)
     \<and> PageAllocator_new page_file_store (after_crash pf2) = (Inr st2, pf3) \<and> free_list st2 = [1]
     \<and> pf_view 4096 (after_crash pf2) (PageId 2) = Some (stamp_bytes 2 bs)"
proof -
  let ?bp = "one_page_at (PageId 2)"
  let ?db = "db_open 2 empty_page_file two_ids {}\<lparr>db_alloc := two_ids, db_file := empty_page_file, db_saved := None\<rparr>"
  have good: "pf_good 4096 empty_page_file" by (simp add: pf_good_def)
  note a2 = two_ids_addressable(2)
  note bp = one_page_at[OF a2]
  have same: "?db = db_open 2 empty_page_file two_ids {}" by (simp add: db_open_def)
  note run = db_event[OF two_ids_step[OF refl, where pf = empty_page_file and sv = None] db_stop, unfolded same]
  define db' where "db' = db_open 2 empty_page_file two_ids {}\<lparr>db_pool := ?bp, db_created := {PageId 2}, db_touched := {2}\<rparr>"
  have db': "db_pool db' = ?bp" "db_file db' = empty_page_file" "db_alloc db' = two_ids" "db_created db' = {PageId 2}"
    by (simp_all add: db'_def db_open_def)
  obtain bp1 pf1 where fl: "flush_slot page_file_store 1 (PageId 2) ?bp empty_page_file = (Inr (), bp1, pf1)" "pf_good 4096 pf1"
    by (rule flush_one_page[OF good a2])
  obtain r pf2 where y: "so_sync page_file_store pf1 = (r, pf2)" by (metis prod.exhaust)
  have "r = Inr ()" by (rule pfr.sync_total[OF fl(2) y])
  then have ck: "checkpoint page_file_store [(PageId 2, 1)] (db_pool db') (db_file db') = (Inr (), bp1, pf2)"
    using fl(1) y by (simp add: checkpoint_def flush_all_def pool_sync_def db')
  have order: "entry_order (db_pool db') [(PageId 2, 1)]" using bp(4) by (simp add: db')
  have good2: "pf_good 4096 pf2" using pfr.sync_frame[OF fl(2) y] by simp
  obtain st' pf3 where sy: "PageAllocator_sync page_file_store (db_alloc db') pf2 = (Inr (), st', pf3)"
    using pfr.sync_total'[OF good2 two_ids(2,1,6,8)] by (auto simp: db')
  from checkpoint_then_sync_survives_crash[OF run[folded db'_def] empty_page_file(1) two_ids(1,2) two_ids_addressable(1) _ ck order sy]
    run[folded db'_def] ck sy
  show ?thesis by (fastforce simp: db' two_ids(3))
qed

text \<open>C12: the other order is not safe.  After a sync of the allocator, the pool writes out the page of
  an id that is on the saved free list (one freed while dirty, or handed out again since), at any place
  of the list, and so overwrites its link, by c, the bytes that the page has there.  If c happens to be the link
  that was there, the file opens as saved; if not, it never opens to the saved free list;
  and if then c is not the id of a page in use, or the page was the last of the list, it does not
  open at all: InvalidSuperblock, or the error of a failing device.\<close>

theorem late_flush_blocks_open:
  assumes "PageAllocator_sync page_file_store st pf = (Inr (), st', pf1)"
    and "pf_inv n pf" and "alloc_inv st" and "page_wf n (scratch st)" and "addressable n (PageId (next_new st))"
    and "free_list st = xs @ i # ys"
    and "slots_inv n {} bp" and "bp_map bp (PageId i) = Some slot" and "fr_dirty (frame_at bp slot)"
    and "c = read_u64 (payload (fr_page (frame_at bp slot))) LINK_NEXT_OFF"
    and "flush page_file_store (PageId i) bp pf1 = (Inr (), bp', pf2)"
    and "PageAllocator_new page_file_store pf2 = (r, pf3)"
  shows "(c = first_or_none ys \<longrightarrow>
      (\<exists>st2. r = Inr st2 \<and> free_list st2 = free_list st \<and> next_new st2 = next_new st) \<or> io_failure pf2 r)
    \<and> (c \<noteq> first_or_none ys \<longrightarrow> (\<forall>st2. r = Inr st2 \<longrightarrow> free_list st2 \<noteq> free_list st))
    \<and> (c \<noteq> first_or_none ys \<and> (ys = [] \<or> c \<notin> live_ids st) \<longrightarrow> r = Inl InvalidSuperblock \<or> io_failure pf2 r)"
proof -
  have addr: "addressable n (PageId j)" if "j < next_new st" for j
    using assms(5) that by (elim addressable_mono) (simp add: word_less_nat_alt)
  then have ids: "\<forall>j \<in> set (free_list st). addressable n (PageId j)" and zero: "addressable n (PageId 0)"
    using assms(3) by (auto simp: alloc_inv_def word_le_nat_alt word_less_nat_alt)
  have i: "addressable n (PageId i)" "i \<noteq> 0" "i \<notin> set xs" "i \<notin> set ys"
    using ids assms(3,6) by (auto simp: alloc_inv_def u64_ge_1_iff)
  note s = pf.alloc_sync_correct[OF assms(1,2,4,3) zero ids]
  let ?p = "fr_page (frame_at bp slot)"
  note sl = slots_inv_D[OF assms(7)]
  have wf: "page_wf n ?p" by (rule sl(4)[OF sl(5)[OF assms(8)]])
  obtain p' where w: "so_write_page page_file_store pf1 (PageId i) ?p = (Inr (), p', pf2)"
    using assms(8,9,11) by (auto simp: flush_def flush_slot_def split: prod.splits sum.splits)
  have page: "pf_view n pf2 (PageId i) = Some (as_bytes (stamp (PageId i) ?p))"
    by (rule pf.write_ok[OF s(1) wf i(1) w])
  have other: "pf_view n pf2 (PageId j) = Some bs"
    if "pf_view n pf1 (PageId j) = Some bs" "j \<noteq> i" "addressable n (PageId j)" for j bs
    using pf.write_other[OF s(1) wf i(1) w that(3)] that(1,2) by simp
  have link: "link_of (as_bytes (stamp (PageId i) ?p)) = c"
    unfolding assms(10) by (simp add: link_of_def payload_stamped[OF wf])
  have old: "linked_to (pf_view n pf1) (xs @ [i]) (first_or_none ys)" "linked (pf_view n pf1) ys"
    using s(5) assms(6) linked_to_append[of "pf_view n pf1" "xs @ [i]" ys NO_PAGE] by (simp_all add: stored_state_def)
  have chain: "linked_to (pf_view n pf2) (xs @ [i]) c" unfolding link[symmetric]
  proof (rule linked_to_overwrite[where w = "pf_view n pf2" and v = "pf_view n pf1", OF old(1) page])
    show "\<And>j bs. j \<in> set xs \<Longrightarrow> pf_view n pf1 (PageId j) = Some bs \<Longrightarrow> pf_view n pf2 (PageId j) = Some bs"
      using other ids i(3) assms(6) by auto
  qed
  have rest: "linked (pf_view n pf2) ys"
    using other ids i(4) assms(6) by (intro linked_mono[OF _ old(2)]) auto
  obtain b where "pf_view n pf1 (PageId 0) = Some b"
    and block: "is_superblock (first_or_none (free_list st)) (next_new st) (free_count st) (drop PAGE_HEADER_SIZE b)"
    using s(5) by (auto simp: stored_state_def)
  then have zero2: "pf_view n pf2 (PageId 0) = Some b" using other i(2) zero by simp
  have inv2: "pf_inv n pf2" using pf.write_frame[OF s(1) wf i(1) w] by simp
  note os = open_spliced[OF assms(12) inv2 assms(3) addr assms(6) zero2 block chain rest]
  show ?thesis using os by blast
qed

theorem late_flush_blocks_open_witness:
  "\<exists>st' pf1 bp' pf2 r pf3. PageAllocator_sync page_file_store two_ids empty_page_file = (Inr (), st', pf1)
    \<and> flush page_file_store (PageId 1) (one_page_at (PageId 1)) pf1 = (Inr (), bp', pf2)
    \<and> PageAllocator_new page_file_store pf2 = (r, pf3) \<and> r = Inl InvalidSuperblock"
proof -
  let ?bp = "one_page_at (PageId 1)"
  have a1: "addressable 4096 (PageId 1)" using two_ids(9) by simp
  obtain st' pf1 where sy: "PageAllocator_sync page_file_store two_ids empty_page_file = (Inr (), st', pf1)" "pf_good 4096 pf1"
    by (rule two_ids_saved)
  obtain bp' pf2 where fl: "flush_slot page_file_store 1 (PageId 1) ?bp pf1 = (Inr (), bp', pf2)" "pf_good 4096 pf2"
    by (rule flush_one_page[OF sy(2) a1])
  note bp = one_page_at[OF a1]
  have map: "bp_map ?bp (PageId 1) = Some 1" using bp(2) by simp
  have flush: "flush page_file_store (PageId 1) ?bp pf1 = (Inr (), bp', pf2)" using fl(1) map by (simp add: flush_def)
  have "payload (fr_page (frame_at ?bp 1)) = replicate (4096 - 32) 0"
    using bp(5) by (simp add: payload_def blank_bytes_def offset_defs drop_write length_write)
  then have "0 = read_u64 (payload (fr_page (frame_at ?bp 1))) LINK_NEXT_OFF"
    by (simp add: LINK_NEXT_OFF_def read_u64_def)
  note link = this
  obtain r pf3 where new: "PageAllocator_new page_file_store pf2 = (r, pf3)" by (metis prod.exhaust)
  have "(0::u64) \<noteq> first_or_none []" by (simp add: first_or_none_def NO_PAGE_def)
  with late_flush_blocks_open[OF sy(1) empty_page_file(1) two_ids(1,2) two_ids_addressable(1) two_ids(3)
      pool_inv_slots[OF bp(1)] map one_page_at_dirty[OF a1] link flush new]
  have "r = Inl InvalidSuperblock" using fl(2) by (simp add: pf_good_def)
  then show ?thesis using sy(1) flush new by blast
qed

end
