(* ===== verification/Crash.thy ===== *)
theory Crash
  imports SharedStore
begin

text \<open>
  What is left when \<^verbatim>\<open>PageAllocator::sync\<close> (\<^verbatim>\<open>src/alloc.rs\<close>) does not get to its end: the device
  fails half-way, or the machine crashes before the flush and stable storage keeps any part
  of the pages written.  \<^verbatim>\<open>sync\<close> writes the links of the free pages and then the superblock,
  in place and with no flush between, so what was saved before and what was being saved mix.
\<close>

section \<open>Chains that mix\<close>



section \<open>What the writes of a sync leave alone\<close>



section \<open>Crash images\<close>






section \<open>Properties\<close>







end
