(* ===== verification/FuzzTargets.thy ===== *)
theory FuzzTargets
  imports Allocator
begin

text \<open>
  The fuzz targets of the repository (\<^verbatim>\<open>fuzz/fuzz_targets/\<close>) and what they test, for
  every input: the assertions of \<^verbatim>\<open>page_parse\<close> never fail, and opening the allocator on
  the input of \<^verbatim>\<open>allocator_open\<close> never collects more than the input holds.
\<close>

section \<open>page_parse\<close>

text \<open>An assertion that fails, or an \<^verbatim>\<open>expect\<close> on an error, panics with its message.\<close>

datatype fuzz_outcome = Finished | Panicked string

definition drive :: "bytes \<Rightarrow> nat \<Rightarrow> fuzz_outcome" where
  "drive data sz =
    (case PageSize_new sz of
       Inl _ \<Rightarrow> Finished
     | Inr ps \<Rightarrow>
         let n = min (length data) sz;
             buf = splice 0 (take n data) (replicate sz 0)
         in case Page_from_bytes ps buf of
              Inl _ \<Rightarrow> Finished
            | Inr page \<Rightarrow>
                (case Page_from_bytes ps (to_checksummed_bytes page) of
                   Inl _ \<Rightarrow> Panicked ''round-trip must verify''
                 | Inr reparsed \<Rightarrow>
                     if Page_id reparsed \<noteq> Page_id page then Panicked ''id''
                     else if Page_lsn reparsed \<noteq> Page_lsn page then Panicked ''lsn''
                     else if payload reparsed \<noteq> payload page then Panicked ''payload''
                     else Finished))"

definition fuzz_page_parse :: "bytes \<Rightarrow> fuzz_outcome" where
  "fuzz_page_parse data =
    (let _ = crc32c data
     in case drive data 4096 of
          Panicked m \<Rightarrow> Panicked m
        | Finished \<Rightarrow> drive data 8192)"

section \<open>allocator_open\<close>

definition FUZZ_PAGE_SIZE :: nat where "FUZZ_PAGE_SIZE = 4096"

record fuzz_store =
  fz_pages :: "u64 \<Rightarrow> bytes option"

text \<open>\<^verbatim>\<open>slice::chunks\<close>.\<close>

fun chunks :: "nat \<Rightarrow> 'a list \<Rightarrow> 'a list list" where
  "chunks n xs = (if n = 0 \<or> xs = [] then [] else take n xs # chunks n (drop n xs))"

declare chunks.simps [simp del]

definition FuzzStore_from_input :: "bytes \<Rightarrow> fuzz_store" where
  "FuzzStore_from_input data =
    (let payload_len = FUZZ_PAGE_SIZE - PAGE_HEADER_SIZE
     in \<lparr>fz_pages = fold (\<lambda>(i, chunk) pages. pages(of_nat i \<mapsto> chunk))
           (List.enumerate 0 (chunks payload_len data)) Map.empty\<rparr>)"

definition FuzzStore_allocate_page :: "fuzz_store \<Rightarrow> page" where
  "FuzzStore_allocate_page fz = Page_new (projr (PageSize_new FUZZ_PAGE_SIZE))"

definition FuzzStore_read_into :: "fuzz_store \<Rightarrow> page_id \<Rightarrow> page \<Rightarrow> unit page_result \<times> page \<times> fuzz_store" where
  "FuzzStore_read_into fz pid p =
    (case fz_pages fz (pid_get pid) of
       Some pl \<Rightarrow>
         (Inr (), payload_mut (\<lambda>dst. splice 0 (take (min (length pl) (length dst)) pl) dst) p, fz)
     | None \<Rightarrow> (Inl (ShortRead (pid_get pid) 0 FUZZ_PAGE_SIZE), p, fz))"

definition FuzzStore_write_page :: "fuzz_store \<Rightarrow> page_id \<Rightarrow> page \<Rightarrow> unit page_result \<times> page \<times> fuzz_store" where
  "FuzzStore_write_page fz pid p = (Inr (), p, fz)"

definition FuzzStore_sync :: "fuzz_store \<Rightarrow> unit page_result \<times> fuzz_store" where
  "FuzzStore_sync fz = (Inr (), fz)"

definition fuzz_store_ops :: "fuzz_store store_ops" where
  "fuzz_store_ops =
    \<lparr>so_page_size = (\<lambda>_. FUZZ_PAGE_SIZE), so_allocate_page = FuzzStore_allocate_page,
     so_read_into = FuzzStore_read_into, so_write_page = FuzzStore_write_page,
     so_sync = FuzzStore_sync\<rparr>"

text \<open>The target; its result here is the allocator's state at the end, if the open succeeded.\<close>

definition fuzz_allocator_open :: "bytes \<Rightarrow> alloc_state option" where
  "fuzz_allocator_open data =
    (case PageAllocator_new fuzz_store_ops (FuzzStore_from_input data) of
       (Inl _, _) \<Rightarrow> None
     | (Inr st, fz) \<Rightarrow>
         let _ = high_water st;
             _ = free_count st;
             st = (case allocate st of
                     (Inl _, st) \<Rightarrow> st
                   | (Inr pid, st) \<Rightarrow> snd (free pid st));
             (_, st, _) = PageAllocator_sync fuzz_store_ops st fz
         in Some st)"

section \<open>The input bounds what is collected\<close>

lemma length_chunks: "0 < n \<Longrightarrow> length (chunks n xs) * n < length xs + n"
proof (induction n xs rule: chunks.induct)
  case (1 n xs)
  show ?case
  proof (cases "xs = []")
    case True
    then show ?thesis using "1.prems" by (simp add: chunks.simps)
  next
    case False
    have "length (chunks n (drop n xs)) * n < length (drop n xs) + n"
      using "1.IH" "1.prems" False by simp
    moreover have "length (drop n xs) + n = max (length xs) n" by simp
    ultimately have "length (chunks n xs) * n < n + max (length xs) n"
      using "1.prems" False by (simp add: chunks.simps[of n xs])
    show ?thesis
    proof (cases "length xs \<le> n")
      case True
      then have "chunks n (drop n xs) = []" by (simp add: chunks.simps)
      then show ?thesis using "1.prems" False by (simp add: chunks.simps[of n xs])
    next
      case big: False
      with \<open>length (chunks n xs) * n < n + max (length xs) n\<close> show ?thesis by simp
    qed
  qed
qed

lemma fuzz_pages_dom:
  "dom (fz_pages (FuzzStore_from_input data)) \<subseteq> of_nat ` {..<length (chunks 4064 data)}"
proof -
  have "dom (fold (\<lambda>(i, c) pages. pages(of_nat i \<mapsto> c)) xs m) \<subseteq> dom m \<union> of_nat ` fst ` set xs"
    for xs :: "(nat \<times> bytes) list" and m :: "u64 \<Rightarrow> bytes option"
    by (induction xs arbitrary: m) (force split: if_splits)+
  note dom = this
  have "fst ` set (List.enumerate 0 (chunks 4064 data)) = {..<length (chunks 4064 data)}"
    unfolding set_map[symmetric] map_fst_enumerate by auto
  with dom[of "List.enumerate 0 (chunks 4064 data)" Map.empty]
  show ?thesis by (simp add: FuzzStore_from_input_def FUZZ_PAGE_SIZE_def PAGE_HEADER_SIZE_def)
qed

lemma fuzz_pages_card:
  "finite (dom (fz_pages (FuzzStore_from_input data)))"
  "card (dom (fz_pages (FuzzStore_from_input data))) \<le> length (chunks 4064 data)"
proof -
  show fin: "finite (dom (fz_pages (FuzzStore_from_input data)))"
    using fuzz_pages_dom finite_subset by blast
  have "card (dom (fz_pages (FuzzStore_from_input data)))
      \<le> card ((of_nat :: nat \<Rightarrow> u64) ` {..<length (chunks 4064 data)})"
    by (intro card_mono fuzz_pages_dom) simp
  also have "\<dots> \<le> length (chunks 4064 data)" by (metis card_image_le card_lessThan finite_lessThan)
  finally show "card (dom (fz_pages (FuzzStore_from_input data))) \<le> length (chunks 4064 data)" .
qed

text \<open>Every id that a walk collects was read.\<close>

lemma fuzz_walk_reads:
  assumes "walk_loop fuzz_store_ops nxt cnt fz sc ids seen cur = (Inr ids', sc', fz')"
    and "set ids \<subseteq> dom (fz_pages fz)"
  shows "set ids' \<subseteq> dom (fz_pages fz)"
  using assms
proof (induction "fuzz_store_ops" nxt cnt fz sc ids seen cur rule: walk_loop.induct)
  case (1 nxt cnt fz sc ids seen cur)
  note run = "1.prems"(1)[unfolded walk_loop.simps[of fuzz_store_ops nxt cnt fz sc ids seen cur]]
  show ?case
  proof (cases "cur \<noteq> NO_PAGE")
    case False
    then show ?thesis using run "1.prems"(2) by (auto split: if_splits)
  next
    case True
    then have g: "\<not> cnt \<le> of_nat (length ids)" "\<not> (cur = 0 \<or> nxt \<le> cur)" "cur \<notin> seen"
      using run by (auto split: if_splits)
    obtain u sc1 where rd: "so_read_into fuzz_store_ops fz (PageId cur) sc = (u, sc1, fz)"
      by (cases "fz_pages fz cur") (auto simp: fuzz_store_ops_def FuzzStore_read_into_def)
    have u: "u = Inr ()" and rest: "walk_loop fuzz_store_ops nxt cnt fz sc1 (ids @ [cur]) (insert cur seen)
        (read_u64 (payload sc1) LINK_NEXT_OFF) = (Inr ids', sc', fz')"
      using run True g rd by (auto split: sum.splits)
    have "cur \<in> dom (fz_pages fz)"
      using rd u by (auto simp: fuzz_store_ops_def FuzzStore_read_into_def split: option.splits)
    then show ?thesis
      using "1.hyps"[OF True g rd[symmetric] u refl rest] "1.prems"(2) by simp
  qed
qed

lemma fuzz_ops_frame:
  "so_write_page fuzz_store_ops fz i p = (Inr (), p, fz)" "so_sync fuzz_store_ops fz = (Inr (), fz)"
  "so_read_into fuzz_store_ops fz i p = (r, p', fz') \<Longrightarrow> fz' = fz"
  by (auto simp: fuzz_store_ops_def FuzzStore_write_page_def FuzzStore_sync_def FuzzStore_read_into_def
      split: option.splits)

text \<open>The free list of an opened allocator was read from the input.\<close>

lemma fuzz_open_reads:
  assumes "PageAllocator_new fuzz_store_ops fz = (Inr st, fz')"
  shows "set (free_list st) \<subseteq> dom (fz_pages fz)"
proof -
  obtain u sc where rd: "so_read_into fuzz_store_ops fz (PageId 0) (so_allocate_page fuzz_store_ops fz) = (u, sc, fz)"
    using fuzz_ops_frame(3) by (metis prod_cases3)
  show ?thesis
  proof (cases u)
    case (Inl e)
    then show ?thesis
      using assms rd
      by (auto simp: PageAllocator_new_def split: page_error.splits sum.splits prod.splits
          dest!: persist_superblock_frame)
  next
    case (Inr v)
    let ?pl = "payload sc"
    obtain w sc1 fz1 where walk: "walk_free_chain fuzz_store_ops fz sc (read_u64 ?pl SB_HEAD_OFF)
        (read_u64 ?pl SB_NEXT_OFF) (read_u64 ?pl SB_FREECOUNT_OFF) = (w, sc1, fz1)"
      by (metis prod_cases3)
    then have "w = Inr (free_list st)"
      using assms rd Inr by (auto simp: PageAllocator_new_def Let_def split: if_splits sum.splits)
    with walk fuzz_walk_reads[of _ _ fz sc "[]" "{}"] show ?thesis
      by (simp add: walk_free_chain_def)
  qed
qed

lemma fuzz_sync_keeps:
  "PageAllocator_sync fuzz_store_ops st fz = (r, st', fz') \<Longrightarrow> alloc_inv st' = alloc_inv st"
  using persist_superblock_frame[of fuzz_store_ops st fz]
  by (auto simp: PageAllocator_sync_def alloc_inv_def split: prod.splits sum.splits)

lemma allocate_then_free:
  assumes "alloc_inv st" and "allocate st = (Inr pid, st1)"
  shows "\<exists>st2. free pid st1 = (Inr (), st2) \<and> alloc_inv st2"
proof -
  note al = allocate_live[OF assms]
  have "pid_get pid \<in> live_ids st1" using al(4) by simp
  from free_live[OF al(1) this] show ?thesis by blast
qed

section \<open>Properties\<close>

text \<open>C37: for every input, the fuzz target page_parse ends without a failed assertion: a block that
  loads is written and loaded back with the same id, LSN and payload, at both page sizes.\<close>

theorem page_parse_never_panics: "fuzz_page_parse data = Finished"
proof -
  have "drive data k = Finished" for k
  proof (cases "PageSize_new k")
    case (Inl e)
    then show ?thesis by (simp add: drive_def)
  next
    case (Inr ps)
    then have "page_size_wf ps" by (auto simp: PageSize_new_def page_size_wf_def split: if_splits)
    from accepted_bytes_round_trip[OF this, of "splice 0 (take (min (length data) k) data) (replicate k 0)"]
    show ?thesis using Inr by (auto simp: drive_def Let_def split: sum.splits)
  qed
  then show ?thesis by (simp add: fuzz_page_parse_def)
qed

text \<open>C29: for every input on which the fuzz target allocator_open opens, the free list holds no
  more ids than the input has pages, however large the count in the superblock, the state is
  consistent, an id that allocate hands out can be freed, and the target ends with a
  consistent state.\<close>

theorem fuzz_open_is_bounded_by_input:
  assumes "PageAllocator_new fuzz_store_ops (FuzzStore_from_input data) = (Inr st, fz)"
  shows "length (free_list st) * 4064 < length data + 4064 \<and> alloc_inv st
    \<and> (\<forall>pid st1. allocate st = (Inr pid, st1) \<longrightarrow> fst (free pid st1) = Inr ())
    \<and> (\<exists>st3. fuzz_allocator_open data = Some st3 \<and> alloc_inv st3)"
proof -
  have inv: "alloc_inv st" using assms by (rule PageAllocator_new_inv)
  have "card (set (free_list st)) \<le> length (chunks 4064 data)"
    using card_mono[OF fuzz_pages_card(1) fuzz_open_reads[OF assms]] fuzz_pages_card(2)[of data] by simp
  then have "length (free_list st) \<le> length (chunks 4064 data)"
    using inv by (simp add: alloc_inv_def distinct_card)
  then have "length (free_list st) * 4064 < length data + 4064"
    using length_chunks[of 4064 data] by simp
  moreover have "\<exists>st3. fuzz_allocator_open data = Some st3 \<and> alloc_inv st3"
  proof -
    obtain r st1 where al: "allocate st = (r, st1)" by (metis prod.exhaust)
    define st2 where "st2 = (case r of Inl _ \<Rightarrow> st1 | Inr pid \<Rightarrow> snd (free pid st1))"
    have "alloc_inv st2"
      using al inv allocate_error[of st _ st1] allocate_then_free[OF inv]
      by (cases r) (force simp: st2_def)+
    moreover obtain q st3 fz3 where "PageAllocator_sync fuzz_store_ops st2 fz = (q, st3, fz3)" by (metis prod_cases3)
    ultimately show ?thesis
      using assms al fuzz_sync_keeps[of st2 fz q st3 fz3]
      by (auto simp: fuzz_allocator_open_def st2_def split: sum.splits)
  qed
  ultimately show ?thesis using inv allocate_then_free[OF inv] by fastforce
qed

theorem fuzz_open_is_bounded_by_input_witness:
  "\<exists>st. fuzz_allocator_open [] = Some st \<and> alloc_inv st"
proof -
  have none: "fz_pages (FuzzStore_from_input []) i = None" for i
    by (simp add: FuzzStore_from_input_def chunks.simps)
  obtain r st fz where p: "persist_superblock fuzz_store_ops
      \<lparr>free_list = [], next_new = 1, scratch = FuzzStore_allocate_page (FuzzStore_from_input [])\<rparr>
      (FuzzStore_from_input []) = (r, st, fz)"
    by (metis prod_cases3)
  then have "r = Inr ()"
    by (auto simp: persist_superblock_def Let_def fuzz_ops_frame)
  then have "PageAllocator_new fuzz_store_ops (FuzzStore_from_input []) = (Inr st, fz)"
    using p none by (simp add: PageAllocator_new_def fuzz_store_ops_def FuzzStore_read_into_def)
  from fuzz_open_is_bounded_by_input[OF this] show ?thesis by blast
qed

end
