(* ===== verification/Platform.thy ===== *)
theory Platform
  imports OsFile
begin

text \<open>
  The \<^verbatim>\<open>imp\<close> modules of \<^verbatim>\<open>src/sys.rs\<close>, one per platform: opening with the cache bypassed and
  flushing to stable storage.  The rest of the development uses the Linux ones,
  \<open>sys_open\<close> and \<open>sync_data\<close> of \<open>OsFile\<close>; here are the others, with what they share.
\<close>

datatype platform = Linux | MacOS | Windows | OtherUnix

text \<open>
  What the macOS module uses of the crate \<^verbatim>\<open>libc\<close>, which is not part of the repository, is a
  parameter: \<open>fcntl cmd f\<close> gives the return code, the error the thread would find in
  \<^verbatim>\<open>last_os_error\<close>, and the file after the call.  The two constants of the Windows module
  are in the source.
\<close>

datatype fcntl_cmd = F_NOCACHE | F_FULLFSYNC

type_synonym fcntl = "fcntl_cmd \<Rightarrow> os_file \<Rightarrow> int \<times> io_error \<times> os_file"

definition FILE_FLAG_WRITE_THROUGH :: u32 where "FILE_FLAG_WRITE_THROUGH = 0x80000000"
definition FILE_FLAG_NO_BUFFERING :: u32 where "FILE_FLAG_NO_BUFFERING = 0x20000000"

section \<open>Opening\<close>

definition windows_open :: "file_system \<Rightarrow> string \<Rightarrow> bool \<Rightarrow> bool \<Rightarrow> (io_error + os_file) \<times> file_system" where
  "windows_open fs path direct create =
    (let opts = \<lparr>oo_read = True, oo_write = True, oo_create = create, oo_custom_flags = 0\<rparr>;
         opts = (if direct then opts\<lparr>oo_custom_flags := FILE_FLAG_NO_BUFFERING OR FILE_FLAG_WRITE_THROUGH\<rparr>
                 else opts)
     in OpenOptions_open fs opts path)"

definition other_open :: "file_system \<Rightarrow> string \<Rightarrow> bool \<Rightarrow> bool \<Rightarrow> (io_error + os_file) \<times> file_system" where
  "other_open fs path direct create =
    OpenOptions_open fs \<lparr>oo_read = True, oo_write = True, oo_create = create, oo_custom_flags = 0\<rparr> path"

text \<open>On macOS the file is opened first and the bypass is asked for afterwards.\<close>

definition macos_open ::
  "fcntl \<Rightarrow> file_system \<Rightarrow> string \<Rightarrow> bool \<Rightarrow> bool \<Rightarrow> (io_error + os_file) \<times> file_system" where
  "macos_open fcntl fs path direct create =
    (case OpenOptions_open fs \<lparr>oo_read = True, oo_write = True, oo_create = create, oo_custom_flags = 0\<rparr> path of
       (Inl e, fs') \<Rightarrow> (Inl e, fs')
     | (Inr f, fs') \<Rightarrow>
         if direct then
           (let (rc, errno, f') = fcntl F_NOCACHE f
            in if rc = -1 then (Inl errno, fs') else (Inr f', fs'))
         else (Inr f, fs'))"

fun imp_open ::
  "platform \<Rightarrow> fcntl \<Rightarrow> file_system \<Rightarrow> string \<Rightarrow> bool \<Rightarrow> bool \<Rightarrow> (io_error + os_file) \<times> file_system" where
  "imp_open Linux fcntl fs path direct create = sys_open fs path direct create"
| "imp_open MacOS fcntl fs path direct create = macos_open fcntl fs path direct create"
| "imp_open Windows fcntl fs path direct create = windows_open fs path direct create"
| "imp_open OtherUnix fcntl fs path direct create = other_open fs path direct create"

section \<open>Flushing to stable storage\<close>

text \<open>
  \<^verbatim>\<open>File::sync_data\<close> retries an interrupted call itself; the \<^verbatim>\<open>fcntl(F_FULLFSYNC)\<close> of the
  macOS module is issued once, and whatever it reports is returned.
\<close>

definition macos_sync_data :: "fcntl \<Rightarrow> os_file \<Rightarrow> (io_error + unit) \<times> os_file" where
  "macos_sync_data fcntl f =
    (let (rc, errno, f') = fcntl F_FULLFSYNC f
     in if rc = -1 then (Inl errno, f') else (Inr (), f'))"

fun imp_sync_data :: "platform \<Rightarrow> fcntl \<Rightarrow> os_file \<Rightarrow> (io_error + unit) \<times> os_file" where
  "imp_sync_data Linux fcntl f = sync_data f"
| "imp_sync_data MacOS fcntl f = macos_sync_data fcntl f"
| "imp_sync_data Windows fcntl f = sync_data f"
| "imp_sync_data OtherUnix fcntl f = sync_data f"

section \<open>What the platforms share\<close>

text \<open>
  The documented behaviour of the two calls: \<^verbatim>\<open>F_NOCACHE\<close> changes no byte of the file,
  \<^verbatim>\<open>F_FULLFSYNC\<close> changes none either and makes them durable unless it returns -1.
\<close>

definition fcntl_documented :: "fcntl \<Rightarrow> bool" where
  "fcntl_documented fcntl \<longleftrightarrow>
     (\<forall>f rc errno f'. fcntl F_NOCACHE f = (rc, errno, f') \<longrightarrow> f' = f)
     \<and> (\<forall>f rc errno f'. fcntl F_FULLFSYNC f = (rc, errno, f') \<longrightarrow> f_data f' = f_data f
          \<and> f_durable f' = (if rc = -1 then f_durable f else f_data f))"

lemma OpenOptions_opened:
  "OpenOptions_open fs opts path = (Inr f, fs') \<Longrightarrow> fs' = fs\<lparr>fs_files := (fs_files fs)(path \<mapsto> f)\<rparr>
    \<and> (fs_files fs path = Some f \<or> fs_files fs path = None \<and> oo_create opts \<and> f = empty_file)"
  by (cases fs) (auto simp: OpenOptions_open_def fun_upd_idem split: option.splits if_splits)

text \<open>An open that succeeds gives the file at the path, unchanged, or a new empty one.\<close>

lemma imp_open_opened:
  assumes "imp_open pl fcntl fs path direct create = (Inr f, fs')" and "fcntl_documented fcntl"
  shows "fs' = fs\<lparr>fs_files := (fs_files fs)(path \<mapsto> f)\<rparr>
    \<and> (fs_files fs path = Some f \<or> fs_files fs path = None \<and> create \<and> f = empty_file)"
proof -
  have same: "g' = g" if "fcntl F_NOCACHE g = (rc, errno, g')" for g rc errno g'
    using assms(2) that by (auto simp: fcntl_documented_def)
  obtain opts where "OpenOptions_open fs opts path = (Inr f, fs')" "oo_create opts = create"
    using assms(1)
    by (cases pl) (auto simp: sys_open_def macos_open_def windows_open_def other_open_def Let_def dest!: same
        split: prod.splits sum.splits if_splits option.splits)
  then show ?thesis using OpenOptions_opened by blast
qed

text \<open>
  A flush that succeeds makes the bytes written durable, one that fails changes nothing;
  only on macOS can the error be an interruption.
\<close>

lemma imp_sync_data_flushed:
  assumes "imp_sync_data pl fcntl f = (r, f')" and "fcntl_documented fcntl"
  shows "f_data f' = f_data f" and "f_durable f' = (if r = Inr () then f_data f else f_durable f)"
    and "r = Inl Interrupted \<Longrightarrow> pl = MacOS"
proof -
  have linux: "f_data f' = f_data f \<and> f_durable f' = (if r = Inr () then f_data f else f_durable f)
      \<and> r \<noteq> Inl Interrupted" if "sync_data f = (r, f')"
    using that sync_outcome_sched(2)[of "f_sched f"] by (auto simp: sync_data_def split: prod.splits option.splits)
  have macos: "f_data f' = f_data f \<and> f_durable f' = (if r = Inr () then f_data f else f_durable f)"
    if "macos_sync_data fcntl f = (r, f')"
    using that assms(2)
    by (cases "fcntl F_FULLFSYNC f") (auto simp: macos_sync_data_def fcntl_documented_def split: if_splits)
  show "f_data f' = f_data f" and "f_durable f' = (if r = Inr () then f_data f else f_durable f)"
    and "r = Inl Interrupted \<Longrightarrow> pl = MacOS"
    using assms(1) linux macos by (cases pl; auto)+
qed

text \<open>The documented behaviour is possible: flags that do nothing to a file, a flush that works.\<close>

lemma fcntl_documented_possible:
  "fcntl_documented (\<lambda>cmd f. (0, NotFound, if cmd = F_FULLFSYNC then f\<lparr>f_durable := f_data f\<rparr> else f))"
  by (simp add: fcntl_documented_def)

end
