(* ===== verification/PageTests.thy ===== *)
theory PageTests
  imports PageFile
begin

text \<open>
  The unit tests that stand in \<^verbatim>\<open>src/checksum.rs\<close>, \<^verbatim>\<open>src/buffer.rs\<close>, \<^verbatim>\<open>src/page.rs\<close> and
  \<^verbatim>\<open>src/file.rs\<close>, each a definition that is true when the test passes: an assertion is a
  conjunct, \<^verbatim>\<open>expect\<close> or \<^verbatim>\<open>unwrap\<close> of an error is false.  That the model passes them is a check
  of the model against what its authors expect of the code.
\<close>

section \<open>Assertions\<close>

definition passes :: "('e + 'a) \<Rightarrow> ('a \<Rightarrow> bool) \<Rightarrow> bool" where
  "passes r P = (case r of Inl _ \<Rightarrow> False | Inr x \<Rightarrow> P x)"

definition fails_with :: "('e + 'a) \<Rightarrow> ('e \<Rightarrow> bool) \<Rightarrow> bool" where
  "fails_with r P = (case r of Inl e \<Rightarrow> P e | Inr _ \<Rightarrow> False)"

lemma test_simps [simp]:
  "passes (Inr x) P = P x" "passes (Inl e) P = False" "fails_with (Inl e) Q = Q e" "fails_with (Inr x) Q = False"
  by (simp_all add: passes_def fails_with_def)

text \<open>A byte string literal \<^verbatim>\<open>b"..."\<close>.\<close>

definition ascii :: "string \<Rightarrow> bytes" where
  "ascii s = map (\<lambda>c. of_nat (of_char c)) s"

section \<open>src/checksum.rs\<close>

definition test_crc32c_empty_is_zero :: bool where
  "test_crc32c_empty_is_zero = (crc32c [] = 0)"

definition test_crc32c_check_vector_matches_standard :: bool where
  "test_crc32c_check_vector_matches_standard = (crc32c (ascii ''123456789'') = 0xE3069283)"

definition test_crc32c_streaming_equals_one_shot :: bool where
  "test_crc32c_streaming_equals_one_shot =
    (let data = ascii ''the quick brown fox jumps over the lazy dog''
     in list_all (\<lambda>split.
          let a = take split data; b = drop split data;
              h = Crc32c_new; h = Crc32c_update h a; h = Crc32c_update h b
          in Crc32c_finalize h = crc32c data) [0..<length data + 1])"

definition test_crc32c_single_bit_flip_changes_value :: bool where
  "test_crc32c_single_bit_flip_changes_value =
    (let data = map of_nat [0..<4096];
         base = crc32c data;
         flipped = data[2048 := data ! 2048 XOR 0x01]
     in crc32c flipped \<noteq> base)"

section \<open>src/buffer.rs\<close>

text \<open>
  The model has no addresses: the address that the global allocator of Rust, which is not in
  the repository, gives a block of some layout is an argument.  It documents (\<^verbatim>\<open>GlobalAlloc\<close>) that
  the address is a multiple of the alignment of the layout.
\<close>

definition test_aligned_buffer_is_aligned_and_zeroed :: "(layout \<Rightarrow> nat) \<Rightarrow> bool" where
  "test_aligned_buffer_is_aligned_and_zeroed alloc_at =
    (case new_zeroed 8192 4096 of
       None \<Rightarrow> False
     | Some buf \<Rightarrow> length (as_slice buf) = 8192 \<and> alloc_at (buf_layout buf) mod 4096 = 0
         \<and> list_all (\<lambda>b. b = 0) (as_slice buf))"

definition test_aligned_buffer_clone_is_independent :: bool where
  "test_aligned_buffer_clone_is_independent =
    (case new_zeroed 4096 4096 of
       None \<Rightarrow> False
     | Some a \<Rightarrow>
         let a = as_mut_slice (\<lambda>bs. bs[0 := 0xAB]) a
         in case buffer_clone a of
              None \<Rightarrow> False
            | Some b \<Rightarrow>
                let a = as_mut_slice (\<lambda>bs. bs[0 := 0xCD]) a
                in as_slice b ! 0 = 0xAB \<and> as_slice a ! 0 = 0xCD)"

section \<open>src/page.rs\<close>

definition test_page_size_rejects_non_power_of_two :: bool where
  "test_page_size_rejects_non_power_of_two = fails_with (PageSize_new 5000) (\<lambda>e. e = InvalidPageSize 5000)"

definition test_page_size_rejects_out_of_range :: bool where
  "test_page_size_rejects_out_of_range =
    (fails_with (PageSize_new 2048) (\<lambda>_. True) \<and> fails_with (PageSize_new (MAX_PAGE_SIZE * 2)) (\<lambda>_. True))"

definition test_page_size_payload_len :: bool where
  "test_page_size_payload_len = passes (PageSize_new 4096) (\<lambda>ps. payload_len ps = 4096 - PAGE_HEADER_SIZE)"

definition test_new_page_has_valid_header :: bool where
  "test_new_page_has_valid_header =
    (let page = Page_new DEFAULT_PAGE_SIZE
     in Page_id page = PageId 0 \<and> Page_lsn page = Lsn_ZERO \<and> Page_page_size page = 4096)"

definition test_stamp_then_verify_roundtrips :: bool where
  "test_stamp_then_verify_roundtrips =
    (let page = Page_new DEFAULT_PAGE_SIZE;
         page = set_lsn (Lsn 7) page;
         page = payload_mut (splice 0 (ascii ''data'')) page;
         page = stamp (PageId 3) page
     in Page_id page = PageId 3 \<and> passes (verify page (Some (PageId 3))) (\<lambda>_. Page_lsn page = Lsn 7))"

definition test_verify_detects_corruption :: bool where
  "test_verify_detects_corruption =
    (let page = Page_new DEFAULT_PAGE_SIZE;
         page = stamp (PageId 1) page;
         page = payload_mut (\<lambda>bs. bs[10 := bs ! 10 XOR 0xFF]) page
     in fails_with (verify page (Some (PageId 1))) is_ChecksumMismatch)"

definition test_verify_detects_misdirected_page :: bool where
  "test_verify_detects_misdirected_page =
    (let page = stamp (PageId 5) (Page_new DEFAULT_PAGE_SIZE)
     in fails_with (verify page (Some (PageId 6))) (\<lambda>e. e = MisdirectedPage 6 5))"

definition test_from_bytes_rejects_wrong_length :: bool where
  "test_from_bytes_rejects_wrong_length =
    fails_with (Page_from_bytes DEFAULT_PAGE_SIZE (replicate 100 0)) is_ShortRead"

definition test_from_bytes_rejects_bad_magic :: bool where
  "test_from_bytes_rejects_bad_magic =
    fails_with (Page_from_bytes DEFAULT_PAGE_SIZE (replicate 4096 0)) is_BadMagic"

definition test_to_bytes_from_bytes_roundtrips :: bool where
  "test_to_bytes_from_bytes_roundtrips =
    (let page = Page_new DEFAULT_PAGE_SIZE;
         page = set_lsn (Lsn 99) page;
         page = payload_mut (splice 0 (ascii ''hello'')) page;
         bytes = to_checksummed_bytes page
     in passes (Page_from_bytes DEFAULT_PAGE_SIZE bytes)
          (\<lambda>loaded. Page_lsn loaded = Lsn 99 \<and> take 5 (payload loaded) = ascii ''hello''))"

section \<open>src/file.rs\<close>

text \<open>
  \<^verbatim>\<open>temp_file\<close> is a path in a new directory of a file system that refuses nothing
  (with the \<^verbatim>\<open>O_DIRECT\<close> of Linux on x86-64; the tests do not pass it).
\<close>

definition temp_file :: "file_system \<times> string" where
  "temp_file = (\<lparr>fs_files = Map.empty, fs_refuse = (\<lambda>_ _. None), fs_O_DIRECT = 0x4000\<rparr>, ''test.pages'')"

definition open_buffered :: "file_system \<Rightarrow> string \<Rightarrow> page_file page_result" where
  "open_buffered fs path = fst (Options_open (Options_direct_io False Options_new) fs path)"

definition test_write_read_roundtrip :: bool where
  "test_write_read_roundtrip =
    (let (fs, path) = temp_file
     in passes (open_buffered fs path) (\<lambda>file.
          let page = PageFile_allocate_page file;
              page = set_lsn (Lsn 11) page;
              page = payload_mut (splice 0 (ascii ''world'')) page;
              (w, page, file) = PageFile_write_page file (PageId 2) page;
              (s, file) = PageFile_sync file;
              (r, file) = PageFile_read_page file (PageId 2)
          in passes w (\<lambda>_. passes s (\<lambda>_. passes r (\<lambda>got.
               Page_id got = PageId 2 \<and> Page_lsn got = Lsn 11 \<and> take 5 (payload got) = ascii ''world'')))))"

definition test_read_past_end_is_short_read :: bool where
  "test_read_past_end_is_short_read =
    (let (fs, path) = temp_file
     in passes (open_buffered fs path) (\<lambda>file.
          fails_with (fst (PageFile_read_page file (PageId 0))) is_ShortRead))"

definition test_page_count_tracks_writes :: bool where
  "test_page_count_tracks_writes =
    (let (fs, path) = temp_file
     in passes (open_buffered fs path) (\<lambda>file.
          let (c0, file) = page_count file;
              page = PageFile_allocate_page file;
              (w0, page, file) = PageFile_write_page file (PageId 0) page;
              (c1, file) = page_count file;
              (w4, page, file) = PageFile_write_page file (PageId 4) page;
              (c5, file) = page_count file
          in passes c0 (\<lambda>n. n = 0) \<and> passes w0 (\<lambda>_. passes c1 (\<lambda>n. n = 1))
             \<and> passes w4 (\<lambda>_. passes c5 (\<lambda>n. n = 5))))"

text \<open>The byte at offset 40 is changed behind the back of the library, then the file opened again.\<close>

definition test_corruption_on_disk_is_detected :: bool where
  "test_corruption_on_disk_is_detected =
    (let (fs, path) = temp_file
     in passes (open_buffered fs path) (\<lambda>file.
          let page = PageFile_allocate_page file;
              page = payload_mut (\<lambda>bs. bs[0 := 0x42]) page;
              (w, page, file) = PageFile_write_page file (PageId 0) page;
              (s, file) = PageFile_sync file;
              raw = pf_file file;
              b = f_data raw ! 40;
              data = (f_data raw)[40 := b XOR 0xFF];
              fs = fs\<lparr>fs_files := (fs_files fs)(path \<mapsto> raw\<lparr>f_data := data, f_durable := data\<rparr>)\<rparr>
          in passes w (\<lambda>_. passes s (\<lambda>_. passes (open_buffered fs path) (\<lambda>file.
               fails_with (fst (PageFile_read_page file (PageId 0))) is_ChecksumMismatch)))))"

definition test_write_rejects_wrong_page_size :: bool where
  "test_write_rejects_wrong_page_size =
    (let (fs, path) = temp_file
     in passes (open_buffered fs path) (\<lambda>file.
          passes (PageSize_new 8192) (\<lambda>ps.
            let wrong = Page_new ps
            in fails_with (fst (PageFile_write_page file (PageId 0) wrong)) (\<lambda>e. e = InvalidPageSize 8192))))"

section \<open>What they need\<close>

lemma length_ascii [simp]: "length (ascii s) = length s"
  by (simp add: ascii_def)

lemma set_lsn_fields [page_simps]:
  assumes "page_wf n p"
  shows "Page_lsn (set_lsn l p) = l" "Page_id (set_lsn l p) = Page_id p" "payload (set_lsn l p) = payload p"
    and "header_valid (as_bytes (set_lsn l p)) = header_valid (as_bytes p)"
  using page_wf_ge_32[OF assms]
  by (simp_all add: set_lsn_def Page_lsn_def Page_id_def payload_def as_bytes_as_bytes_mut offset_defs
      header_valid_def read_slice header_simps) (simp_all add: read_slice[symmetric] header_simps)

lemma payload_mut_fields [page_simps]:
  assumes "page_wf n p" and "length (f (payload p)) = length (payload p)"
  shows "Page_lsn (payload_mut f p) = Page_lsn p" "Page_id (payload_mut f p) = Page_id p"
    and "header_valid (as_bytes (payload_mut f p)) = header_valid (as_bytes p)"
proof -
  have len: "32 \<le> length (as_bytes p)" by (rule page_wf_ge_32[OF assms(1)])
  have bytes: "as_bytes (payload_mut f p) = splice 32 (f (payload p)) (as_bytes p)"
    by (simp add: payload_mut_def payload_def as_bytes_as_bytes_mut offset_defs)
  have "length (payload p) = length (as_bytes p) - 32" by (simp add: payload_def offset_defs)
  then have same: "slice a k (as_bytes (payload_mut f p)) = slice a k (as_bytes p)"
    "length (as_bytes (payload_mut f p)) = length (as_bytes p)" if "a + k \<le> 32" for a k
    using that len assms(2) by (simp_all add: bytes slice_splice_disjoint length_splice)
  show "Page_lsn (payload_mut f p) = Page_lsn p" "Page_id (payload_mut f p) = Page_id p"
    and "header_valid (as_bytes (payload_mut f p)) = header_valid (as_bytes p)"
    using len same(2)[of 0 0] by (simp_all add: Page_lsn_def Page_id_def header_valid_def offset_defs read_slice same)
qed

lemma test_page: "page_wf 4096 (Page_new DEFAULT_PAGE_SIZE)" "header_valid (as_bytes (Page_new DEFAULT_PAGE_SIZE))"
  "Page_lsn (Page_new DEFAULT_PAGE_SIZE) = Lsn 0" "Page_id (Page_new DEFAULT_PAGE_SIZE) = PageId 0"
proof -
  show wf: "page_wf 4096 (Page_new DEFAULT_PAGE_SIZE)" using Page_new_4096 by (simp add: DEFAULT_PAGE_SIZE_def)
  have bytes: "as_bytes (Page_new DEFAULT_PAGE_SIZE) = blank_bytes 4096"
    by (simp add: DEFAULT_PAGE_SIZE_def as_bytes_Page_new)
  show "header_valid (as_bytes (Page_new DEFAULT_PAGE_SIZE))" unfolding bytes by (rule blank_header_valid) simp
  have "slice a 8 (blank_bytes 4096) = replicate 8 0" if "6 \<le> a" "a + 8 \<le> 4096" for a
    using that by (simp add: blank_bytes_def header_simps slice_def)
  note zeros = this
  have "from_le_bytes (replicate 8 0) = (0 :: u64)" by code_simp
  then show "Page_lsn (Page_new DEFAULT_PAGE_SIZE) = Lsn 0" "Page_id (Page_new DEFAULT_PAGE_SIZE) = PageId 0"
    by (simp_all add: Page_lsn_def Page_id_def bytes offset_defs read_slice header_simps zeros)
qed

lemma test_payload: "page_wf 4096 p \<Longrightarrow> length (payload p) = 4064"
  using page_wf_length[of 4096 p] by (simp add: payload_def offset_defs)

text \<open>A new page with an LSN and a text at the start of its payload.\<close>

lemma text_page:
  assumes "length s \<le> 4064"
    and "q = payload_mut (splice 0 (ascii s)) (set_lsn l (Page_new DEFAULT_PAGE_SIZE))"
  shows "page_wf 4096 q" "Page_lsn q = l" "header_valid (as_bytes q)" "take (length s) (payload q) = ascii s"
proof -
  let ?p = "set_lsn l (Page_new DEFAULT_PAGE_SIZE)" and ?f = "splice 0 (ascii s)"
  have wf: "page_wf 4096 ?p" using test_page(1) by (rule set_lsn_wf)
  have len: "length (?f (payload ?p)) = length (payload ?p)"
    using test_payload[OF wf] assms(1) by (simp add: length_splice)
  show "page_wf 4096 q" unfolding assms(2) using wf by (rule payload_mut_wf) (rule len)
  show "Page_lsn q = l" "header_valid (as_bytes q)"
    unfolding assms(2) using payload_mut_fields(1,3)[where f = ?f, OF wf len] set_lsn_fields(1,4)[OF test_page(1)]
      test_page(2) by simp_all
  have "payload q = ?f (payload ?p)" unfolding assms(2) using wf by (rule payload_payload_mut) (rule len)
  then show "take (length s) (payload q) = ascii s"
    using test_payload[OF wf] assms(1) by (simp add: splice_def)
qed

text \<open>Changing one byte of the payload of a page that verifies.\<close>

lemma payload_byte_detected:
  assumes "page_wf n p" and "verify p e = Inr ()" and "i + 32 < n" and "b \<noteq> payload p ! i"
  shows "fails_with (verify (payload_mut (\<lambda>bs. bs[i := b]) p) e') is_ChecksumMismatch"
proof -
  have len: "length (as_bytes p) = n" by (rule page_wf_length[OF assms(1)])
  have "payload p ! i = as_bytes p ! (i + 32)"
    using assms(3) len by (simp add: payload_def offset_defs add.commute)
  moreover have "splice 32 ((drop 32 bs)[i := b]) bs = bs[i + 32 := b]" if "length bs = n" for bs :: bytes
    using assms(3) that by (intro nth_equalityI) (auto simp: length_splice nth_splice nth_list_update)
  then have "payload_mut (\<lambda>bs. bs[i := b]) p = as_bytes_mut (\<lambda>bs. bs[i + 32 := b]) p"
    using len by (simp add: payload_mut_def as_bytes_mut_def as_mut_slice_def as_bytes_def as_slice_def offset_defs)
  ultimately show ?thesis
    using verify_byte_changed[OF assms(1,2,3), of b e'] assms(4) by simp
qed

section \<open>The tests pass\<close>

lemma xor_neq:
  assumes "c \<noteq> 0"
  shows "(b :: u8) XOR c \<noteq> b"
proof
  assume "b XOR c = b"
  then have "b XOR (b XOR c) = b XOR b" by simp
  then show False using assms by (simp add: xor.assoc[symmetric])
qed

lemma crc32c_detects_byte:
  assumes "i < length d" and "b \<noteq> d ! i"
  shows "crc32c (d[i := b]) \<noteq> crc32c d"
proof -
  have "d = take i d @ [d ! i] @ drop (Suc i) d" "d[i := b] = take i d @ [b] @ drop (Suc i) d"
    using assms(1) id_take_nth_drop[OF assms(1)] upd_conv_take_nth_drop[OF assms(1), of b] by simp_all
  then show ?thesis
    using crc32c_detects_bursts[of "[b]" "[d ! i]" "take i d" "drop (Suc i) d"] assms(2) by simp
qed

lemma checksum_tests:
  "test_crc32c_empty_is_zero" "test_crc32c_check_vector_matches_standard"
  "test_crc32c_streaming_equals_one_shot" "test_crc32c_single_bit_flip_changes_value"
proof -
  show "test_crc32c_empty_is_zero"
    by (simp add: test_crc32c_empty_is_zero_def crc32c_ref)
  show "test_crc32c_check_vector_matches_standard"
    using crc32c_check_value by (simp add: test_crc32c_check_vector_matches_standard_def ascii_def)
  show "test_crc32c_streaming_equals_one_shot"
    unfolding test_crc32c_streaming_equals_one_shot_def Let_def list_all_iff
    using streaming_is_concat[of "[take k (ascii ''the quick brown fox jumps over the lazy dog''),
      drop k (ascii ''the quick brown fox jumps over the lazy dog'')]" for k] by simp
  show "test_crc32c_single_bit_flip_changes_value"
    unfolding test_crc32c_single_bit_flip_changes_value_def Let_def
    by (intro crc32c_detects_byte xor_neq) simp_all
qed

lemma buffer_tests:
  "(\<And>l. lay_align l dvd alloc_at l) \<Longrightarrow> test_aligned_buffer_is_aligned_and_zeroed alloc_at"
  "test_aligned_buffer_clone_is_independent"
proof -
  have legal: "layout_from_size_align 8192 4096 = Some \<lparr>lay_size = 8192, lay_align = 4096\<rparr>"
    "layout_from_size_align 4096 4096 = Some \<lparr>lay_size = 4096, lay_align = 4096\<rparr>"
    by (simp_all add: layout_from_size_align_def is_power_of_two.simps isize_max_def)
  show "test_aligned_buffer_is_aligned_and_zeroed alloc_at" if aligned: "\<And>l. lay_align l dvd alloc_at l"
    using legal(1) aligned[of "\<lparr>lay_size = 8192, lay_align = 4096\<rparr>"]
    by (simp add: mod_eq_0_iff_dvd test_aligned_buffer_is_aligned_and_zeroed_def new_zeroed_def as_slice_def list_all_iff)
  obtain a where a: "new_zeroed 4096 4096 = Some a" using legal(2) by (simp add: new_zeroed_def)
  have len: "length (as_slice a) = 4096" using new_zeroed_wf[OF a] by simp
  have "buffer_clone (as_mut_slice (\<lambda>bs. bs[0 := 0xAB]) a) = Some (as_mut_slice (\<lambda>bs. bs[0 := 0xAB]) a)"
    using new_zeroed_wf[OF a] by (intro buffer_clone_wf as_mut_slice_wf) auto
  then show "test_aligned_buffer_clone_is_independent"
    using len by (simp add: test_aligned_buffer_clone_is_independent_def a Let_def)
qed

lemma page_size_tests:
  "test_page_size_rejects_non_power_of_two" "test_page_size_rejects_out_of_range" "test_page_size_payload_len"
  by (simp_all add: test_page_size_rejects_non_power_of_two_def test_page_size_rejects_out_of_range_def
      test_page_size_payload_len_def PageSize_new_def is_power_of_two.simps payload_len_def
      MIN_PAGE_SIZE_def MAX_PAGE_SIZE_def)

lemma page_header_tests:
  "test_new_page_has_valid_header" "test_stamp_then_verify_roundtrips" "test_verify_detects_misdirected_page"
proof -
  let ?p = "Page_new DEFAULT_PAGE_SIZE"
  show "test_new_page_has_valid_header"
    using test_page page_wf_size[OF test_page(1)]
    by (simp add: test_new_page_has_valid_header_def Lsn_ZERO_def Page_page_size_def Let_def)
  note q = text_page(1,2)[of "''data''" _ "Lsn 7"]
  show "test_stamp_then_verify_roundtrips"
    using q by (simp add: test_stamp_then_verify_roundtrips_def Let_def stamp_fields verify_stamp)
  show "test_verify_detects_misdirected_page"
    by (simp add: test_verify_detects_misdirected_page_def verify_stamp_other[OF test_page(1)])
qed

lemma page_corruption_test: "test_verify_detects_corruption"
proof -
  let ?p = "stamp (PageId 1) (Page_new DEFAULT_PAGE_SIZE)"
  have wf: "page_wf 4096 ?p" using test_page(1) by (rule stamp_wf)
  have "payload_mut (\<lambda>bs. bs[10 := bs ! 10 XOR 0xFF]) ?p
      = payload_mut (\<lambda>bs. bs[10 := payload ?p ! 10 XOR 0xFF]) ?p"
    by (simp add: payload_mut_def as_bytes_mut_def as_mut_slice_def payload_def as_bytes_def as_slice_def)
  then show ?thesis
    using payload_byte_detected[OF wf verify_stamp[OF test_page(1)], of 10] xor_neq[of "0xFF"]
    by (simp add: test_verify_detects_corruption_def Let_def)
qed

lemma zeros_have_bad_magic: "read_u32 (replicate 4096 0) 0 \<noteq> MAGIC"
proof -
  have "from_le_bytes [0, 0, 0, 0] \<noteq> MAGIC" unfolding MAGIC_def by code_simp
  then show ?thesis by (simp add: read_u32_def del: from_le_bytes.simps)
qed

lemma from_bytes_tests: "test_from_bytes_rejects_wrong_length" "test_from_bytes_rejects_bad_magic"
  "test_to_bytes_from_bytes_roundtrips"
proof -
  show "test_from_bytes_rejects_wrong_length"
    by (simp add: test_from_bytes_rejects_wrong_length_def Page_from_bytes_def DEFAULT_PAGE_SIZE_def)
  have size: "page_size_wf DEFAULT_PAGE_SIZE" by (simp add: DEFAULT_PAGE_SIZE_def)
  have "as_bytes \<lparr>page_buf = as_mut_slice (splice 0 (replicate 4096 0)) (the (new_zeroed 4096 4096)),
      page_sz = 4096\<rparr> = replicate 4096 0"
    using as_bytes_from_bytes(1)[OF size] by (simp add: DEFAULT_PAGE_SIZE_def)
  then show "test_from_bytes_rejects_bad_magic"
    using zeros_have_bad_magic
    by (simp add: test_from_bytes_rejects_bad_magic_def Page_from_bytes_def DEFAULT_PAGE_SIZE_def
        verify_def offset_defs Let_def)
  let ?q = "payload_mut (splice 0 (ascii ''hello'')) (set_lsn (Lsn 99) (Page_new DEFAULT_PAGE_SIZE))"
  have q: "page_wf 4096 ?q" "Page_lsn ?q = Lsn 99" "header_valid (as_bytes ?q)"
    "take 5 (payload ?q) = ascii ''hello''"
    using text_page[of "''hello''" ?q "Lsn 99"] by (simp_all add: eval_nat_numeral)
  note out = to_checksummed_bytes_fields[OF q(1)]
  obtain r where r: "Page_from_bytes DEFAULT_PAGE_SIZE (to_checksummed_bytes ?q) = Inr r"
    "as_bytes r = to_checksummed_bytes ?q"
    using as_bytes_from_bytes[OF size, of "to_checksummed_bytes ?q"] out(1)[OF q(3)] out(2)
      Page_from_bytes_ok_iff[OF size, of "to_checksummed_bytes ?q"] by (auto simp: DEFAULT_PAGE_SIZE_def)
  have "Page_lsn r = Page_lsn ?q" "payload r = payload ?q"
    using out(4,5) by (simp_all add: Page_lsn_def payload_def offset_defs r(2))
  then show "test_to_bytes_from_bytes_roundtrips"
    using q by (simp add: test_to_bytes_from_bytes_roundtrips_def Let_def r(1))
qed

text \<open>Files of the tests: no call fails, so every call is the success the lemmas of the page file give.\<close>

lemma quiet_benign: "pf_sched pf = [] \<Longrightarrow> benign (pf_sched pf)"
  by (simp add: benign_def)

lemma open_temp: "open_buffered (fst temp_file) (snd temp_file) = Inr empty_page_file"
  by (simp add: open_buffered_def temp_file_def Options_open_def Options_direct_io_def Options_new_def
      Options_default_def sys_open_defs empty_page_file_def DEFAULT_PAGE_SIZE_def)

lemma allocate_page_eq: "pf_inv 4096 pf \<Longrightarrow> PageFile_allocate_page pf = Page_new DEFAULT_PAGE_SIZE"
  by (simp add: PageFile_allocate_page_def pf_inv_def DEFAULT_PAGE_SIZE_def)

lemma page_file_sync_benign:
  assumes "benign (pf_sched pf)"
  shows "\<exists>pf'. PageFile_sync pf = (Inr (), pf') \<and> (pf_inv n pf' \<longleftrightarrow> pf_inv n pf)
    \<and> pf_view n pf' = pf_view n pf \<and> pf_data pf' = pf_data pf \<and> benign (pf_sched pf')"
proof -
  obtain r pf' where s: "PageFile_sync pf = (r, pf')" by (metis prod.exhaust)
  note io = sync_correct[OF s]
  obtain e f where "sync_data (pf_file pf) = (e, f)" by (metis prod.exhaust)
  then have "r \<noteq> Inl (Io Interrupted)"
    using s sync_outcome_sched[of "pf_sched pf"]
    by (auto simp: PageFile_sync_def sync_data_def from_io_def split: option.splits prod.splits sum.splits)
  then have "r = Inr ()" using io(6) benign_not_fail[OF assms] by (cases r) auto
  then show ?thesis using s io(1,2,3) benign_subset[OF assms io(4)] by auto
qed

lemma read_page_benign:
  assumes "pf_inv n pf" and "addressable n pid" and "benign (pf_sched pf)"
    and "pf_view n pf pid = Some (as_bytes p)" and "page_wf n p"
  shows "\<exists>pf'. PageFile_read_page pf pid = (Inr p, pf')"
proof -
  note wf = allocate_page_wf[OF assms(1)]
  obtain q pf' where q: "PageFile_read_into pf pid (PageFile_allocate_page pf) = (Inr (), q, pf')"
    "as_bytes q = as_bytes p" "page_wf n q"
    using read_into_benign[OF assms(1) wf assms(2,3,4)] by blast
  then have "q = p" using page_wf_unique[OF q(3) assms(5)] by simp
  then show ?thesis using q(1) by (simp add: PageFile_read_page_def PageFile_allocate_page_def)
qed

lemma write_read_test: "test_write_read_roundtrip"
proof -
  define p where "p = payload_mut (splice 0 (ascii ''world'')) (set_lsn (Lsn 11) (Page_new DEFAULT_PAGE_SIZE))"
  have p: "page_wf 4096 p" "Page_lsn p = Lsn 11" "take 5 (payload p) = ascii ''world''"
    using text_page[of "''world''" p "Lsn 11"] by (simp_all add: p_def eval_nat_numeral)
  have addr: "addressable 4096 (PageId 2)" by (simp add: addressable_def)
  obtain f1 where w: "PageFile_write_page empty_page_file (PageId 2) p = (Inr (), stamp (PageId 2) p, f1)"
    "pf_inv 4096 f1" "benign (pf_sched f1)" "pf_view 4096 f1 (PageId 2) = Some (as_bytes (stamp (PageId 2) p))"
    using write_page_benign[OF empty_page_file(1) p(1) addr empty_page_file(2)] by blast
  obtain f2 where s: "PageFile_sync f1 = (Inr (), f2)" "pf_inv 4096 f2" "benign (pf_sched f2)"
    "pf_view 4096 f2 = pf_view 4096 f1"
    using page_file_sync_benign[OF w(3)] w(2) by blast
  obtain f3 where r: "PageFile_read_page f2 (PageId 2) = (Inr (stamp (PageId 2) p), f3)"
    using read_page_benign[OF s(2) addr s(3) _ stamp_wf[OF p(1)]] w(4) s(4) by auto
  show ?thesis
    using open_temp w(1) s(1) r p stamp_fields[OF p(1), of "PageId 2"]
    by (simp add: test_write_read_roundtrip_def case_prod_beta allocate_page_eq Let_def p_def[symmetric])
qed

text \<open>On a file where no call fails, what a write leaves and what a read of page 0 finds.\<close>

lemma write_page_quiet:
  assumes "pf_inv 4096 pf" and "page_wf 4096 p" and "addressable 4096 pid" and "pf_sched pf = []"
  shows "\<exists>pf'. PageFile_write_page pf pid p = (Inr (), stamp pid p, pf') \<and> pf_inv 4096 pf' \<and> pf_sched pf' = []
    \<and> pf_data pf' = file_write (unat (pid_get pid) * 4096) (as_bytes (stamp pid p)) (pf_data pf)"
proof -
  obtain pf' where w: "PageFile_write_page pf pid p = (Inr (), stamp pid p, pf')"
    using write_page_benign[OF assms(1-3) quiet_benign[OF assms(4)]] by blast
  note res = write_page_correct[OF w assms(1-3)]
  have "length (as_bytes (stamp pid p)) = 4096" using page_wf_length[OF res(2)] .
  then show ?thesis using w res(1,5,6) assms(4) by auto
qed

lemma read_page_zero:
  assumes "pf_inv 4096 pf" and "pf_sched pf = []"
  defines "q \<equiv> as_bytes_mut (\<lambda>_. pf_data pf) (Page_new (PageSize 4096))"
  shows "pf_data pf = [] \<Longrightarrow> fst (PageFile_read_page pf (PageId 0)) = Inl (ShortRead 0 0 4096)"
    and "length (pf_data pf) = 4096 \<Longrightarrow> fst (PageFile_read_page pf (PageId 0)) =
      (case verify q (Some (PageId 0)) of Inl e \<Rightarrow> Inl e | Inr _ \<Rightarrow> Inr q)"
proof -
  let ?p = "Page_new (PageSize 4096)"
  have off: "byte_offset (PageId 0) 4096 = 0" by (simp add: byte_offset_def)
  note wf = Page_new_4096
  obtain r buf f' where full: "read_at_full (pf_file pf) (as_bytes ?p) 0 = (r, buf, f')"
    by (metis prod_cases3)
  note io = read_at_full_correct[OF full]
  have sizes: "pf_page_size pf = PageSize 4096" "Page_page_size ?p = 4096"
    using assms(1) page_wf_size[OF wf] by (simp_all add: pf_inv_def Page_page_size_def)
  have got: "r = Inr (min 4096 (length (pf_data pf)))" "length buf = 4096"
    using io(4,5,6) assms(2) page_wf_length[OF wf] by (cases r; fastforce)+
  show "fst (PageFile_read_page pf (PageId 0)) = Inl (ShortRead 0 0 4096)" if "pf_data pf = []"
    using full got that by (simp add: PageFile_read_page_def PageFile_read_into_def sizes off Let_def)
  show "fst (PageFile_read_page pf (PageId 0)) =
      (case verify q (Some (PageId 0)) of Inl e \<Rightarrow> Inl e | Inr _ \<Rightarrow> Inr q)" if "length (pf_data pf) = 4096"
  proof -
    have "buf = pf_data pf" using io(5)[of 4096] got that page_wf_length[OF wf] by (simp add: slice_def)
    then show ?thesis
      using full got that
      by (simp add: PageFile_read_page_def PageFile_read_into_def sizes off Let_def q_def split: sum.splits)
  qed
qed

lemma short_read_test: "test_read_past_end_is_short_read"
  using read_page_zero(1)[of empty_page_file] open_temp
  by (simp add: test_read_past_end_is_short_read_def case_prod_beta empty_page_file_def pf_inv_def empty_file_def)

lemma page_count_quiet:
  "pf_inv 4096 pf \<Longrightarrow> pf_sched pf = [] \<Longrightarrow> page_count pf = (Inr (of_nat (length (pf_data pf)) div 4096), pf)"
  by (simp add: page_count_def pf_inv_def Let_def)

lemma page_count_test: "test_page_count_tracks_writes"
proof -
  let ?p = "Page_new DEFAULT_PAGE_SIZE" and ?f = empty_page_file
  have addr: "addressable 4096 (PageId 0)" "addressable 4096 (PageId 4)" by (simp_all add: addressable_def)
  have quiet: "pf_sched ?f = []" by (simp add: empty_page_file_def empty_file_def)
  obtain f1 where w1: "PageFile_write_page ?f (PageId 0) ?p = (Inr (), stamp (PageId 0) ?p, f1)"
    "pf_inv 4096 f1" "pf_sched f1 = []" "pf_data f1 = file_write 0 (as_bytes (stamp (PageId 0) ?p)) []"
    using write_page_quiet[OF empty_page_file(1) test_page(1) addr(1) quiet] by auto
  note wf1 = stamp_wf[OF test_page(1), of "PageId 0"]
  obtain f2 where w2: "PageFile_write_page f1 (PageId 4) (stamp (PageId 0) ?p)
      = (Inr (), stamp (PageId 4) (stamp (PageId 0) ?p), f2)"
    "pf_inv 4096 f2" "pf_sched f2 = []"
    "pf_data f2 = file_write (4 * 4096) (as_bytes (stamp (PageId 4) (stamp (PageId 0) ?p))) (pf_data f1)"
    using write_page_quiet[OF w1(2) wf1 addr(2) w1(3)] by auto
  note lens = page_wf_length[OF wf1] page_wf_length[OF stamp_wf[OF wf1, of "PageId 4"]]
  have "length (pf_data f1) = 4096" "length (pf_data f2) = 5 * 4096"
    using lens w1(4) w2(4) by (auto simp: length_file_write)
  then have "page_count ?f = (Inr 0, ?f)" "page_count f1 = (Inr 1, f1)" "page_count f2 = (Inr 5, f2)"
    using page_count_quiet quiet w1(2,3) w2(2,3) by (simp_all add: empty_page_file(5))
  then show ?thesis
    using open_temp w1(1) w2(1)
    by (simp add: test_page_count_tracks_writes_def case_prod_beta allocate_page_eq Let_def)
qed

lemma wrong_size_test: "test_write_rejects_wrong_page_size"
proof -
  have size: "PageSize_new 8192 = Inr (PageSize 8192)"
    by (simp add: PageSize_new_def is_power_of_two.simps MIN_PAGE_SIZE_def MAX_PAGE_SIZE_def)
  then have "Page_page_size (Page_new (PageSize 8192)) = 8192"
    by (simp add: Page_page_size_def Page_new_def Let_def)
  then show ?thesis
    using open_temp size
    by (simp add: test_write_rejects_wrong_page_size_def case_prod_beta PageFile_write_page_def
        empty_page_file_def Let_def)
qed

lemma disk_corruption_test: "test_corruption_on_disk_is_detected"
proof -
  define p where "p = payload_mut (\<lambda>bs. bs[0 := 0x42]) (Page_new DEFAULT_PAGE_SIZE)"
  have p: "page_wf 4096 p" unfolding p_def by (rule payload_mut_wf[OF test_page(1)]) simp
  let ?p = "stamp (PageId 0) p" and ?f = empty_page_file
  have addr: "addressable 4096 (PageId 0)" by (simp add: addressable_def)
  have quiet: "pf_sched ?f = []" by (simp add: empty_page_file_def empty_file_def)
  obtain f1 where w: "PageFile_write_page ?f (PageId 0) p = (Inr (), ?p, f1)"
    "pf_inv 4096 f1" "pf_sched f1 = []" "pf_data f1 = file_write 0 (as_bytes ?p) []"
    using write_page_quiet[OF empty_page_file(1) p addr quiet] by auto
  obtain f2 where s: "PageFile_sync f1 = (Inr (), f2)" "pf_inv 4096 f2" "pf_data f2 = pf_data f1"
    using page_file_sync_benign[OF quiet_benign[OF w(3)]] w(2) by blast
  have wf: "page_wf 4096 ?p" using p by (rule stamp_wf)
  note len = page_wf_length[OF wf]
  have data: "pf_data f2 = as_bytes ?p"
    using w(4) s(3) len by (auto simp: file_write_def splice_all)
  have s2: "pf_sched f2 = []" using sync_correct(4)[OF s(1)] w(3) by simp
  define b where "b = as_bytes ?p ! 40 XOR 0xFF"
  define f3 where "f3 = \<lparr>pf_file = (pf_file f2)\<lparr>f_data := (as_bytes ?p)[40 := b],
    f_durable := (as_bytes ?p)[40 := b]\<rparr>, pf_page_size = PageSize 4096\<rparr>"
  let ?q = "as_bytes_mut (\<lambda>_. (as_bytes ?p)[40 := b]) (Page_new (PageSize 4096))"
  have "?q = as_bytes_mut (\<lambda>bytes. bytes[40 := b]) ?p"
    using len wf by (intro page_wf_unique[of 4096] page_wf_as_bytes_mut Page_new_4096)
      (simp_all add: as_bytes_as_bytes_mut page_wf_length[OF Page_new_4096])
  then have bad: "fails_with (verify ?q (Some (PageId 0))) is_ChecksumMismatch"
    using verify_byte_changed[OF wf verify_stamp[OF p], of 40 b "Some (PageId 0)"] xor_neq[of "0xFF"]
    by (simp add: b_def)
  have f3: "pf_inv 4096 f3" "pf_sched f3 = []" "pf_data f3 = (as_bytes ?p)[40 := b]"
    using s2 by (simp_all add: f3_def pf_inv_def)
  have "fst (PageFile_read_page f3 (PageId 0)) =
      (case verify ?q (Some (PageId 0)) of Inl e \<Rightarrow> Inl e | Inr _ \<Rightarrow> Inr ?q)"
    using read_page_zero(2)[OF f3(1,2), unfolded f3(3)] len by simp
  with bad have "fails_with (fst (PageFile_read_page f3 (PageId 0))) is_ChecksumMismatch"
    by (auto simp: fails_with_def split: sum.splits)
  moreover have "open_buffered (fst temp_file\<lparr>fs_files := (fs_files (fst temp_file))
      (snd temp_file \<mapsto> (pf_file f2)\<lparr>f_data := (pf_data f2)[40 := pf_data f2 ! 40 XOR 0xFF],
         f_durable := (pf_data f2)[40 := pf_data f2 ! 40 XOR 0xFF]\<rparr>)\<rparr>) (snd temp_file) = Inr f3"
    by (simp add: open_buffered_def temp_file_def Options_open_def Options_direct_io_def Options_new_def
      Options_default_def sys_open_defs DEFAULT_PAGE_SIZE_def f3_def data b_def)
  ultimately show ?thesis
    using open_temp w(1) s(1)
    by (simp add: test_corruption_on_disk_is_detected_def case_prod_beta allocate_page_eq Let_def p_def[symmetric])
qed

section \<open>Property\<close>

text \<open>The model passes every unit test that stands in src/checksum.rs, src/buffer.rs, src/page.rs
  and src/file.rs: the CRC check vector, the independent clone of a buffer, the page sizes, stamping,
  loading and serialising a page, and writing, counting, corrupting and reading pages of a file.\<close>

lemma page_unit_tests_pass:
  assumes "\<And>l. lay_align l dvd alloc_at l"
  shows "test_crc32c_empty_is_zero \<and> test_crc32c_check_vector_matches_standard
   \<and> test_crc32c_streaming_equals_one_shot \<and> test_crc32c_single_bit_flip_changes_value
   \<and> test_aligned_buffer_is_aligned_and_zeroed alloc_at \<and> test_aligned_buffer_clone_is_independent
   \<and> test_page_size_rejects_non_power_of_two \<and> test_page_size_rejects_out_of_range
   \<and> test_page_size_payload_len \<and> test_new_page_has_valid_header \<and> test_stamp_then_verify_roundtrips
   \<and> test_verify_detects_corruption \<and> test_verify_detects_misdirected_page
   \<and> test_from_bytes_rejects_wrong_length \<and> test_from_bytes_rejects_bad_magic
   \<and> test_to_bytes_from_bytes_roundtrips \<and> test_write_read_roundtrip \<and> test_read_past_end_is_short_read
   \<and> test_page_count_tracks_writes \<and> test_corruption_on_disk_is_detected
   \<and> test_write_rejects_wrong_page_size"
  by (intro conjI checksum_tests buffer_tests assms page_size_tests page_header_tests page_corruption_test
      from_bytes_tests write_read_test short_read_test page_count_test disk_corruption_test wrong_size_test)

end
