(* ===== verification/AllocTests.thy ===== *)
theory AllocTests
  imports Allocator PageTests
begin

text \<open>
  The tests that stand in \<^verbatim>\<open>src/alloc.rs\<close>, over the in-memory store: the unit tests, the
  property test, true for every list of operations and every order in which the hash set can
  be iterated, and the loom test, true for both orders in which the lock can be taken.
\<close>

section \<open>The unit tests\<close>

definition test_allocator :: "alloc_state page_result \<times> mem_store" where
  "test_allocator = PageAllocator_new mem_store_ops (MemStore_new 4096)"

definition test_allocate_starts_at_one_and_increments :: bool where
  "test_allocate_starts_at_one_and_increments =
    passes (fst test_allocator) (\<lambda>alloc.
      let (a, alloc) = allocate alloc; (b, alloc) = allocate alloc; (c, alloc) = allocate alloc
      in passes a (\<lambda>a. a = PageId 1) \<and> passes b (\<lambda>b. b = PageId 2) \<and> passes c (\<lambda>c. c = PageId 3)
         \<and> high_water alloc = 4)"

definition test_free_then_allocate_reuses_id :: bool where
  "test_free_then_allocate_reuses_id =
    passes (fst test_allocator) (\<lambda>alloc.
      let (a, alloc) = allocate alloc; (b, alloc) = allocate alloc
      in passes a (\<lambda>a. passes b (\<lambda>b.
           let (f, alloc) = free a alloc; freed = free_count alloc; (c, alloc) = allocate alloc
           in passes f (\<lambda>_. freed = 1 \<and> passes c (\<lambda>c. c = a \<and> c \<noteq> b \<and> free_count alloc = 0)))))"

fun allocate_times :: "nat \<Rightarrow> alloc_state \<Rightarrow> page_id list page_result \<times> alloc_state" where
  "allocate_times 0 alloc = (Inr [], alloc)"
| "allocate_times (Suc k) alloc =
    (case allocate alloc of
       (Inl e, alloc) \<Rightarrow> (Inl e, alloc)
     | (Inr i, alloc) \<Rightarrow>
         (case allocate_times k alloc of
            (Inl e, alloc) \<Rightarrow> (Inl e, alloc)
          | (Inr is, alloc) \<Rightarrow> (Inr (i # is), alloc)))"

fun free_each :: "page_id list \<Rightarrow> alloc_state \<Rightarrow> unit page_result \<times> alloc_state" where
  "free_each [] alloc = (Inr (), alloc)"
| "free_each (i # is) alloc =
    (case free i alloc of (Inl e, alloc) \<Rightarrow> (Inl e, alloc) | (Inr _, alloc) \<Rightarrow> free_each is alloc)"

definition test_free_list_is_lifo :: bool where
  "test_free_list_is_lifo =
    passes (fst test_allocator) (\<lambda>alloc.
      let (ids, alloc) = allocate_times 4 alloc
      in passes ids (\<lambda>ids.
           let (f, alloc) = free_each ids alloc; (reused, alloc) = allocate_times 4 alloc
           in passes f (\<lambda>_. passes reused (\<lambda>reused. reused = rev ids))))"

definition test_free_rejects_superblock_and_unallocated :: bool where
  "test_free_rejects_superblock_and_unallocated =
    passes (fst test_allocator) (\<lambda>alloc.
      let (a, alloc) = allocate alloc; (f, alloc) = free (PageId 0) alloc; (g, alloc) = free (PageId 5) alloc
      in passes a (\<lambda>_. fails_with f (\<lambda>e. e = InvalidPageId 0) \<and> fails_with g (\<lambda>e. e = InvalidPageId 5)))"

text \<open>\<^verbatim>\<open>into_store\<close> gives the store back: the model passes it on.\<close>

definition test_state_survives_reopen :: bool where
  "test_state_survives_reopen =
    (let (r, store) = test_allocator
     in passes r (\<lambda>alloc.
          let (a, alloc) = allocate alloc; (b, alloc) = allocate alloc; (c, alloc) = allocate alloc
          in passes a (\<lambda>_. passes b (\<lambda>b. passes c (\<lambda>_.
               let (f, alloc) = free b alloc;
                   (s, alloc, store) = PageAllocator_sync mem_store_ops alloc store
               in passes f (\<lambda>_. passes s (\<lambda>_.
                    passes (fst (PageAllocator_new mem_store_ops store)) (\<lambda>alloc2.
                      high_water alloc2 = 4 \<and> free_count alloc2 = 1
                      \<and> passes (fst (allocate alloc2)) (\<lambda>i. i = PageId 2)))))))))"

text \<open>
  A write of the tests: the store after it, \<^term>\<open>None\<close> when \<^verbatim>\<open>unwrap\<close> panics.
\<close>

definition stored_page :: "mem_store \<Rightarrow> u64 \<Rightarrow> page \<Rightarrow> mem_store option" where
  "stored_page store i page =
    (case so_write_page mem_store_ops store (PageId i) page of
       (Inl e, page, store) \<Rightarrow> None | (Inr _, page, store) \<Rightarrow> Some store)"

definition write_superblock :: "mem_store \<Rightarrow> u64 \<Rightarrow> u64 \<Rightarrow> u64 \<Rightarrow> mem_store option" where
  "write_superblock store head nxt cnt =
    (let page = so_allocate_page mem_store_ops store;
         page = payload_mut (superblock_payload head nxt cnt) page
     in stored_page store 0 page)"

definition write_link :: "u64 \<Rightarrow> u64 \<Rightarrow> mem_store \<Rightarrow> mem_store option" where
  "write_link i nxt store =
    (let page = so_allocate_page mem_store_ops store;
         page = payload_mut (write_u64 LINK_NEXT_OFF nxt) page
     in stored_page store i page)"

definition rejects_superblock :: "mem_store option \<Rightarrow> bool" where
  "rejects_superblock store =
    (case store of
       None \<Rightarrow> False
     | Some ms \<Rightarrow> fails_with (fst (PageAllocator_new mem_store_ops ms)) (\<lambda>e. e = InvalidSuperblock))"

definition test_new_rejects_non_superblock_page_zero :: bool where
  "test_new_rejects_non_superblock_page_zero =
    (let store = MemStore_new 4096;
         page = so_allocate_page mem_store_ops store;
         page = payload_mut (\<lambda>bs. bs[0 := 0xFF]) page
     in rejects_superblock (stored_page store 0 page))"

definition test_new_rejects_cycled_free_chain :: bool where
  "test_new_rejects_cycled_free_chain = rejects_superblock
    (Option.bind (Option.bind (write_superblock (MemStore_new 4096) 1 3 10) (write_link 1 2)) (write_link 2 1))"

definition test_new_rejects_out_of_range_link :: bool where
  "test_new_rejects_out_of_range_link = rejects_superblock (write_superblock (MemStore_new 4096) 5 3 1)"

definition test_new_rejects_free_count_mismatch :: bool where
  "test_new_rejects_free_count_mismatch =
    rejects_superblock (Option.bind (write_superblock (MemStore_new 4096) 1 3 5) (write_link 1 NO_PAGE))"

section \<open>The property test and the loom test\<close>

text \<open>
  \<open>pick k live\<close> is the first element of the iteration over the hash set \<open>live\<close> when \<open>k\<close>
  operations are left after this one: the order is the hasher's, and may differ every time.
\<close>

fun never_double_allocates ::
  "(nat \<Rightarrow> u64 set \<Rightarrow> u64) \<Rightarrow> bool list \<Rightarrow> alloc_state \<Rightarrow> u64 set \<Rightarrow> u64 list \<Rightarrow> bool" where
  "never_double_allocates pick [] alloc live freed_pool = True"
| "never_double_allocates pick (want_alloc # ops) alloc live freed_pool =
    (if want_alloc \<or> live = {} then
       case allocate alloc of (r, alloc) \<Rightarrow> passes r (\<lambda>pid.
         let i = pid_get pid;
             freed_pool = filter (\<lambda>f. f \<noteq> i) freed_pool
         in i \<notin> live \<and> 1 \<le> i \<and> free_count alloc = of_nat (length freed_pool)
            \<and> never_double_allocates pick ops alloc (insert i live) freed_pool)
     else
       let victim = pick (length ops) live;
           live = live - {victim}
       in case free (PageId victim) alloc of (r, alloc) \<Rightarrow> passes r (\<lambda>_.
            let freed_pool = freed_pool @ [victim]
            in free_count alloc = of_nat (length freed_pool)
               \<and> never_double_allocates pick ops alloc live freed_pool))"

definition allocate_free_never_double_allocates :: "(nat \<Rightarrow> u64 set \<Rightarrow> u64) \<Rightarrow> bool list \<Rightarrow> bool" where
  "allocate_free_never_double_allocates pick ops =
    passes (fst test_allocator) (\<lambda>alloc. never_double_allocates pick ops alloc {} [])"

text \<open>
  Two threads, one call each.  The call is one critical section, so an interleaving is the
  order of the two sections; it decides which thread gets which id.
\<close>

definition loom_concurrent_allocate_is_unique :: "bool \<Rightarrow> bool" where
  "loom_concurrent_allocate_is_unique spawned_first =
    passes (fst test_allocator) (\<lambda>alloc.
      let (a, alloc) = allocate alloc;
          (b, alloc) = allocate alloc;
          (second, first) = (if spawned_first then (a, b) else (b, a))
      in passes first (\<lambda>first. passes second (\<lambda>second. first \<noteq> second)))"

section \<open>The allocator of the tests\<close>

lemma test_allocator_fresh:
  obtains st ms where "test_allocator = (Inr st, ms)" "free_list st = []" "next_new st = 1"
    "ms_inv 4096 ms" "alloc_inv st" "page_wf 4096 (scratch st)"
proof -
  have inv: "ms_inv 4096 (MemStore_new 4096)" by (intro MemStore_new_inv) simp
  obtain st ms where new: "test_allocator = (Inr st, ms)" "free_list st = []" "next_new st = 1" "ms_inv 4096 ms"
    "page_wf 4096 (scratch st)"
    using mem_new_fresh[OF inv] by (auto simp: test_allocator_def MemStore_new_def)
  moreover have "alloc_inv st" using new(2,3) by (simp add: alloc_inv_def)
  ultimately show thesis using that new by blast
qed

lemma allocate_step:
  "free_list st = [] \<Longrightarrow> next_new st = i \<Longrightarrow> unat i < 100 \<Longrightarrow>
     allocate st = (Inr (PageId i), st\<lparr>next_new := i + 1\<rparr>)"
  "free_list st = xs @ [i] \<Longrightarrow> allocate st = (Inr (PageId i), st\<lparr>free_list := xs\<rparr>)"
proof -
  show "allocate st = (Inr (PageId i), st\<lparr>next_new := i + 1\<rparr>)"
    if "free_list st = []" "next_new st = i" "unat i < 100"
  proof -
    have "unat (i + 1) = unat i + 1" using that(3) by (simp add: unat_word_ariths)
    then have "i \<noteq> NO_PAGE" "i + 1 \<noteq> NO_PAGE" using that(3) by (auto simp: NO_PAGE_def)
    then show ?thesis using that by (simp add: allocate_def checked_add_1 Let_def split: option.splits)
  qed
  show "free_list st = xs @ [i] \<Longrightarrow> allocate st = (Inr (PageId i), st\<lparr>free_list := xs\<rparr>)"
    by (simp add: allocate_def)
qed

lemma allocate_times_new:
  assumes "free_list st = []" and "next_new st = i" and "unat i + k < 100"
  shows "allocate_times k st = (Inr (map (\<lambda>j. PageId (i + of_nat j)) [0..<k]), st\<lparr>next_new := i + of_nat k\<rparr>)"
  using assms
proof (induction k arbitrary: st i)
  case 0
  then show ?case by simp
next
  case (Suc k)
  have "unat (i + 1) = unat i + 1" using Suc.prems(3) by (simp add: unat_word_ariths)
  then have "allocate_times k (st\<lparr>next_new := i + 1\<rparr>)
      = (Inr (map (\<lambda>j. PageId (i + of_nat (Suc j))) [0..<k]), st\<lparr>next_new := i + of_nat (Suc k)\<rparr>)"
    using Suc.IH[of "st\<lparr>next_new := i + 1\<rparr>" "i + 1"] Suc.prems by (simp add: ac_simps)
  moreover have "[0..<Suc k] = 0 # map Suc [0..<k]" by (simp only: map_Suc_upt upt_conv_Cons[of 0 "Suc k"] zero_less_Suc One_nat_def)
  ultimately show ?case using allocate_step(1)[of st i] Suc.prems by (simp add: comp_def)
qed

lemma allocate_times_freed:
  "free_list st = xs @ ys \<Longrightarrow> allocate_times (length ys) st = (Inr (map PageId (rev ys)), st\<lparr>free_list := xs\<rparr>)"
proof (induction ys arbitrary: st rule: rev_induct)
  case (snoc i ys)
  from snoc.IH[of "st\<lparr>free_list := xs @ ys\<rparr>"] show ?case
    using allocate_step(2)[of st "xs @ ys" i] snoc.prems by simp
qed simp

lemma free_each_freed:
  "\<forall>i \<in> set is. i \<noteq> 0 \<and> i < next_new st \<Longrightarrow>
    free_each (map PageId is) st = (Inr (), st\<lparr>free_list := free_list st @ is\<rparr>)"
  by (induction "is" arbitrary: st) (simp_all add: free_def Let_def not_le[symmetric])

lemma counting_tests:
  "test_allocate_starts_at_one_and_increments" "test_free_then_allocate_reuses_id"
  "test_free_list_is_lifo" "test_free_rejects_superblock_and_unallocated"
proof -
  obtain st ms where st: "test_allocator = (Inr st, ms)" "free_list st = []" "next_new st = 1"
    by (rule test_allocator_fresh)
  show "test_allocate_starts_at_one_and_increments"
    by (simp add: test_allocate_starts_at_one_and_increments_def st allocate_step high_water_def)
  show "test_free_then_allocate_reuses_id"
    by (simp add: test_free_then_allocate_reuses_id_def st allocate_step free_def free_count_def
        word_le_nat_alt allocate_step(2)[where xs = "[]"])
  have new: "allocate_times 4 st = (Inr (map PageId [1, 2, 3, 4]), st\<lparr>next_new := 5\<rparr>)"
    using allocate_times_new[OF st(2,3), of 4] by (simp add: upt_rec del: allocate_times.simps)
  have freed: "free_each (map PageId [1, 2, 3, 4]) (st\<lparr>next_new := 5\<rparr>)
      = (Inr (), st\<lparr>next_new := 5, free_list := [1, 2, 3, 4]\<rparr>)"
    using free_each_freed[of "[1, 2, 3, 4]" "st\<lparr>next_new := 5\<rparr>"] st(2) by (simp add: word_less_nat_alt)
  have reused: "allocate_times 4 (st\<lparr>next_new := 5, free_list := [1, 2, 3, 4]\<rparr>)
      = (Inr (rev (map PageId [1, 2, 3, 4])), st\<lparr>next_new := 5, free_list := []\<rparr>)"
    using allocate_times_freed[of "st\<lparr>next_new := 5, free_list := [1, 2, 3, 4]\<rparr>" "[]" "[1, 2, 3, 4]"]
    by (simp add: eval_nat_numeral del: allocate_times.simps)
  show "test_free_list_is_lifo"
    using freed reused by (simp add: test_free_list_is_lifo_def st(1) new del: list.map allocate_times.simps free_each.simps)
  show "test_free_rejects_superblock_and_unallocated"
    by (simp add: test_free_rejects_superblock_and_unallocated_def st allocate_step free_def)
qed

lemma mem_no_failure: "\<not> ms.read_failure n e"
  unfolding ms.read_failure_def using ms.read_total by fastforce

lemma reopen_test: "test_state_survives_reopen"
proof -
  obtain st ms where st: "test_allocator = (Inr st, ms)" "free_list st = []" "next_new st = 1"
    and inv: "ms_inv 4096 ms" "page_wf 4096 (scratch st)"
    by (rule test_allocator_fresh)
  define st2 where "st2 = st\<lparr>next_new := 4, free_list := [2]\<rparr>"
  have st2: "page_wf 4096 (scratch st2)" "alloc_inv st2" "\<forall>i \<in> set (free_list st2). True"
    using inv(2) by (simp_all add: st2_def alloc_inv_def word_le_nat_alt word_less_nat_alt)
  obtain st3 ms3 st4 ms4 where run: "PageAllocator_sync mem_store_ops st2 ms = (Inr (), st3, ms3)"
    "PageAllocator_new mem_store_ops ms3 = (Inr st4, ms4)" "free_list st4 = [2]" "next_new st4 = 4"
    using ms.sync_then_new[OF inv(1) st2(1,2) TrueI st2(3)] by (auto simp: st2_def)
  have "st\<lparr>next_new := 4, free_list := [2]\<rparr> = st2" by (simp add: st2_def)
  then show ?thesis
    using run by (simp add: test_state_survives_reopen_def st allocate_step free_def word_le_nat_alt
        high_water_def free_count_def allocate_step(2)[where xs = "[]"])
qed

text \<open>What the writes of the tests leave, and one turn of the walk over it.\<close>

lemma stored_page_ok:
  assumes "ms_inv n ms" and "page_wf n p"
  obtains ms' where "stored_page ms i p = Some ms'" "ms_inv n ms'"
    "ms_view n ms' (PageId i) = Some (as_bytes (stamp (PageId i) p))"
    "\<And>j. j \<noteq> i \<Longrightarrow> ms_view n ms' (PageId j) = ms_view n ms (PageId j)"
proof -
  obtain r p' ms' where w: "MemStore_write_page ms (PageId i) p = (r, p', ms')" by (metis prod_cases3)
  note res = mem_write[OF w assms]
  have "stored_page ms i p = Some ms'"
    using w res(1) by (simp add: stored_page_def mem_store_ops_def)
  then show thesis using that res(3,4,5) by simp
qed

lemma mem_page_payload:
  assumes "ms_inv n ms" and "length (f (payload (MemStore_allocate_page ms))) = length (payload (MemStore_allocate_page ms))"
  shows "page_wf n (payload_mut f (MemStore_allocate_page ms))"
    and "drop PAGE_HEADER_SIZE (as_bytes (stamp pid (payload_mut f (MemStore_allocate_page ms))))
      = f (payload (MemStore_allocate_page ms))"
proof -
  have wf: "page_wf n (MemStore_allocate_page ms)" using mem_allocate[OF assms(1)] by simp
  show wf': "page_wf n (payload_mut f (MemStore_allocate_page ms))"
    using wf by (rule payload_mut_wf) (rule assms(2))
  show "drop PAGE_HEADER_SIZE (as_bytes (stamp pid (payload_mut f (MemStore_allocate_page ms))))
      = f (payload (MemStore_allocate_page ms))"
    unfolding payload_stamped[OF wf'] using wf by (rule payload_payload_mut) (rule assms(2))
qed

lemma write_superblock_ok:
  assumes "ms_inv n ms"
  obtains ms' bs where "write_superblock ms head nxt cnt = Some ms'" "ms_inv n ms'"
    "ms_view n ms' (PageId 0) = Some bs" "is_superblock head nxt cnt (drop PAGE_HEADER_SIZE bs)"
proof -
  let ?p = "MemStore_allocate_page ms"
  have len: "32 \<le> length (payload ?p)"
    using mem_allocate[OF assms] payload_length[of n ?p] ms_inv_ge[OF assms] by simp
  note page = mem_page_payload[OF assms, where f = "superblock_payload head nxt cnt",
      OF length_superblock_payload[OF len]]
  obtain ms' where "stored_page ms 0 (payload_mut (superblock_payload head nxt cnt) ?p) = Some ms'" "ms_inv n ms'"
    "ms_view n ms' (PageId 0) = Some (as_bytes (stamp (PageId 0) (payload_mut (superblock_payload head nxt cnt) ?p)))"
    by (rule stored_page_ok[OF assms page(1)]) blast
  then show thesis
    using that page(2)[of "PageId 0"] is_superblock_payload[OF len]
    by (simp add: write_superblock_def mem_store_ops_def)
qed

lemma write_link_ok:
  assumes "ms_inv n ms"
  obtains ms' bs where "write_link i nxt ms = Some ms'" "ms_inv n ms'"
    "ms_view n ms' (PageId i) = Some bs" "link_of bs = nxt"
    "\<And>j. j \<noteq> i \<Longrightarrow> ms_view n ms' (PageId j) = ms_view n ms (PageId j)"
proof -
  let ?p = "MemStore_allocate_page ms"
  have len: "8 \<le> length (payload ?p)"
    using mem_allocate[OF assms] payload_length[of n ?p] ms_inv_ge[OF assms] by simp
  have "length (write_u64 LINK_NEXT_OFF nxt (payload ?p)) = length (payload ?p)"
    using len by (simp add: header_simps LINK_NEXT_OFF_def)
  note page = mem_page_payload[OF assms, where f = "write_u64 LINK_NEXT_OFF nxt", OF this]
  obtain ms' where "stored_page ms i (payload_mut (write_u64 LINK_NEXT_OFF nxt) ?p) = Some ms'" "ms_inv n ms'"
    "ms_view n ms' (PageId i) = Some (as_bytes (stamp (PageId i) (payload_mut (write_u64 LINK_NEXT_OFF nxt) ?p)))"
    "\<And>j. j \<noteq> i \<Longrightarrow> ms_view n ms' (PageId j) = ms_view n ms (PageId j)"
    by (rule stored_page_ok[OF assms page(1)]) blast
  moreover have "link_of (as_bytes (stamp (PageId i) (payload_mut (write_u64 LINK_NEXT_OFF nxt) ?p))) = nxt"
    using page(2)[of "PageId i"] len by (simp add: link_of_def header_simps LINK_NEXT_OFF_def)
  ultimately show thesis using that by (simp add: write_link_def mem_store_ops_def)
qed

lemma mem_read_viewed:
  assumes "ms_inv n ms" and "page_wf n p" and "ms_view n ms pid = Some bs"
  obtains p' where "so_read_into mem_store_ops ms pid p = (Inr (), p', ms)" "as_bytes p' = bs" "page_wf n p'"
proof -
  obtain r p' ms' where rd: "MemStore_read_into ms pid p = (r, p', ms')" by (metis prod_cases3)
  note res = mem_read[OF rd assms(1,2)]
  show thesis using that[of p'] rd res(1,2) res(3) res(4)[OF assms(3)] assms(3) by (simp add: mem_store_ops_def)
qed

lemma walk_turn:
  assumes "ms_inv n ms" and "page_wf n sc" and "ms_view n ms (PageId cur) = Some bs"
    and "cur < nxt" and "cur \<noteq> 0" and "\<not> cnt \<le> of_nat (length ids)" and "cur \<notin> seen"
  obtains sc' where "page_wf n sc'" "walk_loop mem_store_ops nxt cnt ms sc ids seen cur
    = walk_loop mem_store_ops nxt cnt ms sc' (ids @ [cur]) (insert cur seen) (link_of bs)"
proof -
  obtain sc' where rd: "so_read_into mem_store_ops ms (PageId cur) sc = (Inr (), sc', ms)" "as_bytes sc' = bs"
    "page_wf n sc'"
    by (rule mem_read_viewed[OF assms(1-3)])
  have "read_u64 (payload sc') LINK_NEXT_OFF = link_of bs" by (simp add: payload_def link_of_def rd(2))
  then have "walk_loop mem_store_ops nxt cnt ms sc ids seen cur
      = walk_loop mem_store_ops nxt cnt ms sc' (ids @ [cur]) (insert cur seen) (link_of bs)"
    using assms(4-7) rd(1) less_not_NO_PAGE[OF assms(4)]
    by (subst walk_loop.simps) (simp add: not_le[symmetric])
  with rd(3) show thesis by (rule that)
qed

lemma rejected_walk:
  assumes "ms_inv n ms" and "ms_view n ms (PageId 0) = Some bs"
    and "is_superblock head nxt cnt (drop PAGE_HEADER_SIZE bs)" and "1 \<le> nxt"
    and "\<And>sc. page_wf n sc \<Longrightarrow> fst (walk_loop mem_store_ops nxt cnt ms sc [] {} head) = Inl InvalidSuperblock"
  shows "rejects_superblock (Some ms)"
proof -
  have wf: "page_wf n (so_allocate_page mem_store_ops ms)"
    using mem_allocate[OF assms(1)] by (simp add: mem_store_ops_def)
  obtain sc where rd: "so_read_into mem_store_ops ms (PageId 0) (so_allocate_page mem_store_ops ms) = (Inr (), sc, ms)"
    "as_bytes sc = bs" "page_wf n sc"
    by (rule mem_read_viewed[OF assms(1) wf assms(2)])
  have sb: "is_superblock head nxt cnt (payload sc)" using assms(3) by (simp add: payload_def rd(2))
  obtain r sc' s' where w: "walk_loop mem_store_ops nxt cnt ms sc [] {} head = (r, sc', s')" by (metis prod_cases3)
  have "r = Inl InvalidSuperblock" using assms(5)[OF rd(3)] w by simp
  then show ?thesis
    using sb w assms(4) by (simp add: rejects_superblock_def PageAllocator_new_def rd(1) is_superblock_def
        walk_free_chain_def Let_def not_le[symmetric])
qed

lemma fresh_mem: "ms_inv 4096 (MemStore_new 4096)"
  by (intro MemStore_new_inv) simp

lemma cycle_test: "test_new_rejects_cycled_free_chain"
proof -
  obtain m0 b0 where m0: "write_superblock (MemStore_new 4096) 1 3 10 = Some m0" "ms_inv 4096 m0"
    "ms_view 4096 m0 (PageId 0) = Some b0" "is_superblock 1 3 10 (drop PAGE_HEADER_SIZE b0)"
    by (rule write_superblock_ok[OF fresh_mem]) blast
  obtain m1 b1 where m1: "write_link 1 2 m0 = Some m1" "ms_inv 4096 m1"
    "ms_view 4096 m1 (PageId 1) = Some b1" "link_of b1 = 2"
    "\<And>j. j \<noteq> 1 \<Longrightarrow> ms_view 4096 m1 (PageId j) = ms_view 4096 m0 (PageId j)"
    by (rule write_link_ok[OF m0(2)]) blast
  obtain m2 b2 where m2: "write_link 2 1 m1 = Some m2" "ms_inv 4096 m2"
    "ms_view 4096 m2 (PageId 2) = Some b2" "link_of b2 = 1"
    "\<And>j. j \<noteq> 2 \<Longrightarrow> ms_view 4096 m2 (PageId j) = ms_view 4096 m1 (PageId j)"
    by (rule write_link_ok[OF m1(2)]) blast
  have "rejects_superblock (Some m2)"
  proof (rule rejected_walk[OF m2(2) _ m0(4)])
    fix sc assume sc: "page_wf 4096 sc"
    obtain sc1 where sc1: "page_wf 4096 sc1" "walk_loop mem_store_ops 3 10 m2 sc [] {} 1
        = walk_loop mem_store_ops 3 10 m2 sc1 ([] @ [1]) {1} (link_of b1)"
      by (rule walk_turn[OF m2(2) sc, of 1 b1 3 10 "[]" "{}"]) (simp_all add: m1(3) m2(5) word_less_nat_alt)
    obtain sc2 where "walk_loop mem_store_ops 3 10 m2 sc1 [1] {1} 2
        = walk_loop mem_store_ops 3 10 m2 sc2 ([1] @ [2]) {2, 1} (link_of b2)"
      by (rule walk_turn[OF m2(2) sc1(1), of 2 b2 3 10 "[1]" "{1}"]) (simp_all add: m2(3) word_less_nat_alt word_le_nat_alt)
    then show "fst (walk_loop mem_store_ops 3 10 m2 sc [] {} 1) = Inl InvalidSuperblock"
      using sc1(2) by (simp add: m1(4) m2(4) walk_loop.simps[of _ _ _ _ _ "[1, 2]"] NO_PAGE_def word_le_nat_alt)
  qed (simp_all add: m0(3) m1(5) m2(5) word_le_nat_alt)
  then show ?thesis by (simp add: test_new_rejects_cycled_free_chain_def m0(1) m1(1) m2(1))
qed

lemma range_test: "test_new_rejects_out_of_range_link"
proof -
  obtain m0 b0 where m0: "write_superblock (MemStore_new 4096) 5 3 1 = Some m0" "ms_inv 4096 m0"
    "ms_view 4096 m0 (PageId 0) = Some b0" "is_superblock 5 3 1 (drop PAGE_HEADER_SIZE b0)"
    by (rule write_superblock_ok[OF fresh_mem]) blast
  have "rejects_superblock (Some m0)"
    by (rule rejected_walk[OF m0(2,3,4)]) (simp_all add: walk_loop.simps NO_PAGE_def word_le_nat_alt)
  then show ?thesis by (simp add: test_new_rejects_out_of_range_link_def m0(1))
qed

lemma mismatch_test: "test_new_rejects_free_count_mismatch"
proof -
  obtain m0 b0 where m0: "write_superblock (MemStore_new 4096) 1 3 5 = Some m0" "ms_inv 4096 m0"
    "ms_view 4096 m0 (PageId 0) = Some b0" "is_superblock 1 3 5 (drop PAGE_HEADER_SIZE b0)"
    by (rule write_superblock_ok[OF fresh_mem]) blast
  obtain m1 b1 where m1: "write_link 1 NO_PAGE m0 = Some m1" "ms_inv 4096 m1"
    "ms_view 4096 m1 (PageId 1) = Some b1" "link_of b1 = NO_PAGE"
    "\<And>j. j \<noteq> 1 \<Longrightarrow> ms_view 4096 m1 (PageId j) = ms_view 4096 m0 (PageId j)"
    by (rule write_link_ok[OF m0(2)]) blast
  have "rejects_superblock (Some m1)"
  proof (rule rejected_walk[OF m1(2) _ m0(4)])
    fix sc assume sc: "page_wf 4096 sc"
    obtain sc1 where "walk_loop mem_store_ops 3 5 m1 sc [] {} 1
        = walk_loop mem_store_ops 3 5 m1 sc1 ([] @ [1]) {1} (link_of b1)"
      by (rule walk_turn[OF m1(2) sc, of 1 b1 3 5 "[]" "{}"]) (simp_all add: m1(3) word_less_nat_alt)
    then show "fst (walk_loop mem_store_ops 3 5 m1 sc [] {} 1) = Inl InvalidSuperblock"
      by (simp add: m1(4) walk_loop.simps[of _ _ _ _ _ "[1]"])
  qed (simp_all add: m0(3) m1(5) word_le_nat_alt)
  then show ?thesis by (simp add: test_new_rejects_free_count_mismatch_def m0(1) m1(1))
qed

lemma page_zero_test: "test_new_rejects_non_superblock_page_zero"
proof -
  let ?ms = "MemStore_new 4096"
  let ?p = "MemStore_allocate_page ?ms" and ?f = "\<lambda>bs :: bytes. bs[0 := 0xFF]"
  have "payload ?p = replicate 4064 0"
    using mem_allocate[OF fresh_mem] by (simp add: payload_def offset_defs blank_bytes_def header_simps)
  then have pl: "?f (payload ?p) = 0xFF # replicate 4063 0" by (simp add: eval_nat_numeral)
  have same: "length (?f (payload ?p)) = length (payload ?p)" by simp
  note page = mem_page_payload[where f = ?f, OF fresh_mem same]
  obtain ms' where ms': "stored_page ?ms 0 (payload_mut ?f ?p) = Some ms'" "ms_inv 4096 ms'"
    "ms_view 4096 ms' (PageId 0) = Some (as_bytes (stamp (PageId 0) (payload_mut ?f ?p)))"
    by (rule stored_page_ok[OF fresh_mem page(1)]) blast
  have wf: "page_wf 4096 (so_allocate_page mem_store_ops ms')"
    using mem_allocate[OF ms'(2)] by (simp add: mem_store_ops_def)
  obtain sc where rd: "so_read_into mem_store_ops ms' (PageId 0) (so_allocate_page mem_store_ops ms') = (Inr (), sc, ms')"
    "as_bytes sc = as_bytes (stamp (PageId 0) (payload_mut ?f ?p))"
    by (rule mem_read_viewed[OF ms'(2) wf ms'(3)])
  have "payload sc = 0xFF # replicate 4063 0"
    using page(2)[of "PageId 0"] unfolding payload_def[of sc] rd(2) by (simp add: pl)
  moreover have "from_le_bytes [0xFF, 0, 0, 0] \<noteq> SB_MAGIC" unfolding SB_MAGIC_def by code_simp
  ultimately have "read_u32 (payload sc) SB_MAGIC_OFF \<noteq> SB_MAGIC"
    by (simp add: read_u32_def sb_offset_defs nth_Cons' del: from_le_bytes.simps)
  then show ?thesis
    using ms'(1) rd(1)
    by (simp add: test_new_rejects_non_superblock_page_zero_def rejects_superblock_def PageAllocator_new_def
        mem_store_ops_def Let_def)
qed

lemma loom_test: "loom_concurrent_allocate_is_unique spawned_first"
proof -
  obtain st ms where st: "test_allocator = (Inr st, ms)" "free_list st = []" "next_new st = 1"
    by (rule test_allocator_fresh)
  show ?thesis by (simp add: loom_concurrent_allocate_is_unique_def st allocate_step)
qed

text \<open>The bookkeeping of the property test: its live set is the ids in use, its pool the free list.\<close>

lemma never_double_allocates_holds:
  assumes "alloc_inv st" and "distinct pool" and "set pool = set (free_list st)"
    and "unat (next_new st) + length ops < 2 ^ 64 - 1"
    and "\<And>k S. S \<noteq> {} \<Longrightarrow> pick k S \<in> S"
  shows "never_double_allocates pick ops st (live_ids st) pool"
  using assms(1-4)
proof (induction ops arbitrary: st pool)
  case Nil
  then show ?case by simp
next
  case (Cons want ops)
  have room: "next_new st \<noteq> NO_PAGE" "next_new st + 1 \<noteq> NO_PAGE" "unat (next_new st + 1) = unat (next_new st) + 1"
  proof -
    have small: "unat (next_new st) + 1 < 2 ^ 64 - 1" using Cons.prems(4) by simp
    then show up: "unat (next_new st + 1) = unat (next_new st) + 1" by (simp add: unat_word_ariths)
    show "next_new st \<noteq> NO_PAGE" "next_new st + 1 \<noteq> NO_PAGE"
      using small up by (auto simp: NO_PAGE_def dest!: arg_cong[of _ _ unat])
  qed
  have count: "free_count st' = of_nat (length pool')"
    if "alloc_inv st'" "distinct pool'" "set pool' = set (free_list st')" for st' pool'
    using that by (metis alloc_inv_def distinct_card free_count_def)
  show ?case
  proof (cases "want \<or> live_ids st = {}")
    case True
    obtain pid st' where a: "allocate st = (Inr pid, st')"
      and pool: "set (filter (\<lambda>f. f \<noteq> pid_get pid) pool) = set (free_list st')"
      and mark: "unat (next_new st') \<le> unat (next_new st) + 1"
    proof (cases st rule: allocate_cases)
      case (reuse xs i)
      then show ?thesis using that[of "PageId i"] Cons.prems(1,3) by (auto simp: alloc_inv_def)
    next
      case extend
      then show ?thesis using that[of "PageId (next_new st)"] Cons.prems(3) room(3) by simp
    qed (use room in simp)
    note live = allocate_live[OF Cons.prems(1) a]
    have d: "distinct (filter (\<lambda>f. f \<noteq> pid_get pid) pool)" using Cons.prems(2) by simp
    have "never_double_allocates pick ops st' (live_ids st') (filter (\<lambda>f. f \<noteq> pid_get pid) pool)"
      using mark Cons.prems(4) by (intro Cons.IH live(1) d pool) simp
    then show ?thesis
      using True a live(2,3,4) count[OF live(1) d pool] by (simp add: Let_def u64_ge_1_iff)
  next
    case False
    let ?v = "pick (length ops) (live_ids st)"
    have v: "?v \<in> live_ids st" using False assms(5) by blast
    obtain st' where f: "free (PageId ?v) st = (Inr (), st')" "alloc_inv st'" "live_ids st' = live_ids st - {?v}"
      using free_live[OF Cons.prems(1), of "PageId ?v"] v by auto
    have st': "free_list st' = free_list st @ [?v]" "next_new st' = next_new st"
      using f(1) by (auto simp: free_def Let_def split: if_splits)
    have d: "distinct (pool @ [?v])" "set (pool @ [?v]) = set (free_list st')"
      using Cons.prems(2,3) v st' by (auto simp: live_ids_def)
    have "never_double_allocates pick ops st' (live_ids st') (pool @ [?v])"
      using st'(2) Cons.prems(4) by (intro Cons.IH f(2) d) simp
    then show ?thesis using False f(1,3) count[OF f(2) d] by (simp add: Let_def)
  qed
qed

section \<open>Properties\<close>

text \<open>C8: the property test of the allocator holds of every list of operations shorter than the id
  space, not only of the sampled ones, and whatever order the hash set of live ids is iterated in:
  no call fails, no id is handed out while it is live, and the free count is what the test counts.\<close>

theorem allocator_property_test_holds:
  assumes "length ops < 2 ^ 64 - 2" and "\<And>k S. S \<noteq> {} \<Longrightarrow> pick k S \<in> S"
  shows "allocate_free_never_double_allocates pick ops"
proof -
  obtain st ms where st: "test_allocator = (Inr st, ms)" "free_list st = []" "next_new st = 1" "alloc_inv st"
    by (rule test_allocator_fresh)
  have "live_ids st = {}" using st(2,3) by (auto simp: live_ids_def word_less_nat_alt word_le_nat_alt)
  then show ?thesis
    using never_double_allocates_holds[of st "[]" ops pick] st(2,3,4) assms
    by (simp add: allocate_free_never_double_allocates_def st(1))
qed

theorem allocator_property_test_holds_witness:
  "allocate_free_never_double_allocates (\<lambda>_ S. Min S) [True, True, False, True, False, False, False]"
proof (rule allocator_property_test_holds)
  show "Min S \<in> S" if "S \<noteq> {}" for S :: "u64 set" using that by simp
qed simp

text \<open>The allocator passes its unit tests, the corrupt superblocks and chains included, and its
  loom test in both orders of the two critical sections.\<close>

lemma allocator_unit_tests_pass:
  "test_allocate_starts_at_one_and_increments \<and> test_free_then_allocate_reuses_id
   \<and> test_free_list_is_lifo \<and> test_free_rejects_superblock_and_unallocated
   \<and> test_state_survives_reopen \<and> test_new_rejects_non_superblock_page_zero
   \<and> test_new_rejects_cycled_free_chain \<and> test_new_rejects_out_of_range_link
   \<and> test_new_rejects_free_count_mismatch
   \<and> loom_concurrent_allocate_is_unique True \<and> loom_concurrent_allocate_is_unique False"
  by (intro conjI counting_tests reopen_test page_zero_test cycle_test range_test mismatch_test loom_test)

end
