(* ===== verification/PoolTests.thy ===== *)
theory PoolTests
  imports PoolWrites PageTests
begin

text \<open>
  The tests that stand in \<^verbatim>\<open>src/pool.rs\<close>, over the in-memory store: the unit tests, the
  property test, true for every list of operations and every order in which the hash map can
  be iterated, and the loom tests.  A guard is the slot it pins, and its drop at the end of a
  scope is written out.
\<close>

section \<open>The unit tests\<close>

definition test_pool :: "nat \<Rightarrow> pool \<times> mem_store" where
  "test_pool capacity = (let ms = MemStore_new 4096 in (BufferPool_new mem_store_ops ms capacity, ms))"

text \<open>\<^verbatim>\<open>guard.write().payload_mut()[0] = b\<close> and \<^verbatim>\<open>guard.read().payload()[0]\<close>.\<close>

definition put_byte :: "u8 \<Rightarrow> page \<Rightarrow> page" where
  "put_byte b = payload_mut (\<lambda>bs. bs[0 := b])"

definition get_byte :: "page \<Rightarrow> u8" where
  "get_byte p = payload p ! 0"

definition test_new_page_then_fetch_serves_from_cache :: bool where
  "test_new_page_then_fetch_serves_from_cache =
    (let (pool, store) = test_pool 8;
         (r, pool, store) = new_page mem_store_ops (PageId 0) pool store
     in passes r (\<lambda>guard.
          let pool = guard_drop guard (guard_write guard (put_byte 0x7A) pool);
              (f, pool2, store) = fetch mem_store_ops (PageId 0) pool store
          in is_resident pool (PageId 0)
             \<and> passes f (\<lambda>guard. get_byte (guard_read pool2 guard) = 0x7A)))"

definition test_capacity_is_clamped_up_to_one :: bool where
  "test_capacity_is_clamped_up_to_one = (bp_capacity (fst (test_pool 0)) = 1)"

definition test_pinned_page_is_never_evicted :: bool where
  "test_pinned_page_is_never_evicted =
    (let (pool, store) = test_pool 1;
         (held, pool, store) = new_page mem_store_ops (PageId 0) pool store;
         (r, pool, store) = new_page mem_store_ops (PageId 1) pool store
     in passes held (\<lambda>_. fails_with r (\<lambda>e. e = BufferPoolExhausted 1) \<and> is_resident pool (PageId 0)))"

definition test_dirty_page_is_flushed_before_eviction :: bool where
  "test_dirty_page_is_flushed_before_eviction =
    (let (pool, store) = test_pool 1;
         (r, pool, store) = new_page mem_store_ops (PageId 0) pool store
     in passes r (\<lambda>guard.
          let pool = guard_drop guard (guard_write guard (set_lsn (Lsn 9)) pool);
              (r, pool, store) = new_page mem_store_ops (PageId 1) pool store
          in passes r (\<lambda>guard.
               let pool = guard_drop guard pool;
                   contained = MemStore_contains store 0;
                   (r, pool, store) = fetch mem_store_ops (PageId 0) pool store
               in contained \<and> passes r (\<lambda>guard. Page_lsn (guard_read pool guard) = Lsn 9))))"

text \<open>The order in which \<^verbatim>\<open>flush_all\<close> meets the two entries of the map is an argument.\<close>

definition test_clock_keeps_the_recently_used_page :: "(pool \<Rightarrow> (page_id \<times> nat) list) \<Rightarrow> bool" where
  "test_clock_keeps_the_recently_used_page order =
    (let (pool, store) = test_pool 2;
         (r, pool, store) = new_page mem_store_ops (PageId 0) pool store
     in passes r (\<lambda>guard.
          let pool = guard_drop guard pool;
              (r, pool, store) = new_page mem_store_ops (PageId 1) pool store
          in passes r (\<lambda>guard.
               let pool = guard_drop guard pool;
                   (fl, pool, store) = flush_all mem_store_ops (order pool) pool store;
                   (f, pool, store) = fetch mem_store_ops (PageId 0) pool store
               in passes fl (\<lambda>_. passes f (\<lambda>guard.
                    let pool = guard_drop guard pool;
                        (r, pool, store) = new_page mem_store_ops (PageId 2) pool store
                    in passes r (\<lambda>guard.
                         let pool = guard_drop guard pool
                         in is_resident pool (PageId 0) \<and> \<not> is_resident pool (PageId 1)
                            \<and> is_resident pool (PageId 2)))))))"

definition test_flush_clears_dirty :: bool where
  "test_flush_clears_dirty =
    (let (pool, store) = test_pool 4;
         (r, pool, store) = new_page mem_store_ops (PageId 0) pool store
     in passes r (\<lambda>guard.
          let dirty = guard_is_dirty pool guard;
              pool = guard_drop guard pool;
              (fl, pool, store) = flush mem_store_ops (PageId 0) pool store;
              (f, pool, store) = fetch mem_store_ops (PageId 0) pool store
          in dirty \<and> passes fl (\<lambda>_. passes f (\<lambda>guard. \<not> guard_is_dirty pool guard))))"

definition test_fetch_missing_unwritten_page_errors :: bool where
  "test_fetch_missing_unwritten_page_errors =
    (let (pool, store) = test_pool 4;
         (r, pool, store) = fetch mem_store_ops (PageId 99) pool store
     in fails_with r is_ShortRead \<and> resident_len pool = 0 \<and> bp_capacity pool = 4)"

section \<open>The property test and the loom tests\<close>

text \<open>The map \<^verbatim>\<open>expected\<close> of the property test, and its loops; \<^term>\<open>None\<close> when one panics.\<close>

fun seed_pages :: "u64 list \<Rightarrow> pool \<Rightarrow> mem_store \<Rightarrow> (u64 \<Rightarrow> u8 option)
    \<Rightarrow> (pool \<times> mem_store \<times> (u64 \<Rightarrow> u8 option)) option" where
  "seed_pages [] pool store expected = Some (pool, store, expected)"
| "seed_pages (i # is) pool store expected =
    (case new_page mem_store_ops (PageId i) pool store of
       (Inl e, pool, store) \<Rightarrow> None
     | (Inr guard, pool, store) \<Rightarrow>
         let pool = guard_write guard (put_byte 0) pool;
             expected = expected(i \<mapsto> 0);
             pool = guard_drop guard pool
         in seed_pages is pool store expected)"

fun run_pool_ops :: "(u8 \<times> u8 \<times> bool) list \<Rightarrow> pool \<Rightarrow> mem_store \<Rightarrow> (u64 \<Rightarrow> u8 option)
    \<Rightarrow> (pool \<times> mem_store \<times> (u64 \<Rightarrow> u8 option)) option" where
  "run_pool_ops [] pool store expected = Some (pool, store, expected)"
| "run_pool_ops ((i, marker, write) # ops) pool store expected =
    (let i = ucast i mod 6
     in case fetch mem_store_ops (PageId i) pool store of
          (Inl e, pool, store) \<Rightarrow> None
        | (Inr guard, pool, store) \<Rightarrow>
            if expected i \<noteq> Some (get_byte (guard_read pool guard)) then None
            else let (pool, expected) =
                       (if write then (guard_write guard (put_byte marker) pool, expected(i \<mapsto> marker))
                        else (pool, expected));
                     pool = guard_drop guard pool
                 in run_pool_ops ops pool store expected)"

fun reread_pages :: "u64 list \<Rightarrow> pool \<Rightarrow> mem_store \<Rightarrow> (u64 \<Rightarrow> u8 option) \<Rightarrow> bool" where
  "reread_pages [] pool store expected = True"
| "reread_pages (i # is) pool store expected =
    (case fetch mem_store_ops (PageId i) pool store of
       (Inl e, pool, store) \<Rightarrow> False
     | (Inr guard, pool, store) \<Rightarrow>
         expected i = Some (get_byte (guard_read pool guard))
         \<and> reread_pages is (guard_drop guard pool) store expected)"

text \<open>\<open>order k\<close> is the order of the iteration in the \<open>k\<close>-th \<^verbatim>\<open>flush_all\<close>.\<close>

definition pool_never_loses_data ::
  "(nat \<Rightarrow> pool \<Rightarrow> (page_id \<times> nat) list) \<Rightarrow> (u8 \<times> u8 \<times> bool) list \<Rightarrow> bool" where
  "pool_never_loses_data order ops =
    (let (pool, store) = test_pool 2; ids = [0, 1, 2, 3, 4, 5]
     in case seed_pages ids pool store Map.empty of
          None \<Rightarrow> False
        | Some (pool, store, expected) \<Rightarrow>
            (let (r, pool, store) = flush_all mem_store_ops (order 0 pool) pool store
             in passes r (\<lambda>_. case run_pool_ops ops pool store expected of
                  None \<Rightarrow> False
                | Some (pool, store, expected) \<Rightarrow>
                    (let (r, pool, store) = flush_all mem_store_ops (order 1 pool) pool store
                     in passes r (\<lambda>_. reread_pages ids pool store expected)))))"

text \<open>
  The spawned thread makes one call, which is one critical section; the interleavings differ in
  whether it comes before or after the main thread's \<^verbatim>\<open>is_resident\<close>.
\<close>

definition loom_pinned_page_never_evicted :: "bool \<Rightarrow> bool" where
  "loom_pinned_page_never_evicted other_first =
    (let (pool, store) = test_pool 1;
         (held, pool, store) = new_page mem_store_ops (PageId 0) pool store;
         (r, pool2, store) = new_page mem_store_ops (PageId 1) pool store;
         resident = is_resident (if other_first then pool2 else pool) (PageId 0)
     in passes held (\<lambda>held. resident \<and> fails_with r (\<lambda>_. True) \<and> guard_id pool2 held = PageId 0))"

definition loom_dirty_page_flushed_on_eviction :: bool where
  "loom_dirty_page_flushed_on_eviction =
    (let (pool, store) = test_pool 1;
         (r, pool, store) = new_page mem_store_ops (PageId 0) pool store
     in passes r (\<lambda>guard.
          let pool = guard_drop guard (guard_write guard (put_byte 0x5A) pool);
              (r, pool, store) = new_page mem_store_ops (PageId 1) pool store
          in passes r (\<lambda>guard. MemStore_contains store 0)))"

section \<open>Pins\<close>

lemma update_pin:
  "(\<And>fr. fr_pin (f fr) = fr_pin fr) \<Longrightarrow> fr_pin (frame_at (update_frame slot f bp) j) = fr_pin (frame_at bp j)"
  by (cases "slot < length (bp_frames bp)"; cases "j = slot")
    (simp_all add: update_frame_def frame_at_def list_update_beyond)

lemma flush_slot_pins:
  "flush_slot ops slot pid bp s = (r, bp', s') \<Longrightarrow> fr_pin (frame_at bp' j) = fr_pin (frame_at bp j)"
  by (auto simp: flush_slot_def update_pin split: if_splits prod.splits sum.splits)

lemma take_slot_pins:
  assumes tk: "take_slot ops bp s = (r, bp', s')" and "hand_ok bp"
  shows "fr_pin (frame_at bp' j) = fr_pin (frame_at bp j)"
proof -
  obtain vic bp1 where fv: "find_victim bp = (vic, bp1)" by (metis prod.exhaust)
  then have same: "fr_pin (frame_at bp1 j) = fr_pin (frame_at bp j)" for j
    using find_victim_correct(1)[OF fv assms(2)] by (simp add: clock_only_def)
  show ?thesis
  proof (cases "bp_free bp = []")
    case False
    then show ?thesis using tk by (auto simp: take_slot_def)
  next
    case True
    show ?thesis
    proof (cases vic)
      case None
      then show ?thesis using tk True fv same by (simp add: take_slot_def)
    next
      case (Some slot)
      obtain u bp2 s2 where fl: "flush_slot ops slot (resident_id (frame_at bp1 slot)) bp1 s = (u, bp2, s2)"
        by (metis prod_cases3)
      show ?thesis
        using tk True fv Some fl flush_slot_pins[OF fl, of j] same
        by (cases u) (auto simp: take_slot_def Let_def)
    qed
  qed
qed

lemma install_pins:
  "slot < length (bp_frames bp) \<Longrightarrow>
    fr_pin (frame_at (install slot pid d bp) j) = (if j = slot then 1 else fr_pin (frame_at bp j))"
  by (simp add: install_def Let_def frame_at_update)

text \<open>A pool between calls of one client that holds no guard, and one whose only guard pins \<open>slot\<close>.\<close>

definition idle_pool :: "pool \<Rightarrow> mem_store \<Rightarrow> bool" where
  "idle_pool bp ms \<longleftrightarrow> ms_inv 4096 ms \<and> pool_inv 4096 (\<lambda>_. True) (ms_view 4096 ms) {} bp
     \<and> (\<forall>j < bp_capacity bp. fr_pin (frame_at bp j) = 0)"

definition holds_guard :: "nat \<Rightarrow> page_id \<Rightarrow> pool \<Rightarrow> mem_store \<Rightarrow> bool" where
  "holds_guard slot pid bp ms \<longleftrightarrow> ms_inv 4096 ms \<and> pool_inv 4096 (\<lambda>_. True) (ms_view 4096 ms) {} bp
     \<and> bp_map bp pid = Some slot \<and> (\<forall>j < bp_capacity bp. fr_pin (frame_at bp j) = (if j = slot then 1 else 0))"

abbreviation content :: "pool \<Rightarrow> mem_store \<Rightarrow> page_id \<Rightarrow> bytes option" where
  "content bp ms \<equiv> pool_view (ms_view 4096 ms) bp"

text \<open>What a step does to the contents of the other pages: nothing.\<close>

abbreviation spares :: "page_id set \<Rightarrow> pool \<Rightarrow> mem_store \<Rightarrow> pool \<Rightarrow> mem_store \<Rightarrow> bool" where
  "spares X bp ms bp' ms' \<equiv> keeps (\<lambda>i. i \<notin> X) (content bp ms) (content bp' ms')"

lemma holds_guard_page: "holds_guard slot pid bp ms \<Longrightarrow> page_wf 4096 (guard_read bp slot)"
  using slots_inv_D(4,5)[OF pool_inv_slots, of 4096 "\<lambda>_. True" _ "{}" bp]
  by (auto simp: holds_guard_def guard_read_def)

lemma holds_guard_content:
  "holds_guard slot pid bp ms \<Longrightarrow> content bp ms pid = Some (stamp_bytes (pid_get pid) (as_bytes (guard_read bp slot)))"
  by (simp add: holds_guard_def pool_view_def guard_read_def)

lemma missing_slots: "pool_inv n ids v {} bp \<Longrightarrow> bp_map bp pid = Some slot \<Longrightarrow> slot < length (bp_frames bp)"
  using slots_inv_D(1,5)[OF pool_inv_slots, of n ids v "{}" bp] by auto

lemma idle_fetch:
  assumes idle: "idle_pool bp ms" and page: "content bp ms pid = Some bs"
  obtains slot bp' ms' where "fetch mem_store_ops pid bp ms = (Inr slot, bp', ms')" "holds_guard slot pid bp' ms'"
    "stamp_bytes (pid_get pid) (as_bytes (guard_read bp' slot)) = bs" "spares {} bp ms bp' ms'"
    "bp_capacity bp' = bp_capacity bp"
proof -
  have inv: "ms_inv 4096 ms" "pool_inv 4096 (\<lambda>_. True) (ms_view 4096 ms) {} bp"
    and pins: "\<And>j. j < bp_capacity bp \<Longrightarrow> fr_pin (frame_at bp j) = 0"
    using idle by (auto simp: idle_pool_def)
  note sl = slots_inv_D[OF pool_inv_slots[OF inv(2)]]
  have room: "bp_map bp pid \<noteq> None \<or> bp_free bp \<noteq> [] \<or> (\<exists>u < bp_capacity bp. fr_pin (frame_at bp u) = 0)"
    using sl(2) pins by blast
  obtain slot bp' ms' where fe: "fetch mem_store_ops pid bp ms = (Inr slot, bp', ms')"
    and bytes: "stamp_bytes (pid_get pid) (as_bytes (guard_read bp' slot)) = bs"
    using ms.fetch_total[OF inv(2,1) TrueI _ page room] by auto
  note fk = ms.fetch_kept[OF fe inv(2,1) TrueI, simplified]
  have cap: "bp_capacity bp' = bp_capacity bp" using fk(2) by (simp add: kept_def)
  have "fr_pin (frame_at bp' j) = (if j = slot then 1 else 0)" if j: "j < bp_capacity bp" for j
  proof (cases "bp_map bp pid")
    case (Some x)
    then show ?thesis using fe pins[OF j] missing_slots[OF inv(2) Some] by (auto simp: fetch_def frame_at_update)
  next
    case None
    obtain t bp1 s1 where tk: "take_slot mem_store_ops bp ms = (t, bp1, s1)" by (metis prod_cases3)
    note tp = take_slot_pins[OF tk pool_inv_hand_ok[OF inv(2)]]
    obtain x where t: "t = Inr x" using fe None tk by (cases t) (simp_all add: fetch_def)
    have "length (bp_frames bp1) = bp_capacity bp1" "x < bp_capacity bp1"
      using ms.take_slot_kept(2)[OF tk inv(2,1), of x] t slots_inv_D(1)[OF pool_inv_slots[OF kept_inv], of 4096 "\<lambda>_. True"]
      by (auto simp: kept_def dest: pool_inv_slots slots_inv_D(1))
    then show ?thesis
      using fe None tk t tp pins[OF j]
      by (auto simp: fetch_def Let_def install_pins update_pin split: prod.splits sum.splits)
  qed
  then have "holds_guard slot pid bp' ms'"
    using fk(1,3) kept_inv[OF fk(2)] by (simp add: holds_guard_def cap)
  then show thesis using that[OF fe _ bytes] fk(2) by (simp add: kept_def)
qed

lemma idle_new_page:
  assumes idle: "idle_pool bp ms"
  obtains slot bp' ms' where "new_page mem_store_ops pid bp ms = (Inr slot, bp', ms')" "holds_guard slot pid bp' ms'"
    "as_bytes (guard_read bp' slot) = blank_bytes 4096" "spares {pid} bp ms bp' ms'"
    "bp_capacity bp' = bp_capacity bp"
proof -
  have inv: "ms_inv 4096 ms" "pool_inv 4096 (\<lambda>_. True) (ms_view 4096 ms) {} bp"
    and pins: "\<And>j. j < bp_capacity bp \<Longrightarrow> fr_pin (frame_at bp j) = 0"
    using idle by (auto simp: idle_pool_def)
  note sl = slots_inv_D[OF pool_inv_slots[OF inv(2)]]
  obtain r bp' ms' where np: "new_page mem_store_ops pid bp ms = (r, bp', ms')" by (metis prod_cases3)
  note nc = ms.new_page_correct[OF np inv(2,1) TrueI, simplified]
  obtain t bp1 s1 where tk: "take_slot mem_store_ops bp ms = (t, bp1, s1)" by (metis prod_cases3)
  note tp = take_slot_pins[OF tk pool_inv_hand_ok[OF inv(2)]]
  have "t \<noteq> Inl e" for e
  proof
    assume t: "t = Inl e"
    have "\<forall>u < bp_capacity bp. 0 < fr_pin (frame_at bp u)"
      using ms.take_slot_kept(4)[OF tk inv(2,1) _ t] ms.take_slot_total[OF tk[unfolded t] inv(2,1)] by simp
    then show False using pins sl(2) by force
  qed
  then obtain slot where r: "r = Inr slot" using nc(4) tk by (cases r; cases t) auto
  have wrote: "wrote 4096 (\<lambda>_. True) (ms_view 4096 ms) bp (ms_view 4096 ms') bp' pid (blank_bytes 4096)"
    "bp_map bp' pid = Some slot" "as_bytes (fr_page (frame_at bp' slot)) = blank_bytes 4096"
    using nc(3)[OF r] by simp_all
  have cap: "bp_capacity bp' = bp_capacity bp" using wrote(1) by (simp add: wrote_def)
  have "fr_pin (frame_at bp' j) = (if j = slot then 1 else 0)" if j: "j < bp_capacity bp" for j
  proof (cases "bp_map bp pid")
    case (Some x)
    then show ?thesis using np r pins[OF j] missing_slots[OF inv(2) Some] by (auto simp: new_page_def frame_at_update)
  next
    case None
    obtain x where t: "t = Inr x" using np r None tk by (cases t) (simp_all add: new_page_def)
    have "length (bp_frames bp1) = bp_capacity bp1" "x < bp_capacity bp1"
      using ms.take_slot_kept(2)[OF tk inv(2,1), of x] t slots_inv_D(1)[OF pool_inv_slots[OF kept_inv], of 4096 "\<lambda>_. True"]
      by (auto simp: kept_def dest: pool_inv_slots slots_inv_D(1))
    then show ?thesis
      using np r None tk t tp pins[OF j] by (auto simp: new_page_def Let_def install_pins update_pin)
  qed
  then have "holds_guard slot pid bp' ms'"
    using nc(1) wrote by (simp add: holds_guard_def wrote_def cap)
  moreover have "spares {pid} bp ms bp' ms'" using wrote(1) by (simp add: wrote_def)
  ultimately show thesis using that[OF np[unfolded r]] wrote(3) cap by (simp add: guard_read_def)
qed

lemma hold_write:
  assumes held: "holds_guard slot pid bp ms" and wf: "page_wf 4096 (f (guard_read bp slot))"
  shows "holds_guard slot pid (guard_write slot f bp) ms"
    and "guard_read (guard_write slot f bp) slot = f (guard_read bp slot)"
    and "spares {pid} bp ms (guard_write slot f bp) ms" and "bp_map (guard_write slot f bp) = bp_map bp"
proof -
  have inv: "pool_inv 4096 (\<lambda>_. True) (ms_view 4096 ms) {} bp" "bp_map bp pid = Some slot"
    using held by (simp_all add: holds_guard_def)
  note gw = guard_write_correct[where f = f, OF inv wf]
  have len: "slot < length (bp_frames bp)" by (rule missing_slots[OF inv])
  show "bp_map (guard_write slot f bp) = bp_map bp" by (simp add: guard_write_def)
  then show "holds_guard slot pid (guard_write slot f bp) ms"
    using held gw(1) by (simp add: holds_guard_def wrote_def guard_write_def update_pin)
  show "guard_read (guard_write slot f bp) slot = f (guard_read bp slot)" by (rule gw(3))
  show "spares {pid} bp ms (guard_write slot f bp) ms" using gw(1) by (simp add: wrote_def)
qed

lemma hold_drop:
  assumes held: "holds_guard slot pid bp ms"
  shows "idle_pool (guard_drop slot bp) ms" and "content (guard_drop slot bp) ms = content bp ms"
    and "bp_map (guard_drop slot bp) = bp_map bp" and "bp_capacity (guard_drop slot bp) = bp_capacity bp"
proof -
  have inv: "pool_inv 4096 (\<lambda>_. True) (ms_view 4096 ms) {} bp" "bp_map bp pid = Some slot"
    using held by (simp_all add: holds_guard_def)
  note gd = guard_drop_correct[OF inv]
  show "content (guard_drop slot bp) ms = content bp ms" "bp_map (guard_drop slot bp) = bp_map bp"
    "bp_capacity (guard_drop slot bp) = bp_capacity bp" by (rule gd)+
  show "idle_pool (guard_drop slot bp) ms"
    using held gd(1,4,5) by (simp add: idle_pool_def holds_guard_def)
qed

lemma test_pool_idle: "test_pool c = (bp, ms) \<Longrightarrow> idle_pool bp ms \<and> bp_capacity bp = max c 1"
proof -
  have inv: "ms_inv 4096 (MemStore_new 4096)" by (intro MemStore_new_inv) simp
  assume "test_pool c = (bp, ms)"
  then show ?thesis
    using inv ms.BufferPool_new_inv[OF inv, where c = c]
    by (auto simp: test_pool_def Let_def idle_pool_def frame_at_def BufferPool_new_def FrameInner_new_def)
qed

lemma mem_flush_slot_total: "fst (flush_slot mem_store_ops slot pid bp ms) = Inr ()"
  by (simp add: flush_slot_def mem_store_ops_def MemStore_write_page_def Let_def)

lemma mem_flush_entries_total: "fst (flush_entries mem_store_ops xs bp ms) = Inr ()"
proof (induction xs arbitrary: bp ms)
  case (Cons x xs)
  obtain r bp1 ms1 where fl: "flush_slot mem_store_ops (snd x) (fst x) bp ms = (r, bp1, ms1)" by (metis prod_cases3)
  then show ?case using mem_flush_slot_total[of "snd x" "fst x" bp ms] Cons.IH[of bp1 ms1] by simp
qed simp

lemma flush_entries_pins:
  "flush_entries ops xs bp s = (r, bp', s') \<Longrightarrow> fr_pin (frame_at bp' j) = fr_pin (frame_at bp j)"
proof (induction xs arbitrary: bp s)
  case (Cons x xs)
  obtain u bp1 s1 where fl: "flush_slot ops (snd x) (fst x) bp s = (u, bp1, s1)" by (metis prod_cases3)
  show ?case using Cons.prems fl Cons.IH[of bp1 s1] flush_slot_pins[OF fl, of j] by (cases u) simp_all
qed simp

lemma idle_flush_all:
  assumes idle: "idle_pool bp ms" and order: "entry_order bp xs"
  obtains bp' ms' where "flush_all mem_store_ops xs bp ms = (Inr (), bp', ms')" "idle_pool bp' ms'"
    "spares {} bp ms bp' ms'" "bp_map bp' = bp_map bp" "bp_capacity bp' = bp_capacity bp"
proof -
  have inv: "ms_inv 4096 ms" "pool_inv 4096 (\<lambda>_. True) (ms_view 4096 ms) {} bp"
    using idle by (auto simp: idle_pool_def)
  obtain r bp' ms' where fl: "flush_all mem_store_ops xs bp ms = (r, bp', ms')" by (metis prod_cases3)
  then have r: "r = Inr ()" using mem_flush_entries_total[of xs bp ms] by (simp add: flush_all_def)
  note fk = ms.flush_all_kept[OF fl order inv(2,1), simplified]
  have "idle_pool bp' ms'"
    using idle fk(1) kept_inv[OF fk(2)] fk(2) flush_entries_pins[OF fl[unfolded flush_all_def]]
    by (simp add: idle_pool_def kept_def)
  then show thesis using that fl r fk(2,3) by (simp add: kept_def)
qed

text \<open>The map of a pool is finite, so it has an order.\<close>

lemma idle_finite: "idle_pool bp ms \<Longrightarrow> finite (dom (bp_map bp))"
proof -
  assume "idle_pool bp ms"
  then have inv: "slots_inv 4096 {} bp" by (auto simp: idle_pool_def dest: pool_inv_slots)
  have "dom (bp_map bp) \<subseteq> (\<lambda>j. resident_id (frame_at bp j)) ` {..<bp_capacity bp}"
  proof
    fix pid assume "pid \<in> dom (bp_map bp)"
    then obtain j where j: "bp_map bp pid = Some j" by auto
    then have "pid = resident_id (frame_at bp j)" "j < bp_capacity bp"
      using slots_inv_D(5,6)[OF inv j] by (simp_all add: resident_id_def)
    then show "pid \<in> (\<lambda>j. resident_id (frame_at bp j)) ` {..<bp_capacity bp}" by auto
  qed
  then show ?thesis by (rule finite_subset) simp
qed

section \<open>The property test holds\<close>

lemma put_byte_facts:
  assumes "page_wf 4096 p"
  shows "page_wf 4096 (put_byte b p)" and "get_byte (put_byte b p) = b"
proof -
  show "page_wf 4096 (put_byte b p)"
    unfolding put_byte_def using assms by (rule payload_mut_wf) simp
  have "payload (put_byte b p) = (payload p)[0 := b]"
    unfolding put_byte_def using assms by (rule payload_payload_mut) simp
  then show "get_byte (put_byte b p) = b"
    using test_payload[OF assms] by (simp add: get_byte_def)
qed

lemma get_byte_stamped:
  assumes "page_wf 4096 p"
  shows "stamp_bytes i (as_bytes p) ! 32 = get_byte p"
proof -
  have len: "length (as_bytes p) = 4096" "length (stamp_bytes i (as_bytes p)) = 4096"
    using page_wf_length[OF assms] length_stamp_bytes[of "as_bytes p" i] by simp_all
  have "stamp_bytes i (as_bytes p) ! 32 = drop 32 (stamp_bytes i (as_bytes p)) ! 0" using len by simp
  also have "\<dots> = drop 32 (as_bytes p) ! 0" using len by (simp only: stamp_bytes_fields(4))
  finally show ?thesis by (simp add: get_byte_def payload_def offset_defs)
qed

text \<open>The map \<^verbatim>\<open>expected\<close> tells the first payload byte of the pages of the pool.\<close>

definition marks :: "(u64 \<Rightarrow> u8 option) \<Rightarrow> pool \<Rightarrow> mem_store \<Rightarrow> bool" where
  "marks expected bp ms \<longleftrightarrow>
    (\<forall>i b. expected i = Some b \<longrightarrow> (\<exists>bs. content bp ms (PageId i) = Some bs \<and> bs ! 32 = b))"

lemma marks_spares: "marks ex bp ms \<Longrightarrow> spares {} bp ms bp' ms' \<Longrightarrow> marks ex bp' ms'"
  by (auto simp: marks_def keeps_def) blast

lemma marks_write:
  assumes "marks ex bp ms" and "spares {PageId i} bp ms bp' ms'"
    and "holds_guard slot (PageId i) bp' ms'" and "get_byte (guard_read bp' slot) = b"
  shows "marks (ex(i \<mapsto> b)) bp' ms'"
  using assms(1,2) holds_guard_content[OF assms(3)] get_byte_stamped[OF holds_guard_page[OF assms(3)], of i] assms(4)
  unfolding marks_def keeps_def by (auto simp: split: if_splits) blast

lemma marks_drop: "marks ex bp ms \<Longrightarrow> holds_guard slot pid bp ms \<Longrightarrow> marks ex (guard_drop slot bp) ms"
  by (simp add: marks_def hold_drop(2))

lemma write_marks:
  assumes "holds_guard slot (PageId i) bp ms" and "marks ex bp ms"
  shows "idle_pool (guard_drop slot (guard_write slot (put_byte b) bp)) ms"
    and "marks (ex(i \<mapsto> b)) (guard_drop slot (guard_write slot (put_byte b) bp)) ms"
proof -
  note put = put_byte_facts[OF holds_guard_page[OF assms(1)], of b]
  note hw = hold_write[where f = "put_byte b", OF assms(1) put(1)]
  show "idle_pool (guard_drop slot (guard_write slot (put_byte b) bp)) ms" by (rule hold_drop(1)[OF hw(1)])
  show "marks (ex(i \<mapsto> b)) (guard_drop slot (guard_write slot (put_byte b) bp)) ms"
    by (rule marks_drop[OF marks_write[OF assms(2) hw(3,1)] hw(1)]) (simp add: hw(2) put(2))
qed

lemma seed_pages_ok:
  assumes "idle_pool bp ms" and "marks ex bp ms"
  shows "\<exists>bp' ms' ex'. seed_pages is bp ms ex = Some (bp', ms', ex') \<and> idle_pool bp' ms' \<and> marks ex' bp' ms'
    \<and> dom ex' = dom ex \<union> set is"
  using assms
proof (induction "is" arbitrary: bp ms ex)
  case Nil
  then show ?case by simp
next
  case (Cons i "is")
  obtain slot bp1 ms1 where np: "new_page mem_store_ops (PageId i) bp ms = (Inr slot, bp1, ms1)"
    "holds_guard slot (PageId i) bp1 ms1" "spares {PageId i} bp ms bp1 ms1"
    by (rule idle_new_page[OF Cons.prems(1)])
  have "marks (ex(i \<mapsto> get_byte (guard_read bp1 slot))) bp1 ms1"
    by (rule marks_write[OF Cons.prems(2) np(3,2) refl])
  note wm = write_marks[OF np(2) this, of 0]
  have upd: "ex(i \<mapsto> x, i \<mapsto> y) = ex(i \<mapsto> y)" for x y by simp
  obtain bp' ms' ex' where "seed_pages is (guard_drop slot (guard_write slot (put_byte 0) bp1)) ms1 (ex(i \<mapsto> 0))
      = Some (bp', ms', ex')" "idle_pool bp' ms'" "marks ex' bp' ms'" "dom ex' = dom (ex(i \<mapsto> 0)) \<union> set is"
    using Cons.IH[OF wm] unfolding upd by blast
  then show ?case using np(1) by (simp add: Let_def insert_commute)
qed

lemma run_pool_ops_ok:
  assumes "idle_pool bp ms" and "marks ex bp ms" and "{..<6} \<subseteq> dom ex"
  shows "\<exists>bp' ms' ex'. run_pool_ops ops bp ms ex = Some (bp', ms', ex') \<and> idle_pool bp' ms' \<and> marks ex' bp' ms'
    \<and> dom ex' = dom ex"
  using assms
proof (induction ops arbitrary: bp ms ex)
  case Nil
  then show ?case by simp
next
  case (Cons op ops)
  obtain a marker wr where op: "op = (a, marker, wr)" by (metis prod_cases3)
  let ?i = "ucast a mod 6 :: u64"
  have "?i < 6" by (rule word_mod_less_divisor) simp
  then obtain b where b: "ex ?i = Some b" using Cons.prems(3) by auto
  then obtain bs where bs: "content bp ms (PageId ?i) = Some bs" "bs ! 32 = b"
    using Cons.prems(2) by (auto simp: marks_def)
  obtain slot bp1 ms1 where fe: "fetch mem_store_ops (PageId ?i) bp ms = (Inr slot, bp1, ms1)"
    "holds_guard slot (PageId ?i) bp1 ms1" "stamp_bytes ?i (as_bytes (guard_read bp1 slot)) = bs"
    "spares {} bp ms bp1 ms1"
    using idle_fetch[OF Cons.prems(1) bs(1)] by (metis page_id.sel)
  have read: "get_byte (guard_read bp1 slot) = b"
    using get_byte_stamped[OF holds_guard_page[OF fe(2)], of ?i] fe(3) bs(2) by simp
  note m1 = marks_spares[OF Cons.prems(2) fe(4)]
  show ?case
  proof (cases wr)
    case True
    have dom: "dom (ex(?i \<mapsto> marker)) = dom ex" using b by auto
    note wm = write_marks[OF fe(2) m1, of marker]
    have "\<exists>bp' ms' ex'. run_pool_ops ops (guard_drop slot (guard_write slot (put_byte marker) bp1)) ms1 (ex(?i \<mapsto> marker))
      = Some (bp', ms', ex') \<and> idle_pool bp' ms' \<and> marks ex' bp' ms' \<and> dom ex' = dom ex"
      using Cons.IH[OF wm] Cons.prems(3) unfolding dom by blast
    then show ?thesis using fe(1) read b True by (simp only: op run_pool_ops.simps Let_def) simp
  next
    case False
    show ?thesis
      using Cons.IH[OF hold_drop(1)[OF fe(2)] marks_drop[OF m1 fe(2)] Cons.prems(3)] fe(1) read b False
      by (simp add: op Let_def)
  qed
qed

lemma reread_pages_ok:
  assumes "idle_pool bp ms" and "marks ex bp ms" and "set is \<subseteq> dom ex"
  shows "reread_pages is bp ms ex"
  using assms
proof (induction "is" arbitrary: bp ms)
  case Nil
  then show ?case by simp
next
  case (Cons i "is")
  obtain b where b: "ex i = Some b" using Cons.prems(3) by auto
  then obtain bs where bs: "content bp ms (PageId i) = Some bs" "bs ! 32 = b"
    using Cons.prems(2) by (auto simp: marks_def)
  obtain slot bp1 ms1 where fe: "fetch mem_store_ops (PageId i) bp ms = (Inr slot, bp1, ms1)"
    "holds_guard slot (PageId i) bp1 ms1" "stamp_bytes i (as_bytes (guard_read bp1 slot)) = bs"
    "spares {} bp ms bp1 ms1"
    using idle_fetch[OF Cons.prems(1) bs(1)] by (metis page_id.sel)
  have "get_byte (guard_read bp1 slot) = b"
    using get_byte_stamped[OF holds_guard_page[OF fe(2)], of i] fe(3) bs(2) by simp
  moreover have "reread_pages is (guard_drop slot bp1) ms1 ex"
    using marks_drop[OF marks_spares[OF Cons.prems(2) fe(4)] fe(2)] Cons.prems(3)
    by (intro Cons.IH[OF hold_drop(1)[OF fe(2)]]) simp_all
  ultimately show ?case using b fe(1) by simp
qed

lemma below_6: "i < 6 \<Longrightarrow> i \<in> set [0, 1, 2, 3, 4, 5 :: u64]"
proof -
  assume "i < 6"
  then have "unat i < 6" by (simp add: word_less_nat_alt)
  then have "unat i \<in> {0, 1, 2, 3, 4, 5}" by auto
  then show ?thesis by (auto simp: word_unat_eq_iff)
qed

lemma never_loses_data:
  assumes "\<And>k bp. finite (dom (bp_map bp)) \<Longrightarrow> entry_order bp (order k bp)"
  shows "pool_never_loses_data order ops"
proof -
  let ?ids = "[0, 1, 2, 3, 4, 5] :: u64 list"
  obtain bp ms where tp: "test_pool 2 = (bp, ms)" by (metis prod.exhaust)
  have idle: "idle_pool bp ms" using test_pool_idle[OF tp] by simp
  have "marks Map.empty bp ms" by (simp add: marks_def)
  from seed_pages_ok[OF idle this, of ?ids] obtain bp1 ms1 ex where
    seed: "seed_pages ?ids bp ms Map.empty = Some (bp1, ms1, ex)" "idle_pool bp1 ms1" "marks ex bp1 ms1"
      "dom ex = set ?ids" by auto
  obtain bp2 ms2 where f1: "flush_all mem_store_ops (order 0 bp1) bp1 ms1 = (Inr (), bp2, ms2)"
    "idle_pool bp2 ms2" "spares {} bp1 ms1 bp2 ms2"
    by (rule idle_flush_all[OF seed(2) assms[OF idle_finite[OF seed(2)]]])
  have ids: "{..<6} \<subseteq> dom ex" unfolding seed(4) using below_6 by blast
  obtain bp3 ms3 ex3 where run: "run_pool_ops ops bp2 ms2 ex = Some (bp3, ms3, ex3)"
    "idle_pool bp3 ms3" "marks ex3 bp3 ms3" "dom ex3 = set ?ids"
    using run_pool_ops_ok[OF f1(2) marks_spares[OF seed(3) f1(3)] ids, of ops] unfolding seed(4) by blast
  obtain bp4 ms4 where f2: "flush_all mem_store_ops (order 1 bp3) bp3 ms3 = (Inr (), bp4, ms4)"
    "idle_pool bp4 ms4" "spares {} bp3 ms3 bp4 ms4"
    by (rule idle_flush_all[OF run(2) assms[OF idle_finite[OF run(2)]]])
  have "reread_pages ?ids bp4 ms4 ex3"
    using run(4) by (intro reread_pages_ok[OF f2(2) marks_spares[OF run(3) f2(3)]]) simp
  then show ?thesis
    by (simp only: pool_never_loses_data_def tp seed(1) f1(1) run(1) f2(1) Let_def prod.case option.case test_simps)
qed

section \<open>The other tests pass\<close>

lemma test_pool_eq: "fst (test_pool c) = BufferPool_new mem_store_ops (MemStore_new 4096) c"
  by (simp add: test_pool_def Let_def)

lemma capacity_test: "test_capacity_is_clamped_up_to_one"
  by (simp add: test_capacity_is_clamped_up_to_one_def test_pool_eq BufferPool_new_def)

lemma obtain_test_pool:
  obtains bp ms where "test_pool c = (bp, ms)" "idle_pool bp ms" "bp_capacity bp = max c 1"
  using test_pool_idle by (metis prod.exhaust)

lemma cache_test: "test_new_page_then_fetch_serves_from_cache"
proof -
  obtain bp ms where tp: "test_pool 8 = (bp, ms)" "idle_pool bp ms" by (rule obtain_test_pool)
  obtain slot bp1 ms1 where np: "new_page mem_store_ops (PageId 0) bp ms = (Inr slot, bp1, ms1)"
    "holds_guard slot (PageId 0) bp1 ms1" by (rule idle_new_page[OF tp(2)])
  note put = put_byte_facts[OF holds_guard_page[OF np(2)], of "0x7A"]
  note hw = hold_write[where f = "put_byte 0x7A", OF np(2) put(1)]
  note hd = hold_drop[OF hw(1)]
  have content: "content (guard_drop slot (guard_write slot (put_byte 0x7A) bp1)) ms1 (PageId 0)
      = Some (stamp_bytes 0 (as_bytes (put_byte 0x7A (guard_read bp1 slot))))"
    using holds_guard_content[OF hw(1)] by (simp add: hd(2) hw(2))
  obtain s2 bp2 ms2 where fe: "fetch mem_store_ops (PageId 0) (guard_drop slot (guard_write slot (put_byte 0x7A) bp1)) ms1
      = (Inr s2, bp2, ms2)" "holds_guard s2 (PageId 0) bp2 ms2"
    "stamp_bytes 0 (as_bytes (guard_read bp2 s2)) = stamp_bytes 0 (as_bytes (put_byte 0x7A (guard_read bp1 slot)))"
    using idle_fetch[OF hd(1) content] by (metis page_id.sel)
  have "get_byte (guard_read bp2 s2) = 0x7A"
    using arg_cong[OF fe(3), of "\<lambda>bs. bs ! 32"] get_byte_stamped[OF holds_guard_page[OF fe(2)], of 0]
      get_byte_stamped[OF put(1), of 0] put(2) by simp
  moreover have "is_resident (guard_drop slot (guard_write slot (put_byte 0x7A) bp1)) (PageId 0)"
    using hd(3) hw(4) np(2) by (simp add: is_resident_def holds_guard_def)
  ultimately show ?thesis
    by (simp add: test_new_page_then_fetch_serves_from_cache_def tp(1) np(1) fe(1) Let_def)
qed

text \<open>The one frame of a pool of capacity 1 is pinned: another page cannot come in.\<close>

lemma full_new_page:
  assumes held: "holds_guard slot pid bp ms" and cap: "bp_capacity bp = 1" and "pid2 \<noteq> pid"
  shows "\<exists>bp' ms'. new_page mem_store_ops pid2 bp ms = (Inl (BufferPoolExhausted 1), bp', ms')
    \<and> bp_map bp' pid = Some slot \<and> slot < bp_capacity bp'
    \<and> pool_inv 4096 (\<lambda>_. True) (ms_view 4096 ms') {} bp'"
proof -
  have inv: "ms_inv 4096 ms" "pool_inv 4096 (\<lambda>_. True) (ms_view 4096 ms) {} bp" "bp_map bp pid = Some slot"
    and pins: "\<forall>j < bp_capacity bp. fr_pin (frame_at bp j) = (if j = slot then 1 else 0)"
    using held by (auto simp: holds_guard_def)
  note sl = slots_inv_D[OF pool_inv_slots[OF inv(2)]]
  have slot: "slot = 0" using sl(5)[OF inv(3)] cap by simp
  have one: "j = 0" if "j < bp_capacity bp" for j using that cap by simp
  have full: "\<forall>u < bp_capacity bp. 0 < fr_pin (frame_at bp u)"
    using pins one slot by fastforce
  have "j \<notin> set (bp_free bp)" for j
    using sl(7)[OF inv(3)] sl(10)[of j] one[of j] slot by auto
  then have free: "bp_free bp = []" by (cases "bp_free bp") auto
  have other: "bp_map bp pid2 = None"
  proof (rule ccontr)
    assume "bp_map bp pid2 \<noteq> None"
    then obtain j where j: "bp_map bp pid2 = Some j" by auto
    then have "j = slot" using sl(5)[OF j] one slot by simp
    then show False using slots_inv_map_inj[OF pool_inv_slots[OF inv(2)] _ inv(3)] j assms(3) by simp
  qed
  obtain r bp' ms' where np: "new_page mem_store_ops pid2 bp ms = (r, bp', ms')" by (metis prod_cases3)
  obtain t bp1 s1 where tk: "take_slot mem_store_ops bp ms = (t, bp1, s1)" by (metis prod_cases3)
  have "t = Inl (BufferPoolExhausted 1)" using ms.take_slot_kept(5)[OF tk inv(2,1) _ free full] cap by simp
  then have r: "r = Inl (BufferPoolExhausted 1)" using np other tk by (simp add: new_page_def)
  have "kept 4096 (\<lambda>_. True) (ms_view 4096 ms) bp (ms_view 4096 ms') bp' {}"
    using ms.new_page_correct(2)[OF np inv(2,1) TrueI _ r] by simp
  then have "bp_map bp' pid = Some slot" "bp_capacity bp' = bp_capacity bp"
    "pool_inv 4096 (\<lambda>_. True) (ms_view 4096 ms') {} bp'"
    using inv(3) pins sl(5)[OF inv(3)] by (auto simp: kept_def pins_kept_def)
  then show ?thesis using np r sl(5)[OF inv(3)] by auto
qed

lemma pinned_tests: "test_pinned_page_is_never_evicted" "loom_pinned_page_never_evicted other_first"
proof -
  obtain bp ms where tp: "test_pool 1 = (bp, ms)" "idle_pool bp ms" "bp_capacity bp = 1"
    by (rule obtain_test_pool[of 1]) simp
  obtain slot bp1 ms1 where np: "new_page mem_store_ops (PageId 0) bp ms = (Inr slot, bp1, ms1)"
    "holds_guard slot (PageId 0) bp1 ms1" "bp_capacity bp1 = 1"
    by (rule idle_new_page[OF tp(2), of "PageId 0"]) (simp add: tp(3))
  obtain bp2 ms2 where full: "new_page mem_store_ops (PageId 1) bp1 ms1 = (Inl (BufferPoolExhausted 1), bp2, ms2)"
    "bp_map bp2 (PageId 0) = Some slot" "pool_inv 4096 (\<lambda>_. True) (ms_view 4096 ms2) {} bp2"
    using full_new_page[OF np(2,3), of "PageId 1"] by auto
  show "test_pinned_page_is_never_evicted"
    by (simp add: test_pinned_page_is_never_evicted_def tp(1)[unfolded One_nat_def] np(1) full(1,2) is_resident_def)
  have "guard_id bp2 slot = PageId 0"
    using slots_inv_D(6)[OF pool_inv_slots[OF full(3)] full(2)] by (simp add: guard_id_def resident_id_def)
  moreover have "bp_map bp1 (PageId 0) = Some slot" using np(2) by (simp add: holds_guard_def)
  ultimately show "loom_pinned_page_never_evicted other_first"
    by (simp add: loom_pinned_page_never_evicted_def tp(1)[unfolded One_nat_def] np(1) full(1,2) is_resident_def Let_def)
qed

text \<open>Coming into a pool of one frame, a page pushes the other one out to the store.\<close>

lemma evict_one:
  assumes idle: "idle_pool bp ms" and cap: "bp_capacity bp = 1" and "pid2 \<noteq> pid"
    and page: "content bp ms pid = Some bs"
  obtains slot bp' ms' where "new_page mem_store_ops pid2 bp ms = (Inr slot, bp', ms')" "holds_guard slot pid2 bp' ms'"
    "MemStore_contains ms' (pid_get pid)" "content bp' ms' pid = Some bs"
proof -
  obtain slot bp' ms' where np: "new_page mem_store_ops pid2 bp ms = (Inr slot, bp', ms')"
    "holds_guard slot pid2 bp' ms'" "spares {pid2} bp ms bp' ms'" "bp_capacity bp' = bp_capacity bp"
    by (rule idle_new_page[OF idle])
  have inv: "pool_inv 4096 (\<lambda>_. True) (ms_view 4096 ms') {} bp'" "bp_map bp' pid2 = Some slot"
    using np(2) by (simp_all add: holds_guard_def)
  note sl = slots_inv_D[OF pool_inv_slots[OF inv(1)]]
  have "bp_map bp' pid = None"
  proof (rule ccontr)
    assume "bp_map bp' pid \<noteq> None"
    then obtain j where j: "bp_map bp' pid = Some j" by auto
    then have "j = slot" using sl(5)[OF j] sl(5)[OF inv(2)] np(4) cap by simp
    then show False using slots_inv_map_inj[OF pool_inv_slots[OF inv(1)] _ inv(2)] j assms(3) by simp
  qed
  moreover have kept: "content bp' ms' pid = Some bs" using np(3) page assms(3) by (auto simp: keeps_def)
  ultimately have "ms_view 4096 ms' pid = Some bs" by (simp add: pool_view_def)
  then have "MemStore_contains ms' (pid_get pid)"
    using ms_view_SomeD by (fastforce simp: MemStore_contains_def)
  then show thesis using that[OF np(1,2)] kept by simp
qed

lemma one_frame:
  assumes "\<And>p. page_wf 4096 p \<Longrightarrow> page_wf 4096 (f p)"
  obtains slot bp ms bp1 ms1 p where "test_pool 1 = (bp, ms)" "new_page mem_store_ops (PageId 0) bp ms = (Inr slot, bp1, ms1)"
    "idle_pool (guard_drop slot (guard_write slot f bp1)) ms1"
    "bp_capacity (guard_drop slot (guard_write slot f bp1)) = 1"
    "content (guard_drop slot (guard_write slot f bp1)) ms1 (PageId 0) = Some (stamp_bytes 0 (as_bytes (f p)))"
    "page_wf 4096 p"
proof -
  obtain bp ms where tp: "test_pool 1 = (bp, ms)" "idle_pool bp ms" "bp_capacity bp = 1"
    by (rule obtain_test_pool[of 1]) simp
  obtain slot bp1 ms1 where np: "new_page mem_store_ops (PageId 0) bp ms = (Inr slot, bp1, ms1)"
    "holds_guard slot (PageId 0) bp1 ms1" "bp_capacity bp1 = 1"
    by (rule idle_new_page[OF tp(2), of "PageId 0"]) (simp add: tp(3))
  note wf = holds_guard_page[OF np(2)]
  note hw = hold_write[where f = f, OF np(2) assms[OF wf]]
  note hd = hold_drop[OF hw(1)]
  have "bp_capacity (guard_drop slot (guard_write slot f bp1)) = 1" using np(3) by (simp add: guard_drop_def guard_write_def)
  moreover have "content (guard_drop slot (guard_write slot f bp1)) ms1 (PageId 0)
      = Some (stamp_bytes 0 (as_bytes (f (guard_read bp1 slot))))"
    using holds_guard_content[OF hw(1)] by (simp add: hd(2) hw(2))
  ultimately show thesis using that[OF tp(1) np(1) hd(1)] wf by blast
qed

lemma eviction_tests: "test_dirty_page_is_flushed_before_eviction" "loom_dirty_page_flushed_on_eviction"
proof -
  obtain slot bp ms bp1 ms1 p where one: "test_pool 1 = (bp, ms)"
    "new_page mem_store_ops (PageId 0) bp ms = (Inr slot, bp1, ms1)"
    "idle_pool (guard_drop slot (guard_write slot (set_lsn (Lsn 9)) bp1)) ms1"
    "bp_capacity (guard_drop slot (guard_write slot (set_lsn (Lsn 9)) bp1)) = 1"
    "content (guard_drop slot (guard_write slot (set_lsn (Lsn 9)) bp1)) ms1 (PageId 0)
      = Some (stamp_bytes 0 (as_bytes (set_lsn (Lsn 9) p)))" "page_wf 4096 p"
    by (rule one_frame[where f = "set_lsn (Lsn 9)", OF set_lsn_wf])
  obtain s2 bp2 ms2 where ev: "new_page mem_store_ops (PageId 1) (guard_drop slot (guard_write slot (set_lsn (Lsn 9)) bp1)) ms1
      = (Inr s2, bp2, ms2)" "holds_guard s2 (PageId 1) bp2 ms2" "MemStore_contains ms2 0"
    "content bp2 ms2 (PageId 0) = Some (stamp_bytes 0 (as_bytes (set_lsn (Lsn 9) p)))"
    by (rule evict_one[OF one(3,4) _ one(5), of "PageId 1"]) simp_all
  note hd = hold_drop[OF ev(2)]
  obtain s3 bp3 ms3 where fe: "fetch mem_store_ops (PageId 0) (guard_drop s2 bp2) ms2 = (Inr s3, bp3, ms3)"
    "holds_guard s3 (PageId 0) bp3 ms3"
    "stamp_bytes 0 (as_bytes (guard_read bp3 s3)) = stamp_bytes 0 (as_bytes (set_lsn (Lsn 9) p))"
    using idle_fetch[OF hd(1), of "PageId 0"] ev(4) unfolding hd(2) by (metis page_id.sel)
  have "read_u64 (stamp_bytes 0 (as_bytes q)) 16 = lsn_get (Page_lsn q)" if "page_wf 4096 q" for q
    using page_wf_ge_32[OF that] by (simp add: stamp_bytes_fields(3) Page_lsn_def OFF_LSN_def)
  from this[OF holds_guard_page[OF fe(2)]] this[OF set_lsn_wf[OF one(6)]]
  have "Page_lsn (guard_read bp3 s3) = Lsn 9"
    using fe(3) set_lsn_fields(1)[OF one(6), of "Lsn 9"] by (simp add: lsn.expand)
  then show "test_dirty_page_is_flushed_before_eviction"
    by (simp add: test_dirty_page_is_flushed_before_eviction_def one(1)[unfolded One_nat_def] one(2) ev(1,3) fe(1) Let_def)
next
  obtain slot bp ms bp1 ms1 p where one: "test_pool 1 = (bp, ms)"
    "new_page mem_store_ops (PageId 0) bp ms = (Inr slot, bp1, ms1)"
    "idle_pool (guard_drop slot (guard_write slot (put_byte 0x5A) bp1)) ms1"
    "bp_capacity (guard_drop slot (guard_write slot (put_byte 0x5A) bp1)) = 1"
    "content (guard_drop slot (guard_write slot (put_byte 0x5A) bp1)) ms1 (PageId 0)
      = Some (stamp_bytes 0 (as_bytes (put_byte 0x5A p)))"
    by (rule one_frame[where f = "put_byte 0x5A", OF put_byte_facts(1)])
  obtain s2 bp2 ms2 where ev: "new_page mem_store_ops (PageId 1) (guard_drop slot (guard_write slot (put_byte 0x5A) bp1)) ms1
      = (Inr s2, bp2, ms2)" "MemStore_contains ms2 0"
    by (rule evict_one[OF one(3,4) _ one(5), of "PageId 1"]) simp_all
  then show "loom_dirty_page_flushed_on_eviction"
    by (simp add: loom_dirty_page_flushed_on_eviction_def one(1)[unfolded One_nat_def] one(2) Let_def)
qed

lemma flush_test: "test_flush_clears_dirty"
proof -
  obtain bp ms where tp: "test_pool 4 = (bp, ms)" "idle_pool bp ms" by (rule obtain_test_pool)
  obtain slot bp1 ms1 where np: "new_page mem_store_ops (PageId 0) bp ms = (Inr slot, bp1, ms1)"
    "holds_guard slot (PageId 0) bp1 ms1" by (rule idle_new_page[OF tp(2)])
  have inv1: "pool_inv 4096 (\<lambda>_. True) (ms_view 4096 ms1) {} bp1" "bp_map bp1 (PageId 0) = Some slot"
    using np(2) by (simp_all add: holds_guard_def)
  have dirty: "guard_is_dirty bp1 slot"
    using new_page_dirty[OF np(1) pool_inv_slots[OF inv1(1)] inv1(2)] by (simp add: guard_is_dirty_def)
  note hd = hold_drop[OF np(2)]
  have inv2: "ms_inv 4096 ms1" "pool_inv 4096 (\<lambda>_. True) (ms_view 4096 ms1) {} (guard_drop slot bp1)"
    "bp_map (guard_drop slot bp1) (PageId 0) = Some slot"
    using hd(1) inv1(2) by (simp_all add: idle_pool_def hd(3))
  obtain r bp2 ms2 where fl: "flush_slot mem_store_ops slot (PageId 0) (guard_drop slot bp1) ms1 = (r, bp2, ms2)"
    by (metis prod_cases3)
  have r: "r = Inr ()" using mem_flush_slot_total[of slot "PageId 0" "guard_drop slot bp1" ms1] fl by simp
  note fk = ms.flush_slot_kept[OF fl inv2(2,1,3)]
  have clean: "\<not> fr_dirty (frame_at bp2 slot)" by (rule fk(6)[OF r])
  have map: "bp_map bp2 (PageId 0) = Some slot" using fk(3) inv2(3) by simp
  have len: "slot < length (bp_frames bp2)" by (rule missing_slots[OF kept_inv[OF fk(1)] map])
  have "flush mem_store_ops (PageId 0) (guard_drop slot bp1) ms1 = (Inr (), bp2, ms2)"
    using fl r inv2(3) by (simp add: flush_def)
  then show ?thesis
    using dirty clean map len
    by (simp add: test_flush_clears_dirty_def tp(1) np(1) fetch_def guard_is_dirty_def frame_at_update)
qed

lemma missing_test: "test_fetch_missing_unwritten_page_errors"
  by (simp add: test_fetch_missing_unwritten_page_errors_def test_pool_def fetch_def BufferPool_new_def
      take_slot_def mem_store_ops_def MemStore_read_into_def MemStore_new_def resident_len_def Let_def)

text \<open>
  The clock test, step by step: at the last call every frame has its reference bit set, so the
  sweep clears both and takes the frame the hand started from, the one of page 1.
\<close>

definition clock_frame :: "page \<Rightarrow> u64 \<Rightarrow> bool \<Rightarrow> frame" where
  "clock_frame p i dirty = \<lparr>fr_page = p, fr_id = i, fr_pin = 0, fr_dirty = dirty, fr_referenced = True\<rparr>"

definition clock_pool :: "frame \<Rightarrow> frame \<Rightarrow> pool" where
  "clock_pool a b = \<lparr>bp_frames = [a, b], bp_map = [PageId 0 \<mapsto> 1, PageId 1 \<mapsto> 0], bp_free = [], bp_hand = 0,
     bp_capacity = 2\<rparr>"

lemmas clock_steps = update_frame_def frame_at_def resident_id_def install_def guard_drop_def Let_def

lemma clock_seeded:
  obtains bp ms bp1 p where "test_pool 2 = (bp, ms)" "new_page mem_store_ops (PageId 0) bp ms = (Inr 1, bp1, ms)"
    "\<exists>bp2. new_page mem_store_ops (PageId 1) (guard_drop 1 bp1) ms = (Inr 0, bp2, ms)
      \<and> guard_drop 0 bp2 = clock_pool (clock_frame p 1 True) (clock_frame p 0 True)"
proof -
  let ?p = "reset (so_allocate_page mem_store_ops (MemStore_new 4096))"
  let ?bp1 = "\<lparr>bp_frames = [FrameInner_new (so_allocate_page mem_store_ops (MemStore_new 4096)),
      \<lparr>fr_page = ?p, fr_id = 0, fr_pin = 1, fr_dirty = True, fr_referenced = True\<rparr>],
    bp_map = [PageId 0 \<mapsto> 1], bp_free = [0], bp_hand = 0, bp_capacity = 2\<rparr>"
  show thesis
  proof (rule that[of _ _ ?bp1 ?p])
    show "test_pool 2 = (BufferPool_new mem_store_ops (MemStore_new 4096) 2, MemStore_new 4096)"
      by (simp add: test_pool_def Let_def)
    show "new_page mem_store_ops (PageId 0) (BufferPool_new mem_store_ops (MemStore_new 4096) 2) (MemStore_new 4096)
        = (Inr 1, ?bp1, MemStore_new 4096)"
      by (simp add: new_page_def take_slot_def BufferPool_new_def upt_rec FrameInner_new_def clock_steps)
    show "\<exists>bp2. new_page mem_store_ops (PageId 1) (guard_drop 1 ?bp1) (MemStore_new 4096) = (Inr 0, bp2, MemStore_new 4096)
        \<and> guard_drop 0 bp2 = clock_pool (clock_frame ?p 1 True) (clock_frame ?p 0 True)"
      by (simp add: new_page_def take_slot_def FrameInner_new_def clock_frame_def clock_pool_def clock_steps fun_upd_twist)
  qed
qed

lemma mem_flush_dirty:
  assumes "fr_dirty (frame_at bp slot)"
  shows "flush_slot mem_store_ops slot pid bp ms = (Inr (), update_frame slot (\<lambda>fr. fr\<lparr>fr_page := stamp pid (fr_page fr),
    fr_dirty := False\<rparr>) bp, snd (snd (MemStore_write_page ms pid (fr_page (frame_at bp slot)))))"
  using assms by (simp add: flush_slot_def mem_store_ops_def MemStore_write_page_def update_frame_def Let_def)

lemma clock_flushed:
  assumes "entry_order (clock_pool (clock_frame p 1 True) (clock_frame p 0 True)) xs"
  shows "\<exists>q r ms'. flush_all mem_store_ops xs (clock_pool (clock_frame p 1 True) (clock_frame p 0 True)) ms
    = (Inr (), clock_pool (clock_frame q 1 False) (clock_frame r 0 False), ms')"
proof -
  have "set xs = {(PageId 0, 1), (PageId 1, 0)}" "distinct xs"
    using assms by (auto simp: entry_order_def clock_pool_def split: if_splits)
  then have "length xs = 2" using distinct_card[of xs] by simp
  then obtain a b where xs: "xs = [a, b]" by (auto simp: length_Suc_conv numeral_2_eq_2)
  then have "xs = [(PageId 0, 1), (PageId 1, 0)] \<or> xs = [(PageId 1, 0), (PageId 0, 1)]"
    using \<open>set xs = _\<close> by (auto simp: doubleton_eq_iff)
  then show ?thesis
  proof
    assume "xs = [(PageId 0, 1), (PageId 1, 0)]"
    then show ?thesis
      by (simp add: flush_all_def mem_flush_dirty clock_pool_def clock_frame_def update_frame_def frame_at_def)
  next
    assume "xs = [(PageId 1, 0), (PageId 0, 1)]"
    then show ?thesis
      by (simp add: flush_all_def mem_flush_dirty clock_pool_def clock_frame_def update_frame_def frame_at_def)
  qed
qed

lemma clock_last:
  "\<exists>bp. new_page mem_store_ops (PageId 2) (clock_pool (clock_frame q 1 False) (clock_frame r 0 False)) ms = (Inr 0, bp, ms)
    \<and> bp_map bp = [PageId 0 \<mapsto> 1, PageId 2 \<mapsto> 0]"
  by (simp add: new_page_def take_slot_def find_victim_def eval_nat_numeral sweep.simps flush_slot_def
      clock_pool_def clock_frame_def clock_steps fun_upd_twist)

text \<open>The fetch of page 0 in that test and the drop of its guard change nothing: its bit was set already.\<close>

lemma clock_touch_changes_nothing:
  "\<exists>bp. fetch mem_store_ops (PageId 0) (clock_pool (clock_frame q 1 d) (clock_frame r 0 e)) ms = (Inr 1, bp, ms)
    \<and> guard_drop 1 bp = clock_pool (clock_frame q 1 d) (clock_frame r 0 e)"
  by (simp add: fetch_def clock_pool_def clock_frame_def clock_steps)

lemma clock_test:
  assumes "\<And>bp. finite (dom (bp_map bp)) \<Longrightarrow> entry_order bp (order bp)"
  shows "test_clock_keeps_the_recently_used_page order"
proof -
  obtain bp ms bp1 bp2 p where seeded: "test_pool 2 = (bp, ms)"
    "new_page mem_store_ops (PageId 0) bp ms = (Inr 1, bp1, ms)"
    "new_page mem_store_ops (PageId 1) (guard_drop 1 bp1) ms = (Inr 0, bp2, ms)"
    "guard_drop 0 bp2 = clock_pool (clock_frame p 1 True) (clock_frame p 0 True)"
    by (rule clock_seeded) blast
  have order: "entry_order (clock_pool (clock_frame p 1 True) (clock_frame p 0 True))
      (order (clock_pool (clock_frame p 1 True) (clock_frame p 0 True)))"
    by (rule assms) (simp add: clock_pool_def)
  obtain q r ms' where fl: "flush_all mem_store_ops (order (clock_pool (clock_frame p 1 True) (clock_frame p 0 True)))
      (clock_pool (clock_frame p 1 True) (clock_frame p 0 True)) ms
      = (Inr (), clock_pool (clock_frame q 1 False) (clock_frame r 0 False), ms')"
    using clock_flushed[OF order] by blast
  obtain bp3 where touch: "fetch mem_store_ops (PageId 0) (clock_pool (clock_frame q 1 False) (clock_frame r 0 False)) ms'
      = (Inr 1, bp3, ms')" "guard_drop 1 bp3 = clock_pool (clock_frame q 1 False) (clock_frame r 0 False)"
    using clock_touch_changes_nothing by blast
  obtain bp4 where final: "new_page mem_store_ops (PageId 2) (clock_pool (clock_frame q 1 False) (clock_frame r 0 False)) ms'
      = (Inr 0, bp4, ms')" "bp_map bp4 = [PageId 0 \<mapsto> 1, PageId 2 \<mapsto> 0]"
    using clock_last by blast
  have map: "bp_map (guard_drop slot bp) = bp_map bp" for slot bp by (simp add: guard_drop_def)
  show ?thesis
    using final(2) map by (simp add: test_clock_keeps_the_recently_used_page_def seeded[unfolded One_nat_def] fl touch[unfolded One_nat_def]
        final(1) is_resident_def Let_def)
qed

section \<open>Properties\<close>

text \<open>The entries of a map, sorted by id: one possible order of iteration.\<close>

definition sorted_entries :: "pool \<Rightarrow> (page_id \<times> nat) list" where
  "sorted_entries bp = map (\<lambda>pid. (pid, the (bp_map bp pid))) (sorted_list_of_set (dom (bp_map bp)))"

lemma sorted_entries_order: "finite (dom (bp_map bp)) \<Longrightarrow> entry_order bp (sorted_entries bp)"
  by (auto simp: entry_order_def sorted_entries_def distinct_map inj_on_def image_iff)

text \<open>C3: the property test of the pool holds of every list of operations, of any length, not only of
  the sampled ones, and whatever order the hash map is iterated in: two frames serve six pages, and
  every read, before and after the final flush_all, finds the byte last written to its page.\<close>

theorem pool_property_test_holds:
  assumes "\<And>k bp. finite (dom (bp_map bp)) \<Longrightarrow> entry_order bp (order k bp)"
  shows "pool_never_loses_data order ops"
  using assms by (rule never_loses_data)

theorem pool_property_test_holds_witness:
  "pool_never_loses_data (\<lambda>_. sorted_entries) [(3, 0x55, True), (0, 7, False), (5, 1, True), (3, 2, False)]"
  by (rule pool_property_test_holds) (rule sorted_entries_order)

text \<open>The pool passes its unit tests, in whatever order flush_all meets the two entries of the map
  in the clock test, and its loom tests, whichever of the two threads comes first.\<close>

lemma pool_unit_tests_pass:
  assumes "\<And>bp. finite (dom (bp_map bp)) \<Longrightarrow> entry_order bp (order bp)"
  shows "test_new_page_then_fetch_serves_from_cache \<and> test_capacity_is_clamped_up_to_one
    \<and> test_pinned_page_is_never_evicted \<and> test_dirty_page_is_flushed_before_eviction
    \<and> test_clock_keeps_the_recently_used_page order \<and> test_flush_clears_dirty
    \<and> test_fetch_missing_unwritten_page_errors
    \<and> loom_pinned_page_never_evicted True \<and> loom_pinned_page_never_evicted False
    \<and> loom_dirty_page_flushed_on_eviction"
  by (intro conjI cache_test capacity_test pinned_tests eviction_tests clock_test[OF assms] flush_test missing_test)

end
