(* ===== verification/Spec2Isabelle.thy ===== *)
theory Spec2Isabelle
  imports LockOrder Crash FuzzTargets Platform PageTests AllocTests PoolTests
begin

text \<open>
  A model of page-db, a paged storage engine in Rust: fixed-size checksummed pages in a
  file, a page allocator with an on-disk free list, and a buffer pool with clock eviction.

  \<^bold>\<open>The program.\<close>  \<^verbatim>\<open>src/page.rs\<close> gives a page its 32-byte header (magic, version, id, LSN, CRC-32C
  of \<^verbatim>\<open>src/checksum.rs\<close>) over an aligned buffer (\<^verbatim>\<open>src/buffer.rs\<close>).  \<^verbatim>\<open>src/file.rs\<close> reads and
  writes pages at their slots through the retry loops of \<^verbatim>\<open>src/sys.rs\<close>, which also has the
  platforms' ways to open and to flush.  The trait of \<^verbatim>\<open>src/store.rs\<close> is the seam: above it
  \<^verbatim>\<open>src/alloc.rs\<close> hands out ids and keeps the free ones in a chain of link pages below a
  superblock at page 0, and \<^verbatim>\<open>src/pool.rs\<close> caches pages in frames.  Both may share one file
  through an \<^verbatim>\<open>Arc\<close>; they never call each other.  \<^verbatim>\<open>src/sync.rs\<close> wraps the locks, and the
  errors are those of \<^verbatim>\<open>src/error.rs\<close>.

  \<^bold>\<open>Which theory models what.\<close>
  \<^item> \<open>Prelude\<close>: machine words, slices, little-endian encodings.  \<open>Errors\<close>: \<^verbatim>\<open>PageError\<close>; every
    fallible function returns a sum whose left side is the error.
  \<^item> \<open>Checksum\<close>: table generation, slicing by eight, the streaming accumulator.  Shown equal
    to the bit-serial register, and linear enough to detect every burst of four bytes.
  \<^item> \<open>Buffer\<close>, \<open>Page\<close>: the buffer with its layout, and every operation of \<^verbatim>\<open>Page\<close>.  \<open>page_wf n\<close>
    is the invariant; stamping and verifying, corruption, and the byte round trip are its
    properties.  \<open>PageTypes\<close>: the invariant over all ways to obtain a page.
  \<^item> \<open>OsFile\<close>: a file of the operating system (bytes written, bytes durable, and a schedule of
    what the next calls do: short transfers, interruptions, failures), the loops of
    \<^verbatim>\<open>read_at_full\<close> and \<^verbatim>\<open>write_all_at\<close>, and \<^verbatim>\<open>open\<close> and \<^verbatim>\<open>sync_data\<close> as on Linux.  \<open>Platform\<close>: those
    of the other \<^verbatim>\<open>imp\<close> modules.  What the modules use of the crate \<^verbatim>\<open>libc\<close>, the value of
    \<^verbatim>\<open>O_DIRECT\<close> and \<^verbatim>\<open>fcntl\<close>, is a parameter.
  \<^item> \<open>PageFile\<close>: \<^verbatim>\<open>PageFileOptions\<close> and \<^verbatim>\<open>PageFile\<close>; \<open>pf_view n\<close> is the abstract content, the valid
    page of each slot.
  \<^item> \<open>PageStore\<close>: the trait as a record of operations, the locale \<open>page_store\<close> for its contract
    and \<open>reliable_store\<close> for a store that does not fail, both interpreted on the page file;
    \<open>MemStore\<close> interprets the second on \<^verbatim>\<open>src/test_store.rs\<close>.
  \<^item> \<open>Allocator\<close>: \<^verbatim>\<open>PageAllocator\<close> over any store.  \<open>alloc_inv\<close> is the invariant, \<open>live_ids\<close> the
    ids in use, \<open>stored_state\<close> what a sync leaves in the store and an open needs.
  \<^item> \<open>Pool\<close>: frames, the clock, \<^verbatim>\<open>BufferPool\<close> and \<^verbatim>\<open>PageGuard\<close>.  \<open>PoolContent\<close>: \<open>pool_inv\<close> and \<open>pool_view\<close>
    (frame if resident, else store), one lemma per method.  \<open>PoolRuns\<close>: sequences of calls.
  \<^item> \<open>FrameRace\<close>: the locks, and \<^verbatim>\<open>write\<close>, \<^verbatim>\<open>read\<close> and \<^verbatim>\<open>flush\<close> on one frame split into atomic
    steps, under any interleaving.
  \<^item> \<open>LockOrder\<close>: all locks of a pool, the mutex and one per frame, under any number of threads:
    who waits for whom.  \<open>PoolSlots\<close>: the bookkeeping lemmas it needs, which hold even when
    frames and store have come apart.
  \<^item> \<open>GhostStore\<close>, \<open>PoolWrites\<close>, \<open>SharedStore\<close>: allocator and pool on one file, in any interleaving of
    calls of clients that give the pool only ids in use and create a page before they fetch it;
    pages may be freed while dirty or pinned.  \<open>Crash\<close>: what a crash
    or a device error in the middle of a sync of the allocator leaves.
  \<^item> \<open>FuzzTargets\<close>: the two targets of \<^verbatim>\<open>fuzz/fuzz_targets\<close>, for every input.
  \<^item> \<open>PageTests\<close>, \<open>AllocTests\<close>, \<open>PoolTests\<close>: the tests of the sources, each a definition that is true
    when the test passes (\<open>PageTests\<close> those of checksum, buffer, page and file).

  \<^bold>\<open>How state and operations correspond.\<close>  A struct is a record with the source's fields; a method
  with \<^verbatim>\<open>&self\<close> and inner mutability takes the state and returns it changed; \<^verbatim>\<open>&mut [u8]\<close> handed
  to a client is a function on the bytes.  A guard is the slot of its frame.  Ids, offsets,
  LSNs and counts on disk keep their width; lengths, indices and pin counts are natural
  numbers, as they cannot reach the width of \<^verbatim>\<open>usize\<close>.  Iteration over a \<^verbatim>\<open>HashMap\<close>, the
  schedule of the device and the use of a borrow are arguments, so the theorems hold for all
  of them.

  \<^bold>\<open>What is shown.\<close>
  \<^item> Content: pages written are the pages read, on files that fail in any way
    (\<open>write_then_read\<close>, \<open>reads_are_verified\<close>, \<open>writes_are_isolated\<close>); the pool refines a map
    from ids to pages (\<open>pool_runs_are_consistent\<close>), also beside an allocator
    (\<open>shared_runs_are_consistent\<close>).
  \<^item> Durability: \<open>checkpoint_is_durable\<close>, \<open>sync_then_open_round_trip\<close>, \<open>reopen_finds_the_same_allocator\<close>;
    of the two together, \<open>checkpoint_then_sync_survives_crash\<close> from every state of a run,
    \<open>saved_state_survives_the_pool\<close>, and \<open>late_flush_blocks_open\<close> for the order of calls that is
    not safe.  Inside a sync, when pages were freed since the last: \<open>crash_in_sync_outcomes\<close> tells
    what opens by which of the superblock, the link of the last free page of before and the links after it
    had reached the disk (it leaves open the case that the first two had and a later link had
    not), and \<open>failed_sync_blocks_open\<close> what an I/O error between the links and the superblock does.
  \<^item> Allocation: \<open>allocator_refines_live_set\<close>, \<open>open_any_store_is_consistent\<close>.
  \<^item> The tests of the sources: the property tests, for all inputs (\<open>allocator_property_test_holds\<close>,
    \<open>pool_property_test_holds\<close>), and the unit tests, as a check of the model against what the
    authors expect (\<open>unit_tests_pass\<close> below).
  \<^item> Eviction: pinned pages stay, frames do not leak, exhaustion exactly when all are pinned.
  \<^item> Concurrency: mutual exclusion (\<open>page_lock_excludes\<close>); the interleaving of \<^verbatim>\<open>write\<close> with
    \<^verbatim>\<open>flush\<close> that loses a write (\<open>flush_forgets_waiting_write\<close>) and that no other does
    (\<open>quiet_runs_stay_coherent\<close>); the use of the pool that cannot deadlock
    (\<open>ordered_borrows_never_deadlock\<close>), and the deadlock of a checkpoint with a thread that
    calls the pool with a borrow in hand (\<open>checkpoint_blocks_nested_call\<close>).

  \<^bold>\<open>Termination.\<close>  The I/O loops end because every turn uses up schedule or buffer; a schedule is
  finite, and after it the device works.  The clock makes at most two passes of the frames,
  which \<open>clock_victim\<close> shows to be enough.  The walk of the free chain visits each id at most
  once; \<open>chain_walk_is_bounded\<close> bounds it by the count in the superblock.

  \<^bold>\<open>Not modelled.\<close>  \<^verbatim>\<open>Display\<close>, \<^verbatim>\<open>Debug\<close> and serde derives; the texts of the errors; \<^verbatim>\<open>Deref\<close> of
  the borrows, \<^verbatim>\<open>Drop\<close> of the buffer, \<^verbatim>\<open>Send\<close> and \<^verbatim>\<open>Sync\<close>; the re-exports of \<^verbatim>\<open>src/lib.rs\<close> and the
  loom variants of \<^verbatim>\<open>src/sync.rs\<close>; the benchmark.  \<^verbatim>\<open>src/alloc.rs\<close> repeats the
  little-endian helpers of \<^verbatim>\<open>src/page.rs\<close>, which stand for both.  Windows' \<^verbatim>\<open>seek_read\<close> and
  \<^verbatim>\<open>seek_write\<close> have the outcomes of the Unix calls.  The model has no device that interrupts
  for ever, no offset that the system refuses for its size (from \<^verbatim>\<open>2^63\<close> on), and arithmetic as
  in a release build, which wraps.  A crash keeps or loses whole pages; one torn page is what
  the corruption lemmas of \<open>Page\<close> are about.  Outside
  \<open>FrameRace\<close> and \<open>LockOrder\<close> every pool method is one step, as the pool's mutex makes it;
  in \<open>LockOrder\<close> \<^verbatim>\<open>fetch\<close> and \<^verbatim>\<open>new_page\<close> are one step inside the mutex.
\<close>

text \<open>The model passes every unit test and loom test that stands in the sources, in whatever
  order flush_all meets the two entries of the map in the clock test, and whichever of the two
  threads of a loom test enters the lock first, and wherever the global allocator puts a buffer.\<close>

lemma unit_tests_pass:
  assumes order: "\<And>bp. finite (dom (bp_map bp)) \<Longrightarrow> entry_order bp (order bp)"
    and aligned: "\<And>l. lay_align l dvd alloc_at l"
  shows "(test_crc32c_empty_is_zero \<and> test_crc32c_check_vector_matches_standard
   \<and> test_crc32c_streaming_equals_one_shot \<and> test_crc32c_single_bit_flip_changes_value
   \<and> test_aligned_buffer_is_aligned_and_zeroed alloc_at \<and> test_aligned_buffer_clone_is_independent
   \<and> test_page_size_rejects_non_power_of_two \<and> test_page_size_rejects_out_of_range
   \<and> test_page_size_payload_len \<and> test_new_page_has_valid_header \<and> test_stamp_then_verify_roundtrips
   \<and> test_verify_detects_corruption \<and> test_verify_detects_misdirected_page
   \<and> test_from_bytes_rejects_wrong_length \<and> test_from_bytes_rejects_bad_magic
   \<and> test_to_bytes_from_bytes_roundtrips \<and> test_write_read_roundtrip \<and> test_read_past_end_is_short_read
   \<and> test_page_count_tracks_writes \<and> test_corruption_on_disk_is_detected
   \<and> test_write_rejects_wrong_page_size)
   \<and> (test_allocate_starts_at_one_and_increments \<and> test_free_then_allocate_reuses_id
   \<and> test_free_list_is_lifo \<and> test_free_rejects_superblock_and_unallocated
   \<and> test_state_survives_reopen \<and> test_new_rejects_non_superblock_page_zero
   \<and> test_new_rejects_cycled_free_chain \<and> test_new_rejects_out_of_range_link
   \<and> test_new_rejects_free_count_mismatch
   \<and> loom_concurrent_allocate_is_unique True \<and> loom_concurrent_allocate_is_unique False)
   \<and> (test_new_page_then_fetch_serves_from_cache \<and> test_capacity_is_clamped_up_to_one
    \<and> test_pinned_page_is_never_evicted \<and> test_dirty_page_is_flushed_before_eviction
    \<and> test_clock_keeps_the_recently_used_page order \<and> test_flush_clears_dirty
    \<and> test_fetch_missing_unwritten_page_errors
    \<and> loom_pinned_page_never_evicted True \<and> loom_pinned_page_never_evicted False
    \<and> loom_dirty_page_flushed_on_eviction)"
  by (intro conjI[OF page_unit_tests_pass conjI[OF allocator_unit_tests_pass pool_unit_tests_pass]] order aligned)

end
